(* ===== verification/Opus_Prelude.thy ===== *)
theory Opus_Prelude
  imports Main
begin

unbundle bit_operations_syntax

text \<open>
  Shared vocabulary of the development.  C integers are modelled as \<^typ>\<open>int\<close>; the places
  where the code can wrap around carry an explicit conversion \<open>u8\<close>, \<open>u16\<close>, \<open>u32\<close> (unsigned)
  or \<open>i8\<close>, \<open>i16\<close>, \<open>i32\<close> (two's complement).  A byte buffer is an \<^typ>\<open>int list\<close> and is read
  as a base 256 number by \<open>num256\<close>.
\<close>

named_theorems cint \<open>conversions between C integer types\<close>
named_theorems bitarith \<open>bit operations as arithmetic\<close>

section \<open>C integer conversions\<close>

definition u8 :: "int \<Rightarrow> int" where "u8 x = x mod 256"

definition u16 :: "int \<Rightarrow> int" where "u16 x = x mod 65536"

definition u32 :: "int \<Rightarrow> int" where "u32 x = x mod 4294967296"

definition i8 :: "int \<Rightarrow> int" where "i8 x = (x + 128) mod 256 - 128"

definition i16 :: "int \<Rightarrow> int" where "i16 x = (x + 32768) mod 65536 - 32768"

definition i32 :: "int \<Rightarrow> int" where "i32 x = (x + 2147483648) mod 4294967296 - 2147483648"

text \<open>C division truncates towards zero.\<close>

definition cdiv :: "int \<Rightarrow> int \<Rightarrow> int" where
  "cdiv a b = sgn a * sgn b * (\<bar>a\<bar> div \<bar>b\<bar>)"

text \<open>A C truth value.\<close>

definition cbool :: "bool \<Rightarrow> int" where "cbool b = (if b then 1 else 0)"

lemma cbool_simps [simp]: "cbool True = 1" "cbool False = 0" "cbool b = 0 \<longleftrightarrow> \<not> b"
  by (simp_all add: cbool_def)

lemma cbool_cases: "cbool b = 0 \<or> cbool b = 1"
  by (simp add: cbool_def)

lemma u8_id [simp, cint]: "0 \<le> x \<Longrightarrow> x < 256 \<Longrightarrow> u8 x = x"
  by (simp add: u8_def)

lemma u16_id [simp, cint]: "0 \<le> x \<Longrightarrow> x < 65536 \<Longrightarrow> u16 x = x"
  by (simp add: u16_def)

lemma u32_id [simp, cint]: "0 \<le> x \<Longrightarrow> x < 4294967296 \<Longrightarrow> u32 x = x"
  by (simp add: u32_def)

lemma i8_id [simp, cint]: "- 128 \<le> x \<Longrightarrow> x < 128 \<Longrightarrow> i8 x = x"
  by (simp add: i8_def)

lemma i16_id [simp, cint]: "- 32768 \<le> x \<Longrightarrow> x < 32768 \<Longrightarrow> i16 x = x"
  by (simp add: i16_def)

lemma i32_id [simp, cint]: "- 2147483648 \<le> x \<Longrightarrow> x < 2147483648 \<Longrightarrow> i32 x = x"
  by (simp add: i32_def)

lemma u8_range: "0 \<le> u8 x" "u8 x < 256"
  by (simp_all add: u8_def)

lemma u32_range: "0 \<le> u32 x" "u32 x < 4294967296"
  by (simp_all add: u32_def)

lemma i16_range: "- 32768 \<le> i16 x" "i16 x < 32768"
proof -
  have "0 \<le> (x + 32768) mod 65536" "(x + 32768) mod 65536 < 65536" by simp_all
  then show "- 32768 \<le> i16 x" "i16 x < 32768" unfolding i16_def by linarith+
qed

lemma cdiv_nonneg: "0 \<le> a \<Longrightarrow> 0 < b \<Longrightarrow> cdiv a b = a div b"
  by (cases "a = 0") (simp_all add: cdiv_def sgn_if)

section \<open>Bit operations as arithmetic\<close>

lemma and_mask_mod: "(x::int) AND (2 ^ n - 1) = x mod 2 ^ n"
  by (simp add: take_bit_eq_mask [symmetric] mask_eq_exp_minus_1 [symmetric] take_bit_eq_mod)

lemma and_1_mod [bitarith]: "(x::int) AND 1 = x mod 2"
  using and_mask_mod [of x 1] by simp

lemma and_3_mod [bitarith]: "(x::int) AND 3 = x mod 4"
  using and_mask_mod [of x 2] by simp

lemma and_7_mod [bitarith]: "(x::int) AND 7 = x mod 8"
  using and_mask_mod [of x 3] by simp

lemma and_31_mod [bitarith]: "(x::int) AND 31 = x mod 32"
  using and_mask_mod [of x 5] by simp

lemma and_63_mod [bitarith]: "(x::int) AND 63 = x mod 64"
  using and_mask_mod [of x 6] by simp

lemma and_255_mod [bitarith]: "(x::int) AND 255 = x mod 256"
  using and_mask_mod [of x 8] by simp

lemma and_7FFFFFFF_mod [bitarith]: "(x::int) AND 2147483647 = x mod 2147483648"
  using and_mask_mod [of x 31] by simp

lemma drop_bit_div: "drop_bit n (x::int) = x div 2 ^ n"
  by (simp add: drop_bit_eq_div)

lemma push_bit_mult: "push_bit n (x::int) = x * 2 ^ n"
  by (simp add: push_bit_eq_mult)

lemmas shift_arith = drop_bit_div push_bit_mult

text \<open>Bits that do not overlap: inclusive or is addition.\<close>

lemma or_disjoint_add:
  fixes a b :: int
  assumes "0 \<le> b" "b < 2 ^ n"
  shows "a * 2 ^ n OR b = a * 2 ^ n + b"
proof -
  have b: "take_bit n b = b" using assms by (simp add: take_bit_int_eq_self)
  have "(push_bit n a) AND (take_bit n b) = 0"
    by (auto simp: bit_eq_iff bit_and_iff bit_push_bit_iff bit_take_bit_iff)
  then have "(push_bit n a) AND b = 0" by (simp only: b)
  then have "push_bit n a + b = push_bit n a OR b" by (rule disjunctive_add_eq_or)
  then show ?thesis by (simp add: push_bit_eq_mult)
qed

section \<open>Division of integers\<close>

lemma int_div_less_iff: "0 < (b::int) \<Longrightarrow> v div b < a \<longleftrightarrow> v < a * b"
proof -
  assume b: "0 < b"
  have "a \<le> v div b \<longleftrightarrow> a * b \<le> v"
  proof
    assume "a \<le> v div b"
    then have "a * b \<le> v div b * b" using b by (simp add: mult_right_mono)
    then show "a * b \<le> v" using b by (smt (verit) div_mult_mod_eq pos_mod_sign)
  next
    assume "a * b \<le> v"
    then have "a * b div b \<le> v div b" using b by (rule zdiv_mono1)
    then show "a \<le> v div b" using b by simp
  qed
  then show ?thesis by linarith
qed

lemma int_le_div_iff: "0 < (b::int) \<Longrightarrow> a \<le> v div b \<longleftrightarrow> a * b \<le> v"
  using int_div_less_iff [of b v a] by linarith

section \<open>Byte lists as numbers\<close>

definition is_byte :: "int \<Rightarrow> bool" where "is_byte b \<longleftrightarrow> 0 \<le> b \<and> b < 256"

definition bytes :: "int list \<Rightarrow> bool" where "bytes bs \<longleftrightarrow> list_all is_byte bs"

fun num256 :: "int list \<Rightarrow> int" where
  "num256 [] = 0"
| "num256 (b # bs) = b * 256 ^ length bs + num256 bs"

text \<open>Overwrite a slice of an array (\<open>memcpy\<close>, \<open>memmove\<close>, \<open>memset\<close>).\<close>

definition blit :: "'a list \<Rightarrow> nat \<Rightarrow> 'a list \<Rightarrow> 'a list" where
  "blit xs i ys = take i xs @ ys @ drop (i + length ys) xs"

lemma length_blit [simp]: "i + length ys \<le> length xs \<Longrightarrow> length (blit xs i ys) = length xs"
  by (simp add: blit_def)

lemma is_byte_u8 [simp]: "is_byte (u8 x)"
  by (simp add: is_byte_def u8_def)

lemma bytes_simps [simp]:
  "bytes []" "bytes (b # bs) \<longleftrightarrow> is_byte b \<and> bytes bs"
  "bytes (xs @ ys) \<longleftrightarrow> bytes xs \<and> bytes ys"
  by (simp_all add: bytes_def)

lemma bytes_take_drop [simp]: "bytes xs \<Longrightarrow> bytes (take n xs)" "bytes xs \<Longrightarrow> bytes (drop n xs)"
  by (auto simp: bytes_def list_all_iff dest: in_set_takeD in_set_dropD)

lemma bytes_update [simp]: "bytes xs \<Longrightarrow> is_byte b \<Longrightarrow> bytes (xs[i := b])"
  by (auto simp: bytes_def list_all_iff dest!: set_update_subset_insert [THEN subsetD])

lemma bytes_replicate [simp]: "is_byte b \<Longrightarrow> bytes (replicate n b)"
  by (simp add: bytes_def list_all_iff)

lemma bytes_nth: "bytes xs \<Longrightarrow> i < length xs \<Longrightarrow> is_byte (xs ! i)"
  by (simp add: bytes_def list_all_length)

lemma num256_append: "num256 (xs @ ys) = num256 xs * 256 ^ length ys + num256 ys"
  by (induction xs) (simp_all add: algebra_simps power_add)

lemma num256_snoc [simp]: "num256 (xs @ [b]) = num256 xs * 256 + b"
  by (simp add: num256_append)

lemma num256_replicate_0 [simp]: "num256 (replicate n 0) = 0"
  by (induction n) simp_all

lemma num256_replicate_255: "num256 (replicate n 255) = 256 ^ n - 1"
  by (induction n) simp_all

lemma num256_nonneg: "bytes xs \<Longrightarrow> 0 \<le> num256 xs"
  by (induction xs) (simp_all add: is_byte_def)

lemma num256_less: "bytes xs \<Longrightarrow> num256 xs < 256 ^ length xs"
proof (induction xs)
  case (Cons b bs)
  then have "b * 256 ^ length bs \<le> 255 * 256 ^ length bs"
    by (intro mult_right_mono) (simp_all add: is_byte_def)
  moreover have "num256 bs < 256 ^ length bs" using Cons by simp
  ultimately have "b * 256 ^ length bs + num256 bs < 255 * 256 ^ length bs + 256 ^ length bs"
    by linarith
  then show ?case by simp
qed simp

lemma num256_take_drop: "num256 xs = num256 (take n xs) * 256 ^ length (drop n xs) + num256 (drop n xs)"
  using num256_append [of "take n xs" "drop n xs"] by simp

lemma num256_mod_drop:
  "bytes xs \<Longrightarrow> num256 xs mod 256 ^ length (drop n xs) = num256 (drop n xs)"
  using num256_take_drop [of xs n] num256_nonneg [of "drop n xs"] num256_less [of "drop n xs"]
  by simp

lemma num256_div_take:
  "bytes xs \<Longrightarrow> num256 xs div 256 ^ length (drop n xs) = num256 (take n xs)"
  using num256_take_drop [of xs n] num256_nonneg [of "drop n xs"] num256_less [of "drop n xs"]
  by (simp add: div_pos_pos_trivial)

end
