(* ===== verification/Entcode.thy ===== *)
theory Entcode
  imports Opus_Prelude
begin

text \<open>
  The state shared by the range encoder and decoder (\<open>celt/entcode.h\<close>, \<open>celt/mfrngcod.h\<close>),
  the integer logarithm, the bit counters \<open>ec_tell\<close> and \<open>ec_tell_frac\<close>, and the table-driven
  division \<open>celt_udiv\<close> (\<open>celt/entcode.c\<close>).
\<close>

section \<open>Context and constants\<close>

text \<open>
  \<open>struct ec_ctx\<close>.  The pointer \<open>buf\<close> is the byte buffer itself; every other field is the C
  field of that name.
\<close>

record ec_ctx =
  buf :: "int list"
  storage :: int
  end_offs :: int
  end_window :: int
  nend_bits :: int
  nbits_total :: int
  offs :: int
  rng :: int
  val :: int
  ext :: int
  rem :: int
  error :: int

definition EC_CODE_TOP :: int where "EC_CODE_TOP = push_bit 31 1"

definition EC_CODE_BOT :: int where "EC_CODE_BOT = drop_bit 8 EC_CODE_TOP"

definition EC_SYM_MAX :: int where "EC_SYM_MAX = push_bit 8 1 - 1"

definition EC_CODE_EXTRA :: int where "EC_CODE_EXTRA = (32 - 2) mod 8 + 1"

lemma EC_CODE_TOP_val [simp]: "EC_CODE_TOP = 2147483648"
  by (simp add: EC_CODE_TOP_def)

lemma EC_CODE_BOT_val [simp]: "EC_CODE_BOT = 8388608"
  by (simp add: EC_CODE_BOT_def drop_bit_eq_div)

lemma EC_SYM_MAX_val [simp]: "EC_SYM_MAX = 255"
  by (simp add: EC_SYM_MAX_def)

lemma EC_CODE_EXTRA_val [simp]: "EC_CODE_EXTRA = 7"
  by (simp add: EC_CODE_EXTRA_def)

definition EC_MINI :: "int \<Rightarrow> int \<Rightarrow> int" where
  "EC_MINI a b = u32 (a + (u32 (b - a) AND u32 (- cbool (b < a))))"

definition ec_range_bytes :: "ec_ctx \<Rightarrow> int" where "ec_range_bytes s = offs s"

definition ec_get_error :: "ec_ctx \<Rightarrow> int" where "ec_get_error s = error s"

section \<open>Integer logarithm\<close>

definition ec_ilog :: "int \<Rightarrow> int" where
  "ec_ilog v0 =
    (let ret = cbool (v0 \<noteq> 0);
         m = push_bit 4 (cbool (v0 AND 0xFFFF0000 \<noteq> 0));
         v1 = drop_bit (nat m) v0;
         ret = ret OR m;
         m = push_bit 3 (cbool (v1 AND 0xFF00 \<noteq> 0));
         v2 = drop_bit (nat m) v1;
         ret = ret OR m;
         m = push_bit 2 (cbool (v2 AND 0xF0 \<noteq> 0));
         v3 = drop_bit (nat m) v2;
         ret = ret OR m;
         m = push_bit 1 (cbool (v3 AND 0xC \<noteq> 0));
         v4 = drop_bit (nat m) v3;
         ret = ret OR m
     in ret + cbool (v4 AND 2 \<noteq> 0))"

section \<open>Bits used so far\<close>

definition ec_tell :: "ec_ctx \<Rightarrow> int" where
  "ec_tell s = nbits_total s - ec_ilog (rng s)"

definition correction :: "int list" where
  "correction = [35733, 38967, 42495, 46340, 50535, 55109, 60097, 65535]"

definition ec_tell_frac :: "ec_ctx \<Rightarrow> int" where
  "ec_tell_frac s =
    (let nbits = u32 (push_bit 3 (nbits_total s));
         l = ec_ilog (rng s);
         r = drop_bit (nat (l - 16)) (rng s);
         b = drop_bit 12 r - 8;
         b = b + cbool (r > correction ! nat b);
         l = push_bit 3 l + b
     in u32 (nbits - l))"

text \<open>The reference version kept in the source beside the fast one.\<close>

fun ec_tell_frac_loop :: "nat \<Rightarrow> int \<Rightarrow> int \<Rightarrow> int" where
  "ec_tell_frac_loop 0 l r = l"
| "ec_tell_frac_loop (Suc i) l r =
    (let r = drop_bit 15 (u32 (r * r));
         b = drop_bit 16 r
     in ec_tell_frac_loop i (push_bit 1 l OR b) (drop_bit (nat b) r))"

definition ec_tell_frac_ref :: "ec_ctx \<Rightarrow> int" where
  "ec_tell_frac_ref s =
    (let nbits = u32 (push_bit 3 (nbits_total s));
         l = ec_ilog (rng s);
         r = drop_bit (nat (l - 16)) (rng s)
     in u32 (nbits - ec_tell_frac_loop 3 l r))"

section \<open>Division by a small divisor\<close>

definition SMALL_DIV_TABLE :: "int list" where
  "SMALL_DIV_TABLE = [
   0xFFFFFFFF, 0x55555555, 0x33333333, 0x24924924,
   0x1C71C71C, 0x1745D174, 0x13B13B13, 0x11111111,
   0x0F0F0F0F, 0x0D79435E, 0x0C30C30C, 0x0B21642C,
   0x0A3D70A3, 0x097B425E, 0x08D3DCB0, 0x08421084,
   0x07C1F07C, 0x07507507, 0x06EB3E45, 0x06906906,
   0x063E7063, 0x05F417D0, 0x05B05B05, 0x0572620A,
   0x05397829, 0x05050505, 0x04D4873E, 0x04A7904A,
   0x047DC11F, 0x0456C797, 0x04325C53, 0x04104104,
   0x03F03F03, 0x03D22635, 0x03B5CC0E, 0x039B0AD1,
   0x0381C0E0, 0x0369D036, 0x03531DEC, 0x033D91D2,
   0x0329161F, 0x03159721, 0x03030303, 0x02F14990,
   0x02E05C0B, 0x02D02D02, 0x02C0B02C, 0x02B1DA46,
   0x02A3A0FD, 0x0295FAD4, 0x0288DF0C, 0x027C4597,
   0x02702702, 0x02647C69, 0x02593F69, 0x024E6A17,
   0x0243F6F0, 0x0239E0D5, 0x02302302, 0x0226B902,
   0x021D9EAD, 0x0214D021, 0x020C49BA, 0x02040810,
   0x01FC07F0, 0x01F44659, 0x01ECC07B, 0x01E573AC,
   0x01DE5D6E, 0x01D77B65, 0x01D0CB58, 0x01CA4B30,
   0x01C3F8F0, 0x01BDD2B8, 0x01B7D6C3, 0x01B20364,
   0x01AC5701, 0x01A6D01A, 0x01A16D3F, 0x019C2D14,
   0x01970E4F, 0x01920FB4, 0x018D3018, 0x01886E5F,
   0x0183C977, 0x017F405F, 0x017AD220, 0x01767DCE,
   0x01724287, 0x016E1F76, 0x016A13CD, 0x01661EC6,
   0x01623FA7, 0x015E75BB, 0x015AC056, 0x01571ED3,
   0x01539094, 0x01501501, 0x014CAB88, 0x0149539E,
   0x01460CBC, 0x0142D662, 0x013FB013, 0x013C995A,
   0x013991C2, 0x013698DF, 0x0133AE45, 0x0130D190,
   0x012E025C, 0x012B404A, 0x01288B01, 0x0125E227,
   0x01234567, 0x0120B470, 0x011E2EF3, 0x011BB4A4,
   0x01194538, 0x0116E068, 0x011485F0, 0x0112358E,
   0x010FEF01, 0x010DB20A, 0x010B7E6E, 0x010953F3,
   0x01073260, 0x0105197F, 0x0103091B, 0x01010101]"

text \<open>The \<open>USE_SMALL_DIV_TABLE\<close> branch; without it \<open>celt_udiv\<close> is the C quotient.\<close>

definition celt_udiv_table :: "int \<Rightarrow> int \<Rightarrow> int" where
  "celt_udiv_table n d =
    (if d > 256 then n div d
     else let t = ec_ilog (d AND u32 (- d));
              q = u32 (drop_bit 32 (SMALL_DIV_TABLE ! nat (drop_bit (nat t) d)
                    * drop_bit (nat (t - 1)) n))
          in u32 (q + cbool (u32 (n - u32 (q * d)) \<ge> d)))"

definition celt_udiv :: "int \<Rightarrow> int \<Rightarrow> int" where "celt_udiv n d = n div d"

definition celt_sudiv :: "int \<Rightarrow> int \<Rightarrow> int" where "celt_sudiv n d = cdiv n d"

definition celt_sudiv_table :: "int \<Rightarrow> int \<Rightarrow> int" where
  "celt_sudiv_table n d =
    (if n < 0 then - celt_udiv_table (- n) d else celt_udiv_table n d)"

section \<open>The logarithm is the bit length\<close>

fun ilog :: "int \<Rightarrow> int" where
  "ilog v = (if v \<le> 0 then 0 else 1 + ilog (v div 2))"

declare ilog.simps [simp del]

lemma ilog_0 [simp]: "ilog 0 = 0"
  by (simp add: ilog.simps)

lemma ilog_pos: "0 < v \<Longrightarrow> ilog v = 1 + ilog (v div 2)"
  by (simp add: ilog.simps)

lemma ilog_nonneg: "0 \<le> ilog v"
  by (induction v rule: ilog.induct) (subst ilog.simps, auto)

lemma ilog_ge_1: "0 < v \<Longrightarrow> 1 \<le> ilog v"
  using ilog_nonneg [of "v div 2"] by (simp add: ilog_pos)

lemma ilog_shift: "2 ^ n \<le> v \<Longrightarrow> ilog v = int n + ilog (v div 2 ^ n)"
proof (induction n arbitrary: v)
  case (Suc n)
  have "2 * 2 ^ n \<le> v" using Suc.prems by simp
  then have "0 < v" "2 ^ n \<le> v div 2"
    by (smt (verit) zero_less_power, linarith)
  then have "ilog v = 1 + (int n + ilog (v div 2 div 2 ^ n))"
    using Suc.IH [of "v div 2"] by (simp add: ilog_pos)
  then show ?case by (simp add: zdiv_zmult2_eq)
qed simp

lemma ilog_bounds: "0 < v \<Longrightarrow> 2 ^ nat (ilog v - 1) \<le> v \<and> v < 2 ^ nat (ilog v)"
proof (induction v rule: ilog.induct)
  case (1 v)
  show ?case
  proof (cases "v = 1")
    case True
    then show ?thesis by (simp add: ilog_pos)
  next
    case False
    then have v: "0 < v div 2" "0 < v" using 1 by auto
    then have l: "1 \<le> ilog (v div 2)" "ilog v = 1 + ilog (v div 2)"
      using ilog_ge_1 ilog_pos by blast+
    have "2 ^ nat (ilog (v div 2) - 1) \<le> v div 2 \<and> v div 2 < 2 ^ nat (ilog (v div 2))"
      using 1 v by simp
    moreover have "nat (ilog v - 1) = Suc (nat (ilog (v div 2) - 1))"
      "nat (ilog v) = Suc (nat (ilog (v div 2)))" using l by simp_all
    ultimately show ?thesis by (auto simp: int_le_div_iff int_div_less_iff mult.commute)
  qed
qed

lemma and_high_mask:
  assumes "0 \<le> (v::int)" "v < 2 ^ (n + k)"
  shows "v AND (2 ^ n * (2 ^ k - 1)) \<noteq> 0 \<longleftrightarrow> 2 ^ n \<le> v"
proof -
  have "v AND push_bit n (mask k) = push_bit n (take_bit k (drop_bit n v))"
    by (auto simp: bit_eq_iff bit_and_iff bit_push_bit_iff bit_take_bit_iff bit_drop_bit_eq
        bit_mask_iff less_diff_conv2)
  moreover have "take_bit k (drop_bit n v) = v div 2 ^ n"
    using assms take_bit_int_eq_self [of "v div 2 ^ n" k]
    by (simp add: drop_bit_eq_div power_add int_div_less_iff mult.commute
        pos_imp_zdiv_nonneg_iff)
  ultimately have "v AND (2 ^ n * (2 ^ k - 1)) = (v div 2 ^ n) * 2 ^ n"
    by (simp add: push_bit_eq_mult mask_eq_exp_minus_1 mult.commute)
  then show ?thesis using assms by (auto simp: zdiv_eq_0_iff not_le)
qed

lemma ec_ilog_step:
  assumes "0 \<le> v" "v < 2 ^ (n + n)"
  shows "ilog v = int n * cbool (2 ^ n \<le> v)
      + ilog (drop_bit (nat (int n * cbool (2 ^ n \<le> v))) v)"
    and "drop_bit (nat (int n * cbool (2 ^ n \<le> v))) v < 2 ^ n"
    and "0 \<le> drop_bit (nat (int n * cbool (2 ^ n \<le> v))) v"
    and "0 < v \<Longrightarrow> 0 < drop_bit (nat (int n * cbool (2 ^ n \<le> v))) v"
  using assms ilog_shift [of n v]
  by (auto simp: cbool_def drop_bit_eq_div power_add int_div_less_iff
      pos_imp_zdiv_nonneg_iff pos_imp_zdiv_pos_iff)

lemma or_16_8_4_2:
  assumes "a \<in> {0, 1}" "b \<in> {0, 1}" "c \<in> {0, 1}" "d \<in> {0, 1}"
  shows "(1::int) OR 16 * a OR 8 * b OR 4 * c OR 2 * d = 1 + 16 * a + 8 * b + 4 * c + 2 * d"
  using assms by auto

lemma ilog_lt4: "0 < v \<Longrightarrow> v < 4 \<Longrightarrow> ilog v = 1 + cbool (2 \<le> v)"
  using ilog_pos [of v] ilog_pos [of "v div 2"]
  by (cases "v = 1"; cases "v = 2"; cases "v = 3") (auto simp: cbool_def)

lemma ec_ilog_eq: assumes "0 \<le> v" "v < 4294967296" shows "ec_ilog v = ilog v"
proof (cases "v = 0")
  case True
  then show ?thesis by (simp add: ec_ilog_def cbool_def)
next
  case False
  then have v: "0 < v" using assms by simp
  define a where "a = cbool (2 ^ 16 \<le> v)"
  define v1 where "v1 = drop_bit (nat (int 16 * a)) v"
  define b where "b = cbool (2 ^ 8 \<le> v1)"
  define v2 where "v2 = drop_bit (nat (int 8 * b)) v1"
  define c where "c = cbool (2 ^ 4 \<le> v2)"
  define v3 where "v3 = drop_bit (nat (int 4 * c)) v2"
  define d where "d = cbool (2 ^ 2 \<le> v3)"
  define v4 where "v4 = drop_bit (nat (int 2 * d)) v3"
  have 1: "ilog v = 16 * a + ilog v1" "0 < v1" "v1 < 2 ^ 16"
    using ec_ilog_step [of v 16] v assms by (simp_all add: a_def v1_def)
  have 2: "ilog v1 = 8 * b + ilog v2" "0 < v2" "v2 < 2 ^ 8"
    using ec_ilog_step [of v1 8] 1 by (simp_all add: b_def v2_def)
  have 3: "ilog v2 = 4 * c + ilog v3" "0 < v3" "v3 < 2 ^ 4"
    using ec_ilog_step [of v2 4] 2 by (simp_all add: c_def v3_def)
  have 4: "ilog v3 = 2 * d + ilog v4" "0 < v4" "v4 < 2 ^ 2"
    using ec_ilog_step [of v3 2] 3 by (simp_all add: d_def v4_def)
  have A: "cbool (v AND 0xFFFF0000 \<noteq> 0) = a" "cbool (v1 AND 0xFF00 \<noteq> 0) = b"
    "cbool (v2 AND 0xF0 \<noteq> 0) = c" "cbool (v3 AND 0xC \<noteq> 0) = d"
    "cbool (v4 AND 2 \<noteq> 0) = cbool (2 \<le> v4)"
    using and_high_mask [of v 16 16] and_high_mask [of v1 8 8] and_high_mask [of v2 4 4]
      and_high_mask [of v3 2 2] and_high_mask [of v4 1 1] assms 1 2 3 4
    by (simp_all add: a_def b_def c_def d_def)
  have P: "push_bit 4 x = int 16 * x" "push_bit 3 x = int 8 * x" "push_bit 2 x = int 4 * x"
    "push_bit 1 x = int 2 * x" for x :: int
    by (simp_all add: push_bit_eq_mult)
  have "ec_ilog v = (cbool (v \<noteq> 0) OR int 16 * a OR int 8 * b OR int 4 * c OR int 2 * d)
      + cbool (2 \<le> v4)"
    by (simp only: ec_ilog_def Let_def P A v1_def [symmetric] v2_def [symmetric]
        v3_def [symmetric] v4_def [symmetric] or.assoc)
  also have "cbool (v \<noteq> 0) OR int 16 * a OR int 8 * b OR int 4 * c OR int 2 * d
      = 1 OR 16 * a OR 8 * b OR 4 * c OR 2 * d"
    using v by simp
  also have "1 OR 16 * a OR 8 * b OR 4 * c OR 2 * d = 1 + 16 * a + 8 * b + 4 * c + 2 * d"
    by (rule or_16_8_4_2) (use cbool_cases in \<open>auto simp: a_def b_def c_def d_def\<close>)
  also have "\<dots> + cbool (2 \<le> v4) = ilog v"
    using 1 2 3 4 ilog_lt4 [of v4] by simp
  finally show ?thesis .
qed

lemma ec_ilog_bounds:
  assumes "0 < v" "v < 4294967296"
  shows "2 ^ nat (ec_ilog v - 1) \<le> v" "v < 2 ^ nat (ec_ilog v)" "1 \<le> ec_ilog v" "ec_ilog v \<le> 32"
proof -
  show *: "2 ^ nat (ec_ilog v - 1) \<le> v" "v < 2 ^ nat (ec_ilog v)" "1 \<le> ec_ilog v"
    using assms ilog_bounds [of v] ilog_ge_1 [of v] by (simp_all add: ec_ilog_eq)
  have "(2::int) ^ nat (ec_ilog v - 1) < 2 ^ 32" using * assms by simp
  then have "nat (ec_ilog v - 1) < 32" by (simp only: power_strict_increasing_iff)
  then show "ec_ilog v \<le> 32" by linarith
qed

lemma ec_ilog_unique:
  assumes "2 ^ n \<le> v" "v < 2 ^ Suc n" "n < 32"
  shows "ec_ilog v = int n + 1"
proof -
  have v: "0 < v" "v < 4294967296"
    using assms power_increasing [of "Suc n" 32 "2::int"] by (smt (verit) zero_less_power, simp)
  have "(2::int) ^ nat (ec_ilog v - 1) < 2 ^ Suc n" "(2::int) ^ n < 2 ^ nat (ec_ilog v)"
    using ec_ilog_bounds(1,2) [OF v] assms by linarith+
  then have "nat (ec_ilog v - 1) < Suc n" "n < nat (ec_ilog v)"
    by (simp_all only: power_strict_increasing_iff)
  then show ?thesis using ec_ilog_bounds(3) [OF v] by linarith
qed

section \<open>The fast fractional bit count equals the reference version\<close>

definition frac_step :: "int \<Rightarrow> int \<times> int" where
  "frac_step r = (let q = r * r div 32768; b = q div 65536 in (b, q div 2 ^ nat b))"

definition frac_bits :: "int \<Rightarrow> int" where
  "frac_bits r =
    (let (b2, r2) = frac_step r; (b1, r1) = frac_step r2; (b0, r0) = frac_step r1
     in 4 * b2 + 2 * b1 + b0)"

lemma frac_step_range:
  assumes "32768 \<le> r" "r < 65536" "frac_step r = (b, r')"
  shows "b \<in> {0, 1}" "32768 \<le> r'" "r' < 65536"
proof -
  define q where "q = r * r div 32768"
  have "32768 * 32768 \<le> r * r" "r * r \<le> 65535 * 65535"
    using mult_mono [of 32768 r 32768 r] mult_mono [of r 65535 r 65535] assms by simp_all
  then have q: "32768 \<le> q" "q < 131072" by (auto simp: q_def)
  have b: "b = q div 65536" "r' = q div 2 ^ nat b"
    using assms by (auto simp: frac_step_def q_def Let_def)
  then show b01: "b \<in> {0, 1}" using q by auto
  show "32768 \<le> r'" "r' < 65536" using q b b01 by auto
qed

lemma frac_step_mono:
  assumes "32768 \<le> r" "r \<le> s" "s < 65536" "frac_step r = (b, r')" "frac_step s = (c, s')"
  shows "b < c \<or> b = c \<and> r' \<le> s'"
proof -
  have "r * r \<le> s * s" using assms by (auto intro: mult_mono)
  then have q: "r * r div 32768 \<le> s * s div 32768" by (simp add: zdiv_mono1)
  then have "b \<le> c" using assms by (auto simp: frac_step_def Let_def zdiv_mono1)
  moreover have "b = c \<Longrightarrow> r' \<le> s'"
    using q assms by (auto simp: frac_step_def Let_def zdiv_mono1)
  ultimately show ?thesis by auto
qed

lemma frac_bits_mono:
  assumes "32768 \<le> r" "r \<le> s" "s < 65536"
  shows "frac_bits r \<le> frac_bits s"
proof -
  obtain b2 r2 b1 r1 b0 r0 where r: "frac_step r = (b2, r2)" "frac_step r2 = (b1, r1)"
    "frac_step r1 = (b0, r0)" by (metis surj_pair)
  obtain c2 s2 c1 s1 c0 s0 where s: "frac_step s = (c2, s2)" "frac_step s2 = (c1, s1)"
    "frac_step s1 = (c0, s0)" by (metis surj_pair)
  note R = frac_step_range [OF _ _ r(1)] frac_step_range [OF _ _ s(1)]
  have 2: "32768 \<le> r2" "r2 < 65536" "32768 \<le> s2" "s2 < 65536" "b2 \<in> {0,1}" "c2 \<in> {0,1}"
    using R assms by auto
  note R = frac_step_range [OF _ _ r(2)] frac_step_range [OF _ _ s(2)]
  have 1: "32768 \<le> r1" "r1 < 65536" "32768 \<le> s1" "s1 < 65536" "b1 \<in> {0,1}" "c1 \<in> {0,1}"
    using R 2 by auto
  note R = frac_step_range [OF _ _ r(3)] frac_step_range [OF _ _ s(3)]
  have 0: "b0 \<in> {0,1}" "c0 \<in> {0,1}" using R 1 by auto
  have "b2 < c2 \<or> b2 = c2 \<and> r2 \<le> s2" by (rule frac_step_mono [OF assms r(1) s(1)])
  moreover have "r2 \<le> s2 \<Longrightarrow> b1 < c1 \<or> b1 = c1 \<and> r1 \<le> s1"
    using frac_step_mono [OF _ _ _ r(2) s(2)] 2 by auto
  moreover have "r1 \<le> s1 \<Longrightarrow> b0 < c0 \<or> b0 = c0 \<and> r0 \<le> s0"
    using frac_step_mono [OF _ _ _ r(3) s(3)] 1 by auto
  ultimately have "4 * b2 + 2 * b1 + b0 \<le> 4 * c2 + 2 * c1 + c0"
    using 0 1 2 by auto
  then show ?thesis by (simp add: frac_bits_def r s)
qed

lemma frac_bits_const:
  assumes "frac_bits x = k" "frac_bits y = k" "32768 \<le> x" "x \<le> r" "r \<le> y" "y < 65536"
  shows "frac_bits r = k"
  using frac_bits_mono [of x r] frac_bits_mono [of r y] assms by linarith

lemma frac_bits_vals:
  "frac_bits 32768 = 0"
  "frac_bits 35733 = 0"
  "frac_bits 35734 = 1"
  "frac_bits 36863 = 1"
  "frac_bits 36864 = 1"
  "frac_bits 38967 = 1"
  "frac_bits 38968 = 2"
  "frac_bits 40959 = 2"
  "frac_bits 40960 = 2"
  "frac_bits 42495 = 2"
  "frac_bits 42496 = 3"
  "frac_bits 45055 = 3"
  "frac_bits 45056 = 3"
  "frac_bits 46340 = 3"
  "frac_bits 46341 = 4"
  "frac_bits 49151 = 4"
  "frac_bits 49152 = 4"
  "frac_bits 50535 = 4"
  "frac_bits 50536 = 5"
  "frac_bits 53247 = 5"
  "frac_bits 53248 = 5"
  "frac_bits 55109 = 5"
  "frac_bits 55110 = 6"
  "frac_bits 57343 = 6"
  "frac_bits 57344 = 6"
  "frac_bits 60097 = 6"
  "frac_bits 60098 = 7"
  "frac_bits 61439 = 7"
  "frac_bits 61440 = 7"
  "frac_bits 65535 = 7"
  by code_simp+

lemma frac_bits_at:
  "32768 \<le> r \<Longrightarrow> r \<le> 35733 \<Longrightarrow> frac_bits r = 0"
  "35734 \<le> r \<Longrightarrow> r \<le> 36863 \<Longrightarrow> frac_bits r = 1"
  "36864 \<le> r \<Longrightarrow> r \<le> 38967 \<Longrightarrow> frac_bits r = 1"
  "38968 \<le> r \<Longrightarrow> r \<le> 40959 \<Longrightarrow> frac_bits r = 2"
  "40960 \<le> r \<Longrightarrow> r \<le> 42495 \<Longrightarrow> frac_bits r = 2"
  "42496 \<le> r \<Longrightarrow> r \<le> 45055 \<Longrightarrow> frac_bits r = 3"
  "45056 \<le> r \<Longrightarrow> r \<le> 46340 \<Longrightarrow> frac_bits r = 3"
  "46341 \<le> r \<Longrightarrow> r \<le> 49151 \<Longrightarrow> frac_bits r = 4"
  "49152 \<le> r \<Longrightarrow> r \<le> 50535 \<Longrightarrow> frac_bits r = 4"
  "50536 \<le> r \<Longrightarrow> r \<le> 53247 \<Longrightarrow> frac_bits r = 5"
  "53248 \<le> r \<Longrightarrow> r \<le> 55109 \<Longrightarrow> frac_bits r = 5"
  "55110 \<le> r \<Longrightarrow> r \<le> 57343 \<Longrightarrow> frac_bits r = 6"
  "57344 \<le> r \<Longrightarrow> r \<le> 60097 \<Longrightarrow> frac_bits r = 6"
  "60098 \<le> r \<Longrightarrow> r \<le> 61439 \<Longrightarrow> frac_bits r = 7"
  "61440 \<le> r \<Longrightarrow> r \<le> 65535 \<Longrightarrow> frac_bits r = 7"
  by (rule frac_bits_const, (rule frac_bits_vals)+, simp_all)+

lemma frac_bits_lookup:
  assumes "32768 \<le> r" "r < 65536"
  shows "frac_bits r = (let b = r div 4096 - 8 in b + cbool (r > correction ! nat b))"
proof -
  have "r div 4096 - 8 \<in> {0, 1, 2, 3, 4, 5, 6, 7}" using assms by auto
  then consider "r div 4096 - 8 = 0" | "r div 4096 - 8 = 1" | "r div 4096 - 8 = 2"
    | "r div 4096 - 8 = 3" | "r div 4096 - 8 = 4" | "r div 4096 - 8 = 5"
    | "r div 4096 - 8 = 6" | "r div 4096 - 8 = 7" by blast
  then show ?thesis
    by cases (use assms in \<open>auto simp: correction_def Let_def cbool_def frac_bits_at\<close>)
qed

lemma or_bit_add: "b \<in> {0, 1} \<Longrightarrow> push_bit 1 l OR b = 2 * l + (b::int)"
  using or_disjoint_add [of b 1 l] by (auto simp: push_bit_eq_mult mult.commute)

lemma ec_tell_frac_loop_Suc:
  assumes "32768 \<le> r" "r < 65536" "frac_step r = (b, r')"
  shows "ec_tell_frac_loop (Suc i) l r = ec_tell_frac_loop i (2 * l + b) r'"
proof -
  have "0 \<le> r * r" "r * r < 4294967296"
    using mult_mono [of r 65535 r 65535] assms by simp_all
  then have "u32 (r * r) = r * r" by simp
  moreover have "b = r * r div 32768 div 65536" "r' = r * r div 32768 div 2 ^ nat b"
    using assms by (auto simp: frac_step_def Let_def)
  ultimately show ?thesis
    using or_bit_add frac_step_range(1) [OF assms] by (simp add: Let_def drop_bit_eq_div)
qed

lemma ec_tell_frac_loop_eq:
  assumes "32768 \<le> r" "r < 65536"
  shows "ec_tell_frac_loop 3 l r = 8 * l + frac_bits r"
proof -
  obtain b2 r2 b1 r1 b0 r0 where r: "frac_step r = (b2, r2)" "frac_step r2 = (b1, r1)"
    "frac_step r1 = (b0, r0)" by (metis surj_pair)
  have 2: "32768 \<le> r2" "r2 < 65536" using frac_step_range [OF assms r(1)] by auto
  have 1: "32768 \<le> r1" "r1 < 65536" using frac_step_range [OF 2 r(2)] by auto
  have "ec_tell_frac_loop (Suc (Suc (Suc 0))) l r = 2 * (2 * (2 * l + b2) + b1) + b0"
    using ec_tell_frac_loop_Suc [OF assms r(1)] ec_tell_frac_loop_Suc [OF 2 r(2)]
      ec_tell_frac_loop_Suc [OF 1 r(3)] by (simp only: ec_tell_frac_loop.simps(1))
  then show ?thesis by (simp add: numeral_3_eq_3 frac_bits_def r)
qed

lemma rng_top16:
  assumes "32768 \<le> v" "v < 4294967296"
  shows "32768 \<le> drop_bit (nat (ec_ilog v - 16)) v" "drop_bit (nat (ec_ilog v - 16)) v < 65536"
proof -
  define n where "n = nat (ec_ilog v - 16)"
  have b: "2 ^ nat (ec_ilog v - 1) \<le> v" "v < 2 ^ nat (ec_ilog v)" "1 \<le> ec_ilog v"
    using ec_ilog_bounds [of v] assms by simp_all
  have "(2::int) ^ 15 < 2 ^ nat (ec_ilog v)" using b assms by simp
  then have "15 < nat (ec_ilog v)" by (simp only: power_strict_increasing_iff)
  then have n: "nat (ec_ilog v) = 16 + n" "nat (ec_ilog v - 1) = 15 + n"
    by (simp_all add: n_def)
  show "32768 \<le> drop_bit (nat (ec_ilog v - 16)) v" "drop_bit (nat (ec_ilog v - 16)) v < 65536"
    using b(1,2) unfolding n n_def [symmetric] drop_bit_eq_div
    by (simp_all add: int_le_div_iff int_div_less_iff power_add)
qed

text \<open>
  C31. The table-corrected \<open>ec_tell_frac\<close> equals the reference version kept in the source, which
  squares the mantissa three times, for every range a normalised coder can have.
\<close>

theorem ec_tell_frac_eq_ref:
  assumes "32768 \<le> rng s" "rng s < 4294967296"
  shows "ec_tell_frac s = ec_tell_frac_ref s"
  using rng_top16 [OF assms] frac_bits_lookup [OF rng_top16 [OF assms]]
  by (simp add: ec_tell_frac_def ec_tell_frac_ref_def Let_def ec_tell_frac_loop_eq
      push_bit_eq_mult drop_bit_eq_div mult.commute)

theorem ec_tell_frac_eq_ref_witness:
  "ec_tell_frac \<lparr>buf = [], storage = 0, end_offs = 0, end_window = 0, nend_bits = 0, nbits_total = 41,
      offs = 0, rng = 123456789, val = 0, ext = 0, rem = 0, error = 0\<rparr>
   = ec_tell_frac_ref \<lparr>buf = [], storage = 0, end_offs = 0, end_window = 0, nend_bits = 0, nbits_total = 41,
      offs = 0, rng = 123456789, val = 0, ext = 0, rem = 0, error = 0\<rparr>"
  by (rule ec_tell_frac_eq_ref) simp_all

section \<open>The table division is the quotient\<close>

definition odd_part_ok :: "int \<Rightarrow> bool" where
  "odd_part_ok d =
    (let t = ec_ilog (d AND u32 (- d)); k = drop_bit (nat t) d; T = SMALL_DIV_TABLE ! nat k
     in 1 \<le> t \<and> d = 2 ^ nat (t - 1) * (2 * k + 1) \<and> 0 \<le> k \<and> T * (2 * k + 1) < 4294967296
        \<and> 4294967296 \<le> (T + 1) * (2 * k + 1))"

lemma odd_parts_ok: "list_all odd_part_ok [1..256]"
  by code_simp

lemma reciprocal_quotient:
  fixes N m T :: int
  assumes "0 \<le> N" "N < 4294967296" "0 < m" "0 \<le> T"
    and "T * m < 4294967296" "4294967296 \<le> (T + 1) * m"
  defines "q \<equiv> T * N div 4294967296"
  shows "q * m \<le> N" "N < (q + 2) * m" "0 \<le> q"
proof -
  have q: "q * 4294967296 \<le> T * N" "T * N < (q + 1) * 4294967296"
    unfolding q_def by (simp_all add: int_div_less_iff [symmetric] int_le_div_iff [symmetric])
  have "q * m * 4294967296 \<le> T * N * m" using q(1) \<open>0 < m\<close>
    by (simp add: mult.commute mult.left_commute)
  also have "\<dots> = N * (T * m)" by simp
  also have "\<dots> \<le> N * 4294967296" using assms by (intro mult_left_mono) auto
  finally show "q * m \<le> N" by simp
  have "N * 4294967296 \<le> N * ((T + 1) * m)" using assms by (intro mult_left_mono) auto
  also have "\<dots> = (T * N + N) * m" by (simp add: algebra_simps)
  also have "\<dots> < ((q + 1) * 4294967296 + 4294967296) * m"
    using q(2) assms by (intro mult_strict_right_mono) auto
  finally show "N < (q + 2) * m" by (simp add: algebra_simps)
  show "0 \<le> q" unfolding q_def using assms by (simp add: pos_imp_zdiv_nonneg_iff)
qed

lemma celt_udiv_table_eq:
  assumes n: "0 \<le> n" "n < 4294967296" and d: "0 < d"
  shows "celt_udiv_table n d = celt_udiv n d"
proof (cases "d > 256")
  case True
  then show ?thesis by (simp add: celt_udiv_table_def celt_udiv_def)
next
  case False
  define t where "t = ec_ilog (d AND u32 (- d))"
  define k where "k = drop_bit (nat t) d"
  define T where "T = SMALL_DIV_TABLE ! nat k"
  define P :: int where "P = 2 ^ nat (t - 1)"
  define N where "N = n div P"
  define q where "q = T * N div 4294967296"
  have "odd_part_ok d" using odd_parts_ok False d by (auto simp: list_all_iff)
  then have ok: "d = P * (2 * k + 1)" "0 \<le> k" "T * (2 * k + 1) < 4294967296"
    "4294967296 \<le> (T + 1) * (2 * k + 1)"
    by (simp_all add: odd_part_ok_def Let_def t_def k_def T_def P_def)
  have P: "0 < P" by (simp add: P_def)
  have "0 < (T + 1) * (2 * k + 1)" using ok(4) by linarith
  then have T: "0 \<le> T" using ok(2) by (simp add: zero_less_mult_iff)
  have N: "0 \<le> N" "N < 4294967296"
    using n P by (auto simp: N_def pos_imp_zdiv_nonneg_iff int_div_less_iff)
  note R = reciprocal_quotient [OF N _ T ok(3,4), folded q_def]
  have nd: "n div d = N div (2 * k + 1)"
    unfolding ok(1) N_def using ok(2) by (intro zdiv_zmult2_eq) simp
  have "q \<le> n div d" "n div d < q + 2"
    using R ok(2) unfolding nd by (auto simp: int_le_div_iff int_div_less_iff)
  then have qd: "q * d \<le> n" "n < (q + 2) * d"
    using d by (simp_all add: int_le_div_iff int_div_less_iff)
  have "n div d \<le> n" using n d zdiv_mono2 [of n 1 d] by simp
  moreover have "0 \<le> q * d" "0 \<le> q" using R(3) ok(2) d by simp_all
  ultimately have "0 \<le> n - q * d" "n - q * d < 4294967296" "q * d < 4294967296"
    "q + 1 \<le> n div d \<Longrightarrow> q + 1 < 4294967296" "q < 4294967296"
    using qd n \<open>q \<le> n div d\<close> by linarith+
  with \<open>0 \<le> q * d\<close> \<open>0 \<le> q\<close> have u: "u32 q = q" "u32 (q * d) = q * d"
    "u32 (n - q * d) = n - q * d" "q + 1 \<le> n div d \<Longrightarrow> u32 (q + 1) = q + 1"
    by (simp_all only: u32_id)
  have ge: "n - q * d \<ge> d \<longleftrightarrow> q + 1 \<le> n div d"
    using d by (simp add: int_le_div_iff algebra_simps)
  have "celt_udiv_table n d = u32 (u32 q + cbool (u32 (n - u32 (u32 q * d)) \<ge> d))"
    using False by (simp add: celt_udiv_table_def Let_def drop_bit_eq_div q_def T_def N_def P_def
        k_def t_def)
  also have "\<dots> = n div d"
    using u ge \<open>q \<le> n div d\<close> \<open>n div d < q + 2\<close> by (cases "q + 1 \<le> n div d") auto
  finally show ?thesis by (simp add: celt_udiv_def)
qed

text \<open>
  C32. Division by table: for every 32-bit dividend and every positive divisor the reciprocal
  table of \<open>USE_SMALL_DIV_TABLE\<close> gives the C quotient, unsigned and signed.
\<close>

theorem celt_sudiv_table_eq:
  assumes "- 4294967296 < n" "n < 4294967296" "0 < d"
  shows "celt_sudiv_table n d = celt_sudiv n d \<and> (0 \<le> n \<longrightarrow> celt_udiv_table n d = celt_udiv n d)"
  using assms celt_udiv_table_eq [of n d] celt_udiv_table_eq [of "- n" d]
  by (cases "n = 0") (auto simp: celt_sudiv_table_def celt_sudiv_def celt_udiv_def cdiv_def sgn_if)

theorem celt_sudiv_table_eq_witness: "celt_sudiv_table (- 1000000) 7 = - 142857"
  using celt_sudiv_table_eq [of "- 1000000" 7] by (simp add: celt_sudiv_def cdiv_def)

lemma EC_MINI_min:
  assumes "0 \<le> a" "a < 4294967296" "0 \<le> b" "b < 4294967296"
  shows "EC_MINI a b = min a b"
proof -
  have full: "x AND 4294967295 = u32 x" for x
    using and_mask_mod [of x 32] by (simp add: u32_def)
  show ?thesis using assms
    by (auto simp: EC_MINI_def cbool_def min_def full) (simp_all add: u32_def full mod_simps)
qed

end
