(* ===== verification/Range_Encoder.thy ===== *)
theory Range_Encoder
  imports Entenc
begin

text \<open>
  What the range encoder computes.  The bytes written so far, the buffered byte \<open>rem\<close>, the
  \<open>ext\<close> buffered \<open>0xFF\<close> bytes and \<open>val\<close> together denote the low end \<open>enc_low\<close> of the current
  interval, an unbounded number; carry propagation is correct because every operation acts on
  \<open>enc_low\<close> and \<open>rng\<close> as plain interval arithmetic.
\<close>

named_theorems enc_simps \<open>fields of an encoder state after an operation\<close>

section \<open>The buffer\<close>

definition buf_ok :: "ec_ctx \<Rightarrow> bool" where
  "buf_ok s \<longleftrightarrow> 0 \<le> offs s \<and> 0 \<le> end_offs s \<and> offs s + end_offs s \<le> storage s
     \<and> storage s < 4294967296 \<and> int (length (buf s)) = storage s \<and> bytes (buf s)"

definition out_list :: "ec_ctx \<Rightarrow> int list" where
  "out_list s = take (nat (offs s)) (buf s)"

definition raw_list :: "ec_ctx \<Rightarrow> int list" where
  "raw_list s = drop (nat (storage s - end_offs s)) (buf s)"

lemma or_minus1_zero: "(x OR - 1 = (0::int)) = False"
  by simp

lemma take_Suc_update: "n < length xs \<Longrightarrow> take (Suc n) (xs[n := v]) = take n xs @ [v]"
  by (simp add: take_Suc_conv_app_nth)

lemma ec_put_success:
  assumes "buf_ok s" "error (ec_put s v) = 0"
  shows "error s = 0" "buf_ok (ec_put s v)" "offs (ec_put s v) = offs s + 1"
    "out_list (ec_put s v) = out_list s @ [u8 v]" "raw_list (ec_put s v) = raw_list s"
proof -
  have fit: "offs s + end_offs s < storage s"
    using assms by (auto simp: ec_put_def ec_write_byte_def buf_ok_def split: if_splits)
  then have eq: "ec_put s v = s\<lparr>buf := (buf s)[nat (offs s) := u8 v], offs := offs s + 1\<rparr>"
    using assms(1) by (auto simp: ec_put_def ec_write_byte_def buf_ok_def)
  show "error s = 0" using assms(2) by (simp add: eq)
  show "offs (ec_put s v) = offs s + 1" by (simp add: eq)
  show "buf_ok (ec_put s v)" using assms(1) fit by (simp add: eq buf_ok_def)
  have "nat (offs s + 1) = Suc (nat (offs s))" "nat (offs s) < length (buf s)"
    using assms(1) fit by (auto simp: buf_ok_def)
  then show "out_list (ec_put s v) = out_list s @ [u8 v]"
    by (simp add: eq out_list_def take_Suc_update)
  have "nat (offs s) < nat (storage s - end_offs s)" using assms(1) fit by (auto simp: buf_ok_def)
  then show "raw_list (ec_put s v) = raw_list s" by (simp add: eq raw_list_def)
qed

lemma ec_put_error_mono: "error (ec_put s v) = 0 \<Longrightarrow> error s = 0"
  by (auto simp: ec_put_def ec_write_byte_def split: if_splits)

lemma ec_put_ext_error_mono: "error (ec_put_ext n c s) = 0 \<Longrightarrow> error s = 0"
proof (induction n arbitrary: s)
  case (Suc n)
  then have "error ((ec_put s c)\<lparr>ext := int n\<rparr>) = 0" by simp
  then show ?case using ec_put_error_mono by simp
qed simp

lemma ec_put_ext_success:
  assumes "buf_ok s" "error (ec_put_ext n c s) = 0"
  shows "buf_ok (ec_put_ext n c s) \<and> offs (ec_put_ext n c s) = offs s + int n
    \<and> out_list (ec_put_ext n c s) = out_list s @ replicate n (u8 c)
    \<and> raw_list (ec_put_ext n c s) = raw_list s"
  using assms
proof (induction n arbitrary: s)
  case (Suc n)
  let ?t = "(ec_put s c)\<lparr>ext := int n\<rparr>"
  have "error ?t = 0" using Suc.prems ec_put_ext_error_mono by simp
  then have p: "error (ec_put s c) = 0" by simp
  note P = ec_put_success [OF Suc.prems(1) p]
  have "buf_ok ?t" "out_list ?t = out_list s @ [u8 c]" "raw_list ?t = raw_list s"
    "offs ?t = offs s + 1"
    using P by (simp_all add: buf_ok_def out_list_def raw_list_def)
  then show ?case using Suc.IH [of ?t] Suc.prems by simp
qed simp

lemma ec_put_ext_ext: "ext (ec_put_ext n c s) = (if n = 0 then ext s else 0)"
  by (induction n arbitrary: s) auto

section \<open>Carry propagation\<close>

text \<open>Digits that are not in the buffer yet, and the number all digits denote.\<close>

definition pend_len :: "ec_ctx \<Rightarrow> nat" where
  "pend_len s = (if rem s \<ge> 0 then 1 else 0) + nat (ext s)"

definition pend_val :: "ec_ctx \<Rightarrow> int" where
  "pend_val s = (if rem s \<ge> 0 then rem s * 256 ^ nat (ext s) else 0) + 256 ^ nat (ext s) - 1"

definition enc_digits :: "ec_ctx \<Rightarrow> int" where
  "enc_digits s = num256 (out_list s) * 256 ^ pend_len s + pend_val s"

definition enc_m :: "ec_ctx \<Rightarrow> int" where
  "enc_m s = offs s + int (pend_len s)"

definition enc_low :: "ec_ctx \<Rightarrow> int" where
  "enc_low s = enc_digits s * 2147483648 + val s"

definition rem_ok :: "ec_ctx \<Rightarrow> bool" where
  "rem_ok s \<longleftrightarrow> - 1 \<le> rem s \<and> rem s \<le> 255 \<and> 0 \<le> ext s \<and> (rem s = - 1 \<longrightarrow> offs s = 0)"

lemma carry_out_error_mono: "error (ec_enc_carry_out s c) = 0 \<Longrightarrow> error s = 0"
  by (auto simp: ec_enc_carry_out_def Let_def split: if_splits
      dest: ec_put_ext_error_mono ec_put_error_mono)

lemma pow256_mono: "a \<le> b \<Longrightarrow> (256::int) ^ a \<le> 256 ^ b"
  by (simp add: power_increasing)

text \<open>A carry never reaches the bytes already written.\<close>

lemma carry_fits:
  assumes "rem_ok s" "pend_val s + 1 < 256 ^ pend_len s"
  shows "0 \<le> rem s" "rem s < 255"
proof -
  show r: "0 \<le> rem s"
    using assms by (cases "0 \<le> rem s") (auto simp: pend_val_def pend_len_def rem_ok_def)
  have "(rem s + 1) * 256 ^ nat (ext s) < 256 * 256 ^ nat (ext s)"
    using assms r by (simp add: pend_val_def pend_len_def algebra_simps)
  then show "rem s < 255" by simp
qed

lemma carry_out_flush:
  assumes "c \<noteq> 255"
  shows "ec_enc_carry_out s c =
    (ec_put_ext (nat (ext s)) ((255 + c div 256) mod 256)
      (if rem s \<ge> 0 then ec_put s (rem s + c div 256) else s))\<lparr>rem := c mod 256\<rparr>"
  using assms by (auto simp: ec_enc_carry_out_def Let_def drop_bit_eq_div bitarith)

lemma carry_out_digits:
  assumes s: "buf_ok s" "rem_ok s" and c: "0 \<le> c" "c < 512" "ext s + 1 < 4294967296"
    and carry: "256 \<le> c \<Longrightarrow> pend_val s + 1 < 256 ^ pend_len s"
    and err: "error (ec_enc_carry_out s c) = 0"
  defines "t \<equiv> ec_enc_carry_out s c"
  shows "buf_ok t \<and> rem_ok t \<and> raw_list t = raw_list s
    \<and> enc_digits t = enc_digits s * 256 + c \<and> enc_m t = enc_m s + 1
    \<and> (c = 255 \<longrightarrow> pend_len t = Suc (pend_len s) \<and> pend_val t = pend_val s * 256 + 255)
    \<and> (c \<noteq> 255 \<longrightarrow> pend_len t = 1 \<and> pend_val t = c mod 256)"
proof (cases "c = 255")
  case True
  then have t: "t = s\<lparr>ext := ext s + 1\<rparr>"
    using s c by (simp add: t_def ec_enc_carry_out_def rem_ok_def)
  have n: "nat (ext s + 1) = Suc (nat (ext s))" using s by (simp add: rem_ok_def Suc_nat_eq_nat_zadd1)
  have p: "pend_len t = Suc (pend_len s)" "pend_val t = pend_val s * 256 + 255"
    by (simp_all add: t pend_len_def pend_val_def n left_diff_distrib distrib_right)
  have "out_list t = out_list s" "raw_list t = raw_list s" "buf_ok t = buf_ok s"
    by (simp_all add: t out_list_def raw_list_def buf_ok_def)
  then show ?thesis using True s p
    by (simp add: enc_digits_def enc_m_def algebra_simps) (simp add: t rem_ok_def)
next
  case False
  define n where "n = nat (ext s)"
  define x where "x = (255 + c div 256) mod 256"
  define s1 where "s1 = (if rem s \<ge> 0 then ec_put s (rem s + c div 256) else s)"
  define s2 where "s2 = ec_put_ext n x s1"
  have t: "t = s2\<lparr>rem := c mod 256\<rparr>"
    using carry_out_flush [OF False, of s] by (simp add: t_def s2_def s1_def x_def n_def)
  have e2: "error s2 = 0" using err t by (simp flip: t_def)
  then have e1: "error s1 = 0" unfolding s2_def by (rule ec_put_ext_error_mono)
  have car: "c div 256 = 0 \<or> c div 256 = 1 \<and> 0 \<le> rem s \<and> rem s < 255"
    using c carry carry_fits [OF s(2)] by auto
  then have x: "u8 x = x" "0 \<le> x" "x < 256" by (auto simp: x_def)
  have b1: "buf_ok s1 \<and> raw_list s1 = raw_list s \<and>
      out_list s1 = out_list s @ (if rem s \<ge> 0 then [rem s + c div 256] else []) \<and>
      offs s1 = offs s + (if rem s \<ge> 0 then 1 else 0)"
    using ec_put_success [OF s(1), of "rem s + c div 256"] e1 s car
    by (auto simp: s1_def rem_ok_def)
  have b2: "buf_ok s2" "offs s2 = offs s1 + int n" "out_list s2 = out_list s1 @ replicate n x"
    "raw_list s2 = raw_list s1"
    using ec_put_ext_success [of s1 n x] b1 e2 x by (auto simp: s2_def)
  have "ext s1 = ext s" by (simp add: s1_def)
  then have ext: "ext s2 = 0" using s by (auto simp: s2_def ec_put_ext_ext n_def rem_ok_def)
  have r: "0 \<le> c mod 256" "c mod 256 < 256" by simp_all
  have tt: "out_list t = out_list s2" "raw_list t = raw_list s2" "buf_ok t = buf_ok s2"
    "pend_len t = 1" "pend_val t = c mod 256" "offs t = offs s2"
    using ext r by (simp_all add: t out_list_def raw_list_def buf_ok_def pend_len_def pend_val_def)
  have "rem_ok t" using ext by (simp add: t rem_ok_def) presburger
  moreover have "enc_m t = enc_m s + 1"
    using tt b1 b2 s by (auto simp: enc_m_def pend_len_def n_def rem_ok_def)
  moreover have "enc_digits t = enc_digits s * 256 + c"
  proof -
    have "num256 (replicate n x) = (if c div 256 = 0 then 256 ^ n - 1 else 0)"
      using car by (auto simp: x_def num256_replicate_255)
    then have "enc_digits t = (num256 (out_list s1) * 256 ^ n
        + (if c div 256 = 0 then 256 ^ n - 1 else 0)) * 256 + c mod 256"
      using tt b2 by (simp add: enc_digits_def num256_append)
    moreover have "c div 256 = 1 \<Longrightarrow> 256 + c mod 256 = c" "c div 256 = 0 \<Longrightarrow> c mod 256 = c"
      by presburger+
    ultimately show ?thesis using b1 car
      by (auto simp: enc_digits_def pend_len_def pend_val_def num256_append algebra_simps
          simp flip: n_def)
  qed
  ultimately show ?thesis using False tt b1 b2 by simp
qed

section \<open>The encoder invariant\<close>

text \<open>Raw bits written so far: how many, and the number they denote.\<close>

definition raw_bits :: "ec_ctx \<Rightarrow> int" where
  "raw_bits s = 8 * end_offs s + nend_bits s"

definition raw_val :: "ec_ctx \<Rightarrow> int" where
  "raw_val s = num256 (raw_list s) + end_window s * 256 ^ nat (end_offs s)"

definition raw_ok :: "ec_ctx \<Rightarrow> bool" where
  "raw_ok s \<longleftrightarrow> 0 \<le> nend_bits s \<and> nend_bits s \<le> 32 \<and> 0 \<le> end_window s
     \<and> end_window s < 2 ^ nat (nend_bits s)"

definition enc_shape :: "ec_ctx \<Rightarrow> bool" where
  "enc_shape s \<longleftrightarrow> error s = 0 \<and> buf_ok s \<and> rem_ok s \<and> raw_ok s
     \<and> nbits_total s = 33 + 8 * enc_m s + raw_bits s"

text \<open>The top of the interval does not reach the digits already in the buffer.\<close>

definition no_carry :: "ec_ctx \<Rightarrow> bool" where
  "no_carry s \<longleftrightarrow>
     pend_val s * 2147483648 + val s + rng s \<le> 256 ^ pend_len s * 2147483648"

definition enc_core :: "ec_ctx \<Rightarrow> bool" where
  "enc_core s \<longleftrightarrow> enc_shape s \<and> no_carry s \<and> 0 \<le> val s \<and> 0 < rng s \<and> rng s \<le> 2147483648
     \<and> val s + rng s < 4294967296"

definition enc_inv :: "ec_ctx \<Rightarrow> bool" where
  "enc_inv s \<longleftrightarrow> enc_core s \<and> 8388608 < rng s"

text \<open>No write failed, and the bit count fits the C \<open>int\<close> that holds it.\<close>

definition ec_ok :: "ec_ctx \<Rightarrow> bool" where
  "ec_ok s \<longleftrightarrow> error s = 0 \<and> nbits_total s < 2147483648"

lemma ec_enc_init_inv:
  assumes "int (length b) = sz" "sz < 4294967296" "bytes b"
  shows "enc_inv (ec_enc_init b sz)"
  using assms
  by (simp add: enc_inv_def enc_core_def enc_shape_def no_carry_def ec_enc_init_def buf_ok_def
      rem_ok_def raw_ok_def raw_bits_def enc_m_def pend_len_def pend_val_def)

text \<open>Both states have written the same raw bits.\<close>

definition same_raw :: "ec_ctx \<Rightarrow> ec_ctx \<Rightarrow> bool" where
  "same_raw s t \<longleftrightarrow> raw_list t = raw_list s \<and> end_offs t = end_offs s \<and> storage t = storage s
     \<and> end_window t = end_window s \<and> nend_bits t = nend_bits s"

lemma same_raw_refl [simp]: "same_raw s s"
  by (simp add: same_raw_def)

lemma same_raw_trans: "same_raw s t \<Longrightarrow> same_raw t u \<Longrightarrow> same_raw s u"
  by (simp add: same_raw_def)

lemma same_raw_val: "same_raw s t \<Longrightarrow> raw_val t = raw_val s \<and> raw_bits t = raw_bits s"
  by (simp add: same_raw_def raw_val_def raw_bits_def)

text \<open>One round of the renormalisation loop scales the interval by 256.\<close>

definition scaled :: "nat \<Rightarrow> ec_ctx \<Rightarrow> ec_ctx \<Rightarrow> bool" where
  "scaled k s t \<longleftrightarrow> enc_low t = enc_low s * 256 ^ k \<and> rng t = rng s * 256 ^ k
     \<and> enc_m t = enc_m s + int k \<and> same_raw s t"

lemma scaled_0: "scaled 0 s s"
  by (simp add: scaled_def)

lemma scaled_trans: "scaled j s t \<Longrightarrow> scaled k t u \<Longrightarrow> scaled (j + k) s u"
  by (auto simp: scaled_def power_add intro: same_raw_trans)

lemma carry_out_val_digits:
  assumes s: "enc_core s" and ext: "ext s + 1 < 4294967296"
    and err: "error (ec_enc_carry_out s (val s div 8388608)) = 0"
  shows "buf_ok (ec_enc_carry_out s (val s div 8388608))"
    "rem_ok (ec_enc_carry_out s (val s div 8388608))"
    "raw_list (ec_enc_carry_out s (val s div 8388608)) = raw_list s"
    "enc_digits (ec_enc_carry_out s (val s div 8388608)) = enc_digits s * 256 + val s div 8388608"
    "enc_m (ec_enc_carry_out s (val s div 8388608)) = enc_m s + 1"
    "val s div 8388608 = 255 \<Longrightarrow>
      pend_len (ec_enc_carry_out s (val s div 8388608)) = Suc (pend_len s)
      \<and> pend_val (ec_enc_carry_out s (val s div 8388608)) = pend_val s * 256 + 255"
    "val s div 8388608 \<noteq> 255 \<Longrightarrow>
      pend_len (ec_enc_carry_out s (val s div 8388608)) = 1
      \<and> pend_val (ec_enc_carry_out s (val s div 8388608)) = val s div 8388608 mod 256"
proof -
  have c: "0 \<le> val s div 8388608" "val s div 8388608 < 512"
    using s by (auto simp: enc_core_def)
  have "256 \<le> val s div 8388608 \<Longrightarrow> pend_val s + 1 < 256 ^ pend_len s"
    using s by (auto simp: enc_core_def no_carry_def)
  note * = carry_out_digits [OF _ _ c ext this err]
  show "buf_ok (ec_enc_carry_out s (val s div 8388608))"
    "rem_ok (ec_enc_carry_out s (val s div 8388608))"
    "raw_list (ec_enc_carry_out s (val s div 8388608)) = raw_list s"
    "enc_digits (ec_enc_carry_out s (val s div 8388608)) = enc_digits s * 256 + val s div 8388608"
    "enc_m (ec_enc_carry_out s (val s div 8388608)) = enc_m s + 1"
    "val s div 8388608 = 255 \<Longrightarrow>
      pend_len (ec_enc_carry_out s (val s div 8388608)) = Suc (pend_len s)
      \<and> pend_val (ec_enc_carry_out s (val s div 8388608)) = pend_val s * 256 + 255"
    "val s div 8388608 \<noteq> 255 \<Longrightarrow>
      pend_len (ec_enc_carry_out s (val s div 8388608)) = 1
      \<and> pend_val (ec_enc_carry_out s (val s div 8388608)) = val s div 8388608 mod 256"
    using * s by (simp_all add: enc_core_def enc_shape_def)
qed

lemma body_fields:
  assumes "enc_core s" "rng s \<le> 8388608"
  shows "val (ec_enc_normalize_body s) = val s mod 8388608 * 256"
    "rng (ec_enc_normalize_body s) = rng s * 256"
    "nbits_total (ec_enc_normalize_body s) = nbits_total s + 8"
    "error (ec_enc_normalize_body s) = error (ec_enc_carry_out s (val s div 8388608))"
    "same_raw (ec_enc_carry_out s (val s div 8388608)) (ec_enc_normalize_body s)"
    "buf_ok (ec_enc_normalize_body s) = buf_ok (ec_enc_carry_out s (val s div 8388608))"
    "rem_ok (ec_enc_normalize_body s) = rem_ok (ec_enc_carry_out s (val s div 8388608))"
    "enc_digits (ec_enc_normalize_body s) = enc_digits (ec_enc_carry_out s (val s div 8388608))"
    "enc_m (ec_enc_normalize_body s) = enc_m (ec_enc_carry_out s (val s div 8388608))"
    "pend_len (ec_enc_normalize_body s) = pend_len (ec_enc_carry_out s (val s div 8388608))"
    "pend_val (ec_enc_normalize_body s) = pend_val (ec_enc_carry_out s (val s div 8388608))"
proof -
  have "val s * 256 mod 4294967296 mod 2147483648 = val s mod 8388608 * 256"
    using mult_mod_right [of 256 "val s" 8388608]
    by (simp add: mod_mod_cancel mult.commute)
  then show "val (ec_enc_normalize_body s) = val s mod 8388608 * 256"
    by (simp add: ec_enc_normalize_body_def Let_def bitarith push_bit_eq_mult u32_def)
  show "rng (ec_enc_normalize_body s) = rng s * 256"
    using assms by (simp add: ec_enc_normalize_body_def Let_def push_bit_eq_mult enc_core_def)
qed (simp_all add: ec_enc_normalize_body_def Let_def drop_bit_eq_div same_raw_def buf_ok_def
    rem_ok_def enc_digits_def enc_m_def pend_len_def pend_val_def out_list_def raw_list_def)

text \<open>The top of the interval stays clear of the written digits.\<close>

lemma no_carry_step:
  fixes v r p :: int
  assumes v: "0 \<le> v" "v + r < 4294967296" "0 < r" "r \<le> 8388608"
    and nc: "p * 2147483648 + v + r \<le> P * 2147483648"
  shows "v div 8388608 = 255 \<Longrightarrow>
      (p * 256 + 255) * 2147483648 + v mod 8388608 * 256 + r * 256 \<le> (P * 256) * 2147483648"
    "v div 8388608 \<noteq> 255 \<Longrightarrow>
      v div 8388608 mod 256 * 2147483648 + v mod 8388608 * 256 + r * 256 \<le> 256 * 2147483648"
proof -
  define q m where "q = v div 8388608" and "m = v mod 8388608"
  have d: "v = q * 8388608 + m" "m < 8388608" by (simp_all add: q_def m_def)
  have q: "0 \<le> q" "q < 512" using v by (auto simp: q_def)
  show "(p * 256 + 255) * 2147483648 + v mod 8388608 * 256 + r * 256 \<le> (P * 256) * 2147483648"
    if "v div 8388608 = 255"
    using nc d that unfolding q_def [symmetric] m_def [symmetric] by (simp add: distrib_right)
  have "q < 255 \<and> q mod 256 = q \<or> q = 255 \<or> 256 \<le> q \<and> q mod 256 = q - 256"
    using q by presburger
  then show "v div 8388608 mod 256 * 2147483648 + v mod 8388608 * 256 + r * 256
      \<le> 256 * 2147483648" if "v div 8388608 \<noteq> 255"
    using v d that unfolding q_def [symmetric] m_def [symmetric] by linarith
qed

lemma normalize_body_core:
  assumes s: "enc_core s" "rng s \<le> 8388608" and ok: "ec_ok (ec_enc_normalize_body s)"
  shows "enc_core (ec_enc_normalize_body s)" "scaled 1 s (ec_enc_normalize_body s)"
proof -
  note B = body_fields [OF s]
  have "ext s \<le> enc_m s" "0 \<le> raw_bits s"
    using s by (auto simp: enc_core_def enc_shape_def enc_m_def pend_len_def rem_ok_def buf_ok_def
        raw_bits_def raw_ok_def)
  then have ext: "ext s + 1 < 4294967296"
    using s ok B(3) by (simp add: ec_ok_def enc_core_def enc_shape_def)
  have err: "error (ec_enc_carry_out s (val s div 8388608)) = 0" using ok B(4) by (simp add: ec_ok_def)
  note C = carry_out_val_digits [OF s(1) ext err]
  let ?t = "ec_enc_normalize_body s"
  have raw: "same_raw s ?t" using B(5) C(3) by (simp add: same_raw_def)
  have "val s div 8388608 * 2147483648 + val s mod 8388608 * 256 = val s * 256"
    using div_mult_mod_eq [of "val s" 8388608] by linarith
  then have "enc_low ?t = enc_low s * 256"
    using B(1,8) C(4) by (simp add: enc_low_def distrib_right)
  then show "scaled 1 s ?t" using B C(5) raw by (simp add: scaled_def)
  have "enc_shape ?t"
    using s ok raw B(3,6,7,9) C(1,2,5) same_raw_val [OF raw]
    by (simp add: enc_shape_def enc_core_def ec_ok_def raw_ok_def same_raw_def)
  moreover have "no_carry ?t"
    using no_carry_step [of "val s" "rng s" "pend_val s" "256 ^ pend_len s"] s B(1,2,10,11) C(6,7)
    by (cases "val s div 8388608 = 255")
      (simp_all add: no_carry_def enc_core_def algebra_simps)
  moreover have "val s mod 8388608 < 8388608" by simp
  ultimately show "enc_core ?t" using s B(1,2) by (simp add: enc_core_def)
qed

lemma normalize_body_mono:
  "error (ec_enc_normalize_body s) = 0 \<Longrightarrow> error s = 0"
  "nbits_total s \<le> nbits_total (ec_enc_normalize_body s)"
  using carry_out_error_mono by (auto simp: ec_enc_normalize_body_def Let_def)

lemma normalize_mono:
  "(error (ec_enc_normalize s) = 0 \<longrightarrow> error s = 0) \<and> nbits_total s \<le> nbits_total (ec_enc_normalize s)"
proof (induction s rule: ec_enc_normalize.induct)
  case (1 s)
  then show ?case
    using normalize_body_mono [of s] by (auto simp: ec_enc_normalize.simps [of s])
qed

lemma ec_ok_normalize: "ec_ok (ec_enc_normalize s) \<Longrightarrow> ec_ok s"
  using normalize_mono [of s] by (auto simp: ec_ok_def)

lemma normalize_core:
  assumes "enc_core s" "ec_ok (ec_enc_normalize s)"
  shows "enc_inv (ec_enc_normalize s) \<and> (\<exists>k. scaled k s (ec_enc_normalize s))"
  using assms
proof (induction s rule: ec_enc_normalize.induct)
  case (1 s)
  show ?case
  proof (cases "rng s \<le> 8388608")
    case True
    let ?b = "ec_enc_normalize_body s"
    have eq: "ec_enc_normalize s = ec_enc_normalize ?b"
      using True 1(2) by (simp add: ec_enc_normalize.simps [of s] enc_core_def)
    then have "ec_ok ?b" using 1(3) ec_ok_normalize by simp
    note b = normalize_body_core [OF 1(2) True this]
    have "enc_inv (ec_enc_normalize ?b) \<and> (\<exists>k. scaled k ?b (ec_enc_normalize ?b))"
      using 1 True b eq by (simp add: enc_core_def [of s])
    then show ?thesis using b scaled_trans eq by metis
  next
    case False
    then have "ec_enc_normalize s = s" by (simp add: ec_enc_normalize.simps [of s])
    then show ?thesis using 1(2) False scaled_0 by (auto simp: enc_inv_def)
  qed
qed

section \<open>Raw bits\<close>

text \<open>The two states differ only in how the raw bits are split between buffer and window.\<close>

definition raw_moved :: "ec_ctx \<Rightarrow> ec_ctx \<Rightarrow> bool" where
  "raw_moved s t \<longleftrightarrow> buf_ok t \<and> out_list t = out_list s \<and> offs t = offs s \<and> val t = val s
     \<and> rng t = rng s \<and> rem t = rem s \<and> ext t = ext s \<and> nbits_total t = nbits_total s
     \<and> error s = 0 \<and> raw_val t = raw_val s \<and> raw_bits t = raw_bits s \<and> storage t = storage s"

lemma raw_moved_trans: "raw_moved s t \<Longrightarrow> raw_moved t u \<Longrightarrow> raw_moved s u"
  by (simp add: raw_moved_def)

lemma raw_moved_range:
  assumes "raw_moved s t"
  shows "enc_digits t = enc_digits s" "enc_m t = enc_m s" "enc_low t = enc_low s"
    "pend_len t = pend_len s" "pend_val t = pend_val s" "rem_ok t = rem_ok s"
  using assms by (simp_all add: raw_moved_def enc_digits_def enc_m_def enc_low_def pend_len_def
      pend_val_def rem_ok_def)

lemma ec_put_end_success:
  assumes "buf_ok s" "error (ec_put_end s v) = 0"
  shows "error s = 0" "buf_ok (ec_put_end s v)" "end_offs (ec_put_end s v) = end_offs s + 1"
    "raw_list (ec_put_end s v) = u8 v # raw_list s" "out_list (ec_put_end s v) = out_list s"
proof -
  have fit: "offs s + end_offs s < storage s"
    using assms by (auto simp: ec_put_end_def ec_write_byte_at_end_def Let_def buf_ok_def
        split: if_splits)
  then have eq: "ec_put_end s v =
      s\<lparr>end_offs := end_offs s + 1, buf := (buf s)[nat (storage s - (end_offs s + 1)) := u8 v]\<rparr>"
    using assms(1) by (auto simp: ec_put_end_def ec_write_byte_at_end_def Let_def buf_ok_def)
  show "error s = 0" using assms(2) by (simp add: eq)
  show "end_offs (ec_put_end s v) = end_offs s + 1" by (simp add: eq)
  show "buf_ok (ec_put_end s v)" using assms(1) fit by (simp add: eq buf_ok_def)
  let ?i = "nat (storage s - (end_offs s + 1))"
  have i: "?i < length (buf s)" "nat (storage s - end_offs s) = Suc ?i" "nat (offs s) \<le> ?i"
    using assms(1) fit by (auto simp: buf_ok_def)
  show "raw_list (ec_put_end s v) = u8 v # raw_list s"
    using i by (simp add: eq raw_list_def drop_update_swap flip: Cons_nth_drop_Suc)
  show "out_list (ec_put_end s v) = out_list s"
    using i by (simp add: eq out_list_def)
qed

lemma ec_put_end_frame [simp]:
  "rng (ec_put_end s v) = rng s" "val (ec_put_end s v) = val s" "rem (ec_put_end s v) = rem s"
  "ext (ec_put_end s v) = ext s" "nbits_total (ec_put_end s v) = nbits_total s"
  "storage (ec_put_end s v) = storage s" "offs (ec_put_end s v) = offs s"
  "end_window (ec_put_end s v) = end_window s" "nend_bits (ec_put_end s v) = nend_bits s"
  by (simp_all add: ec_put_end_def ec_write_byte_at_end_def Let_def)

lemma length_raw_list: "buf_ok s \<Longrightarrow> length (raw_list s) = nat (end_offs s)"
  by (auto simp: buf_ok_def raw_list_def)

text \<open>A loop state \<open>(s, window, used)\<close> as an encoder state.\<close>

definition win_state :: "ec_ctx \<times> int \<times> int \<Rightarrow> ec_ctx" where
  "win_state = (\<lambda>(s, window, used). s\<lparr>end_window := window, nend_bits := used\<rparr>)"

definition win_ok :: "ec_ctx \<times> int \<times> int \<Rightarrow> bool" where
  "win_ok = (\<lambda>(s, window, used). 0 \<le> window \<and> window < 2 ^ nat used \<and> 0 \<le> used)"

lemma flush_byte_moved:
  assumes "buf_ok s" "win_ok (s, w, u)" "8 \<le> u" "error (win_state (ec_flush_byte (s, w, u))) = 0"
  shows "raw_moved (win_state (s, w, u)) (win_state (ec_flush_byte (s, w, u)))"
    "win_ok (ec_flush_byte (s, w, u))"
proof -
  let ?p = "ec_put_end s (w mod 256)"
  have f: "ec_flush_byte (s, w, u) = (?p, w div 256, u - 8)"
    by (simp add: ec_flush_byte_def bitarith drop_bit_eq_div)
  have e: "error ?p = 0" using assms(4) by (simp add: f win_state_def)
  note P = ec_put_end_success [OF assms(1) e]
  have n: "nat (end_offs s + 1) = Suc (nat (end_offs s))" "nat u = 8 + nat (u - 8)"
    using assms by (auto simp: buf_ok_def)
  have "w mod 256 * 256 ^ nat (end_offs s) + w div 256 * (256 * 256 ^ nat (end_offs s))
      = w * 256 ^ nat (end_offs s)"
    by (simp add: distrib_right [symmetric] mult.assoc [symmetric] add.commute)
  then show "raw_moved (win_state (s, w, u)) (win_state (ec_flush_byte (s, w, u)))"
    using assms(1) P n(1) length_raw_list [OF assms(1)]
    by (simp add: raw_moved_def win_state_def f raw_val_def raw_bits_def raw_list_def
        out_list_def buf_ok_def)
  have "w < 256 * 2 ^ nat (u - 8)" using assms(2) n(2) by (simp add: win_ok_def power_add)
  then show "win_ok (ec_flush_byte (s, w, u))"
    using assms by (auto simp: win_ok_def f int_div_less_iff mult.commute)
qed

lemma flush_byte_mono:
  "error (win_state (ec_flush_byte x)) = 0 \<Longrightarrow> error (win_state x) = 0"
  by (cases x) (auto simp: win_state_def ec_flush_byte_def ec_put_end_def ec_write_byte_at_end_def
      Let_def split: if_splits)

lemma flush_window_mono:
  "error (win_state (ec_flush_window x)) = 0 \<Longrightarrow> error (win_state x) = 0"
proof (induction x rule: ec_flush_window.induct)
  case (1 s w u)
  then show ?case
    using flush_byte_mono by (auto simp: ec_flush_window.simps [of s w u] split: if_splits)
qed

lemma buf_ok_win_state: "buf_ok (win_state x) = buf_ok (fst x)"
  by (cases x) (simp add: win_state_def buf_ok_def)

lemma flush_window_moved:
  assumes "buf_ok (win_state x)" "win_ok x" "error (win_state (ec_flush_window x)) = 0"
  shows "raw_moved (win_state x) (win_state (ec_flush_window x))"
    "win_ok (ec_flush_window x)" "snd (snd (ec_flush_window x)) < 8"
proof -
  have "raw_moved (win_state x) (win_state (ec_flush_window x)) \<and> win_ok (ec_flush_window x)
      \<and> snd (snd (ec_flush_window x)) < 8"
    using assms
  proof (induction x rule: ec_flush_window.induct)
    case (1 s w u)
    show ?case
    proof (cases "8 \<le> u")
      case True
      let ?b = "ec_flush_byte (s, w, u)"
      have eq: "ec_flush_window (s, w, u) = ec_flush_window ?b"
        using True by (simp add: ec_flush_window.simps [of s w u])
      have "error (win_state ?b) = 0" using 1(4) eq flush_window_mono by simp
      note B = flush_byte_moved [OF _ 1(3) True this]
      have b: "buf_ok s" using 1(2) by (simp add: buf_ok_win_state)
      have "buf_ok (win_state ?b)" using B(1) [OF b] by (simp add: raw_moved_def)
      then show ?thesis using 1(1) [OF True] B [OF b] 1(4) eq raw_moved_trans by auto
    next
      case False
      then have "ec_flush_window (s, w, u) = (s, w, u)" by (simp add: ec_flush_window.simps [of s w u])
      then show ?thesis using False 1 by (simp add: raw_moved_def)
    qed
  qed
  then show "raw_moved (win_state x) (win_state (ec_flush_window x))"
    "win_ok (ec_flush_window x)" "snd (snd (ec_flush_window x)) < 8" by simp_all
qed

text \<open>The window an operation of \<open>ec_enc_bits\<close> ors its bits into.\<close>

definition bits_window :: "int \<Rightarrow> ec_ctx \<Rightarrow> ec_ctx \<times> int \<times> int" where
  "bits_window bits s =
    (if nend_bits s + bits > 32 then ec_flush_window (ec_flush_byte (s, end_window s, nend_bits s))
     else (s, end_window s, nend_bits s))"

lemma ec_enc_bits_window:
  "ec_enc_bits fl bits s =
    (let (s, window, used) = bits_window bits s
     in s\<lparr>end_window := window OR u32 (push_bit (nat used) fl), nend_bits := used + bits,
          nbits_total := nbits_total s + bits\<rparr>)"
  by (simp add: ec_enc_bits_def bits_window_def Let_def)

lemma win_state_id: "win_state (s, end_window s, nend_bits s) = s"
  by (simp add: win_state_def)

lemma bits_window_moved:
  assumes "enc_shape s" "0 \<le> bits" "bits \<le> 25" "error (win_state (bits_window bits s)) = 0"
  shows "raw_moved s (win_state (bits_window bits s)) \<and> win_ok (bits_window bits s)
    \<and> snd (snd (bits_window bits s)) + bits \<le> 32"
proof (cases "nend_bits s + bits > 32")
  case True
  let ?x = "(s, end_window s, nend_bits s)"
  let ?b = "ec_flush_byte ?x"
  have eq: "bits_window bits s = ec_flush_window ?b" using True by (simp add: bits_window_def)
  have ok: "buf_ok s" "win_ok ?x" "8 \<le> nend_bits s"
    using assms True by (auto simp: enc_shape_def raw_ok_def win_ok_def)
  have "error (win_state ?b) = 0" using assms(4) eq flush_window_mono by simp
  note b = flush_byte_moved [OF ok this, unfolded win_state_id]
  have "buf_ok (win_state ?b)" using b(1) by (simp add: raw_moved_def)
  note w = flush_window_moved [OF this b(2) assms(4) [unfolded eq]]
  show ?thesis using w b(1) raw_moved_trans eq assms(3) by auto
next
  case False
  then have "bits_window bits s = (s, end_window s, nend_bits s)" by (simp add: bits_window_def)
  then show ?thesis using False assms
    by (auto simp: win_state_id raw_moved_def enc_shape_def win_ok_def raw_ok_def)
qed

lemma or_shifted_bits:
  fixes w fl :: int
  assumes "0 \<le> w" "w < 2 ^ n" "0 \<le> fl" "fl < 2 ^ b" "n + b \<le> 32"
  shows "w OR u32 (push_bit n fl) = w + fl * 2 ^ n" "w + fl * 2 ^ n < 2 ^ (n + b)"
proof -
  have "fl * 2 ^ n + 2 ^ n \<le> 2 ^ b * 2 ^ n"
    using assms(4) mult_right_mono [of "fl + 1" "2 ^ b" "2 ^ n"] by (simp add: distrib_right)
  then show lt: "w + fl * 2 ^ n < 2 ^ (n + b)" using assms by (simp add: power_add mult.commute)
  have "(2::int) ^ (n + b) \<le> 2 ^ 32" using assms(5) by (intro power_increasing) auto
  then have "u32 (push_bit n fl) = fl * 2 ^ n" using lt assms by (simp add: push_bit_eq_mult)
  then show "w OR u32 (push_bit n fl) = w + fl * 2 ^ n"
    using or_disjoint_add [of w n fl] assms by (simp add: or.commute)
qed

lemma raw_val_window:
  assumes "buf_ok s" "0 \<le> nend_bits s"
  shows "raw_val (s\<lparr>end_window := end_window s + fl * 2 ^ nat (nend_bits s), nend_bits := n,
    nbits_total := k\<rparr>) = raw_val s + fl * 2 ^ nat (raw_bits s)"
proof -
  have "nat (raw_bits s) = 8 * nat (end_offs s) + nat (nend_bits s)"
    using assms by (simp add: raw_bits_def buf_ok_def nat_add_distrib nat_mult_distrib)
  then have "(2::int) ^ nat (raw_bits s) = 256 ^ nat (end_offs s) * 2 ^ nat (nend_bits s)"
    by (simp add: power_add power_mult)
  then show ?thesis by (simp add: raw_val_def raw_list_def algebra_simps)
qed

lemma ec_enc_bits_ok: "ec_ok (ec_enc_bits fl bits s) \<Longrightarrow> 0 \<le> bits \<Longrightarrow> enc_shape s \<Longrightarrow> bits \<le> 25 \<Longrightarrow> ec_ok s"
  using bits_window_moved [of s bits]
  by (cases "bits_window bits s")
    (auto simp: ec_enc_bits_window ec_ok_def win_state_def raw_moved_def)

lemma ec_enc_bits_inv:
  assumes s: "enc_inv s" and b: "0 \<le> bits" "bits \<le> 25" "0 \<le> fl" "fl < 2 ^ nat bits"
    and ok: "ec_ok (ec_enc_bits fl bits s)"
  defines "t \<equiv> ec_enc_bits fl bits s"
  shows "enc_inv t" "enc_low t = enc_low s" "rng t = rng s" "enc_m t = enc_m s"
    "raw_bits t = raw_bits s + bits" "raw_val t = raw_val s + fl * 2 ^ nat (raw_bits s)"
    "nbits_total t = nbits_total s + bits" "storage t = storage s"
proof -
  obtain s1 w u where x: "bits_window bits s = (s1, w, u)" by (cases "bits_window bits s")
  define s2 where "s2 = win_state (s1, w, u)"
  have t: "t = s2\<lparr>end_window := w OR u32 (push_bit (nat u) fl), nend_bits := u + bits,
      nbits_total := nbits_total s2 + bits\<rparr>"
    by (simp add: t_def ec_enc_bits_window x s2_def win_state_def)
  have "error (win_state (bits_window bits s)) = 0"
    using ok x by (simp add: ec_enc_bits_window win_state_def ec_ok_def)
  then have mv: "raw_moved s s2" "0 \<le> w" "w < 2 ^ nat u" "0 \<le> u" "u + bits \<le> 32"
    using bits_window_moved [of s bits] s b
    by (auto simp: x s2_def win_ok_def enc_inv_def enc_core_def)
  have w: "end_window s2 = w" "nend_bits s2 = u" by (simp_all add: s2_def win_state_def)
  note or = or_shifted_bits [OF mv(2,3) b(3,4)]
  have n: "nat u + nat bits = nat (u + bits)" using mv b by simp
  have t': "t = s2\<lparr>end_window := end_window s2 + fl * 2 ^ nat (nend_bits s2), nend_bits := u + bits,
      nbits_total := nbits_total s2 + bits\<rparr>"
    using or(1) mv(5) n by (simp add: t w)
  have "buf_ok s2" using mv(1) by (simp add: raw_moved_def)
  then show rv: "raw_val t = raw_val s + fl * 2 ^ nat (raw_bits s)"
    using raw_val_window [of s2] mv w by (simp add: t' raw_moved_def)
  show rb: "raw_bits t = raw_bits s + bits"
    using mv w by (simp add: t raw_moved_def raw_bits_def)
  have f: "rng t = rng s2" "val t = val s2" "pend_len t = pend_len s2" "pend_val t = pend_val s2"
    "enc_digits t = enc_digits s2" "enc_m t = enc_m s2" "rem_ok t = rem_ok s2"
    "buf_ok t = buf_ok s2" "nbits_total t = nbits_total s2 + bits" "enc_low t = enc_low s2"
    "storage t = storage s2"
    by (simp_all add: t pend_len_def pend_val_def enc_digits_def enc_m_def rem_ok_def buf_ok_def
        out_list_def enc_low_def)
  note m = raw_moved_range [OF mv(1)]
  show "enc_low t = enc_low s" "rng t = rng s" "enc_m t = enc_m s"
    "nbits_total t = nbits_total s + bits" "storage t = storage s"
    using f m mv(1) by (simp_all add: raw_moved_def)
  have "raw_ok t"
    using mv or n b w by (simp add: raw_ok_def t')
  then have "enc_shape t"
    using s mv(1) f m rb ok by (simp add: enc_shape_def enc_inv_def enc_core_def raw_moved_def
        t_def ec_ok_def)
  then show "enc_inv t"
    using s mv(1) f m by (simp add: enc_inv_def enc_core_def no_carry_def raw_moved_def)
qed

section \<open>Finishing the stream\<close>

lemma and_not_mask: "(x::int) AND NOT (2 ^ n - 1) = x div 2 ^ n * 2 ^ n"
proof -
  have "x AND NOT (mask n) = push_bit n (drop_bit n x)"
    by (auto simp: bit_eq_iff bit_and_iff bit_not_iff bit_mask_iff bit_push_bit_iff bit_drop_bit_eq)
  then show ?thesis by (simp add: mask_eq_exp_minus_1 push_bit_eq_mult drop_bit_eq_div)
qed

lemma round_up_bounds:
  fixes v p :: int
  assumes "0 < p"
  shows "v \<le> (v + (p - 1)) div p * p" "(v + (p - 1)) div p * p \<le> v + (p - 1)"
proof -
  have "(v + (p - 1)) div p * p = v + (p - 1) - (v + (p - 1)) mod p"
    by (simp add: minus_mod_eq_div_mult)
  moreover have "0 \<le> (v + (p - 1)) mod p" "(v + (p - 1)) mod p < p" using assms by simp_all
  ultimately show "v \<le> (v + (p - 1)) div p * p" "(v + (p - 1)) div p * p \<le> v + (p - 1)"
    by linarith+
qed

lemma top_mask: "nat l \<le> 31 \<Longrightarrow> drop_bit (nat l) (2147483647::int) = 2 ^ (31 - nat l) - 1"
proof -
  assume l: "nat l \<le> 31"
  define n p where "n = 31 - nat l" and "p = (2::int) ^ nat l"
  have "(2::int) ^ 31 = 2 ^ n * p" using l by (simp add: n_def p_def flip: power_add)
  then have "(2147483647::int) = (2 ^ n - 1) * p + (p - 1)" by (simp add: algebra_simps)
  moreover have "0 < p" by (simp add: p_def)
  moreover have "((2 ^ n - 1) * p + (p - 1)) div p = 2 ^ n - 1" using \<open>0 < p\<close> by simp
  ultimately have "2147483647 div p = 2 ^ n - 1" by (simp only:)
  then show ?thesis by (simp add: drop_bit_eq_div n_def p_def)
qed

text \<open>
  The final value \<open>e\<close>: a multiple of \<open>2\<^bsup>31-l\<^esup>\<close> such that every number with the same leading
  bits lies in the interval.
\<close>

definition end_ok :: "ec_ctx \<Rightarrow> int \<Rightarrow> int \<Rightarrow> bool" where
  "end_ok s e l \<longleftrightarrow> 0 \<le> l \<and> l \<le> 9 \<and> val s \<le> e \<and> e + 2 ^ (31 - nat l) \<le> val s + rng s
     \<and> 2 ^ (31 - nat l) dvd e \<and> (l = 0 \<longrightarrow> e = 0)"

lemma ec_enc_done_end_ok:
  assumes "enc_inv s"
  shows "end_ok s (fst (ec_enc_done_end s)) (snd (ec_enc_done_end s))"
proof -
  have v: "0 \<le> val s" "8388608 < rng s" "rng s \<le> 2147483648" "val s + rng s < 4294967296"
    using assms by (auto simp: enc_inv_def enc_core_def)
  define L where "L = ec_ilog (rng s)"
  have L: "2 ^ nat (L - 1) \<le> rng s" "rng s < 2 ^ nat L" "1 \<le> L" "L \<le> 32"
    using ec_ilog_bounds [of "rng s"] v by (auto simp: L_def)
  have "(2::int) ^ 23 < 2 ^ nat L" using L v by simp
  then have L23: "23 < nat L" by (simp only: power_strict_increasing_iff)
  define l n where "l = 32 - L" and "n = 31 - nat l"
  have n: "nat (L - 1) = n" "0 \<le> l" "l \<le> 8" "22 < n" "n \<le> 31" "31 - nat (l + 1) = n - 1"
    "31 - nat l = n" "(2::int) ^ n = 2 * 2 ^ (n - 1)" "l = 0 \<longrightarrow> n = 31"
    using L L23 by (auto simp: l_def n_def simp flip: power_Suc)
  have m: "drop_bit (nat l) 2147483647 = (2::int) ^ n - 1" using top_mask [of l] n by simp
  have m': "drop_bit 1 ((2::int) ^ n - 1) = 2 ^ (n - 1) - 1"
    using n(8) by (simp add: drop_bit_eq_div)
  define e e' where "e = (val s + (2 ^ n - 1)) div 2 ^ n * 2 ^ n"
    and "e' = (val s + (2 ^ (n - 1) - 1)) div 2 ^ (n - 1) * 2 ^ (n - 1)"
  have d: "2 ^ n dvd e" "2 ^ (n - 1) dvd e'" by (simp_all add: e_def e'_def)
  have p: "(0::int) < 2 ^ (n - 1)" "2 ^ n \<le> rng s" using L(1) n(1) by simp_all
  have b: "val s \<le> e" "e \<le> val s + (2 ^ n - 1)" "val s \<le> e'" "e' \<le> val s + (2 ^ (n - 1) - 1)"
    using round_up_bounds [of "2 ^ n" "val s"] round_up_bounds [of "2 ^ (n - 1)" "val s"]
    by (simp_all add: e_def e'_def)
  have w: "u32 (val s + (2 ^ n - 1)) = val s + (2 ^ n - 1)"
    "u32 (val s + (2 ^ (n - 1) - 1)) = val s + (2 ^ (n - 1) - 1)" "u32 (val s + rng s) = val s + rng s"
    by (rule u32_id; use v p n(8) in linarith)+
  have or: "e OR (2 ^ n - 1) = e + (2 ^ n - 1)"
    using or_disjoint_add [of "2 ^ n - 1" n "(val s + (2 ^ n - 1)) div 2 ^ n"] by (simp add: e_def)
  have "ec_enc_done_end s = (if e + (2 ^ n - 1) \<ge> val s + rng s then (e', l + 1) else (e, l))"
    unfolding ec_enc_done_end_def Let_def L_def [symmetric] l_def [symmetric] EC_CODE_TOP_val
    by (simp only: m m' w and_not_mask e_def [symmetric] e'_def [symmetric] or
        diff_numeral_special arith_simps)
  moreover have "end_ok s e' (l + 1)"
    unfolding end_ok_def n(6) using b(3,4) p n(2,3,8) d(2) by auto
  moreover have "end_ok s e l" if lt: "\<not> e + (2 ^ n - 1) \<ge> val s + rng s"
  proof -
    have "e = 0" if "l = 0"
    proof -
      have e: "2 ^ n = (2147483648::int)" using that n(9) by simp
      then have "e < 2147483648" "0 \<le> e" using v p lt b by linarith+
      then show ?thesis using d(1) e by (auto simp: zdvd_not_zless)
    qed
    then show ?thesis unfolding end_ok_def n(7) using lt b(1) n(2,3) d(1) by auto
  qed
  ultimately show ?thesis by simp
qed

lemma carry_out_ext: "0 \<le> ext s \<Longrightarrow> ext s + 1 < 4294967296 \<Longrightarrow> ext (ec_enc_carry_out s c) \<le> ext s + 1"
  by (auto simp: ec_enc_carry_out_def Let_def ec_put_ext_ext)

lemma done_iter:
  assumes s: "buf_ok s" "rem_ok s" and e: "0 \<le> e" "e < 4294967296" "ext s + 1 < 4294967296"
    and c: "2147483648 \<le> e \<Longrightarrow> pend_val s + 1 < 256 ^ pend_len s"
    and err: "error (ec_enc_carry_out s (e div 8388608)) = 0"
  defines "t \<equiv> ec_enc_carry_out s (e div 8388608)"
  shows "buf_ok t" "rem_ok t" "raw_list t = raw_list s" "enc_m t = enc_m s + 1"
    "enc_digits t * 2147483648 + e mod 8388608 * 256 = (enc_digits s * 2147483648 + e) * 256"
    "ext t \<le> ext s + 1"
proof -
  have b: "0 \<le> e div 8388608" "e div 8388608 < 512" using e by auto
  have "256 \<le> e div 8388608 \<Longrightarrow> pend_val s + 1 < 256 ^ pend_len s" using c by simp
  note D = carry_out_digits [OF s b e(3) this err, folded t_def]
  then show "buf_ok t" "rem_ok t" "raw_list t = raw_list s" "enc_m t = enc_m s + 1" by simp_all
  have "e div 8388608 * 2147483648 + e mod 8388608 * 256 = e * 256"
    using div_mult_mod_eq [of e 8388608] by linarith
  moreover have "enc_digits t = enc_digits s * 256 + e div 8388608" using D by simp
  ultimately show "enc_digits t * 2147483648 + e mod 8388608 * 256 = (enc_digits s * 2147483648 + e) * 256"
    by (simp add: distrib_right)
  show "ext t \<le> ext s + 1" using s e(3) by (simp add: t_def carry_out_ext rem_ok_def)
qed

lemma done_loop_step:
  "l \<le> 0 \<Longrightarrow> ec_enc_done_loop s e l = (s, l)"
  "0 < l \<Longrightarrow> ec_enc_done_loop s e l =
    ec_enc_done_loop (ec_enc_carry_out s (e div 8388608)) (e mod 8388608 * 256) (l - 8)"
proof -
  have "e * 256 mod 4294967296 mod 2147483648 = e mod 8388608 * 256"
    using mult_mod_right [of 256 e 8388608] by (simp add: mod_mod_cancel mult.commute)
  then show "0 < l \<Longrightarrow> ec_enc_done_loop s e l =
    ec_enc_done_loop (ec_enc_carry_out s (e div 8388608)) (e mod 8388608 * 256) (l - 8)"
    by (simp add: ec_enc_done_loop.simps [of s e l] bitarith push_bit_eq_mult u32_def drop_bit_eq_div)
qed (simp add: ec_enc_done_loop.simps)

lemma done_loop_frame:
  "storage (fst (ec_enc_done_loop s e l)) = storage s
   \<and> end_offs (fst (ec_enc_done_loop s e l)) = end_offs s
   \<and> end_window (fst (ec_enc_done_loop s e l)) = end_window s
   \<and> nend_bits (fst (ec_enc_done_loop s e l)) = nend_bits s
   \<and> (error (fst (ec_enc_done_loop s e l)) = 0 \<longrightarrow> error s = 0)"
  by (induction s e l rule: ec_enc_done_loop.induct)
    (subst (1 2 3 4 5) ec_enc_done_loop.simps, use carry_out_error_mono in auto)

text \<open>After the loop the buffered digits denote \<open>e\<close>, with \<open>- l'\<close> spare bits.\<close>

definition done_state :: "ec_ctx \<Rightarrow> int \<Rightarrow> int \<Rightarrow> nat \<Rightarrow> ec_ctx \<Rightarrow> bool" where
  "done_state s e l k t \<longleftrightarrow> buf_ok t \<and> rem_ok t \<and> raw_list t = raw_list s
     \<and> enc_m t = enc_m s + int k \<and> ext t \<le> ext s + int k
     \<and> enc_digits t * 2147483648 = (enc_digits s * 2147483648 + e) * 256 ^ k
     \<and> l \<le> 8 * int k \<and> 8 * int k < l + 8"

lemma dvd_div_pow:
  fixes e :: int
  assumes "2 ^ (31 - nat l) dvd e" "0 \<le> l"
  shows "l \<le> 8 \<Longrightarrow> e mod 8388608 = 0" "l = 9 \<Longrightarrow> e mod 8388608 * 256 mod 8388608 = 0"
proof -
  show "l \<le> 8 \<Longrightarrow> e mod 8388608 = 0"
  proof -
    assume "l \<le> 8"
    then have "(2::int) ^ 23 dvd 2 ^ (31 - nat l)" by (intro le_imp_power_dvd) auto
    then show ?thesis using assms dvd_trans by fastforce
  qed
  show "l = 9 \<Longrightarrow> e mod 8388608 * 256 mod 8388608 = 0"
  proof -
    assume "l = 9"
    then have "4194304 dvd e mod 8388608" using assms by (simp add: dvd_mod)
    then obtain q where "e mod 8388608 = 4194304 * q" by (rule dvdE)
    then show ?thesis by simp
  qed
qed

lemma done_loop_state:
  assumes s: "enc_inv s" "ec_ok s" and e: "end_ok s e l"
    and err: "error (fst (ec_enc_done_loop s e l)) = 0"
  shows "\<exists>k. done_state s e l k (fst (ec_enc_done_loop s e l))
    \<and> snd (ec_enc_done_loop s e l) = l - 8 * int k"
proof -
  have r: "0 \<le> raw_bits s" "ext s \<le> enc_m s" "buf_ok s" "rem_ok s"
    using s by (auto simp: enc_inv_def enc_core_def enc_shape_def raw_bits_def buf_ok_def raw_ok_def
        enc_m_def pend_len_def rem_ok_def)
  then have ext: "ext s + 1 < 4294967295"
    using s by (simp add: ec_ok_def enc_inv_def enc_core_def enc_shape_def)
  then have ext': "ext s + 1 < 4294967296" by simp
  have E: "0 \<le> e" "e < 4294967296"
    using s e zero_le_power [of "2::int" "31 - nat l"]
    by (auto simp: enc_inv_def enc_core_def end_ok_def simp del: zero_le_power)
  have "(0::int) < 2 ^ (31 - nat l)" by simp
  then have nc: "2147483648 \<le> e \<Longrightarrow> pend_val s + 1 < 256 ^ pend_len s"
    using s(1) e unfolding enc_inv_def enc_core_def no_carry_def end_ok_def by linarith
  define t where "t = ec_enc_carry_out s (e div 8388608)"
  consider "l = 0" | "1 \<le> l" "l \<le> 8" | "l = 9" using e by (force simp: end_ok_def)
  then show ?thesis
  proof cases
    case 1
    then have "done_state s e l 0 s" "ec_enc_done_loop s e l = (s, l)"
      using r e by (auto simp: done_state_def end_ok_def done_loop_step)
    then show ?thesis by auto
  next
    case 2
    then have "ec_enc_done_loop s e l = (t, l - 8)"
      by (simp add: done_loop_step t_def)
    moreover from this err have "error t = 0" by simp
    note i = done_iter [OF r(3,4) E ext' nc this [unfolded t_def], folded t_def]
    have "done_state s e l 1 t"
      using i ext 2 dvd_div_pow [of l e] e by (simp add: done_state_def end_ok_def)
    ultimately show ?thesis by auto
  next
    case 3
    define e' where "e' = e mod 8388608 * 256"
    define u where "u = ec_enc_carry_out t (e' div 8388608)"
    have eq: "ec_enc_done_loop s e l = (u, l - 16)"
      using 3 by (simp add: done_loop_step t_def u_def e'_def)
    then have err: "error u = 0" using err by simp
    then have "error t = 0" using carry_out_error_mono u_def by simp
    note i = done_iter [OF r(3,4) E ext' nc this [unfolded t_def], folded t_def e'_def]
    have e': "0 \<le> e'" "e' < 2147483648" by (simp_all add: e'_def)
    have "ext t + 1 < 4294967296" using i(6) ext by simp
    moreover have "e' < 4294967296" "2147483648 \<le> e' \<Longrightarrow> pend_val t + 1 < 256 ^ pend_len t"
      using e' by simp_all
    ultimately have j: "buf_ok u" "rem_ok u" "raw_list u = raw_list t" "enc_m u = enc_m t + 1"
      "enc_digits u * 2147483648 + e' mod 8388608 * 256 = (enc_digits t * 2147483648 + e') * 256"
      "ext u \<le> ext t + 1"
      using done_iter [OF i(1,2) e'(1) _ _ _ err [unfolded u_def], folded u_def] by blast+
    have "e' mod 8388608 = 0" using dvd_div_pow(2) [of l e] 3 e by (simp add: end_ok_def e'_def)
    then have "done_state s e l 2 u"
      using i j ext 3 by (simp add: done_state_def)
    then show ?thesis using eq by auto
  qed
qed

lemma or_byte_fits:
  fixes x w :: int
  assumes "is_byte x" "2 ^ j dvd x" "j \<le> 8" "0 \<le> w" "w < 2 ^ j"
  shows "x OR w = x + w" "is_byte (x + w)"
proof -
  obtain q where q: "x = 2 ^ j * q" using assms(2) by (rule dvdE)
  then show "x OR w = x + w" using or_disjoint_add [of w j q] assms by (simp add: mult.commute)
  have "(2::int) ^ 8 = 2 ^ j * 2 ^ (8 - j)" using assms(3) by (simp flip: power_add)
  then have p: "(256::int) = 2 ^ j * 2 ^ (8 - j)" by simp
  have "2 ^ j * q < 2 ^ j * 2 ^ (8 - j)"
    using assms(1) unfolding q is_byte_def p [symmetric] by simp
  then have "q + 1 \<le> 2 ^ (8 - j)" by simp
  then have "2 ^ j * (q + 1) \<le> 2 ^ j * 2 ^ (8 - j)" by (rule mult_left_mono) simp
  then have "x + 2 ^ j \<le> 256" using p q by (simp add: distrib_left)
  then show "is_byte (x + w)" using assms by (simp add: is_byte_def)
qed

text \<open>The byte that range coder and raw bits may share.\<close>

lemma merge_tail:
  fixes w :: int
  assumes b: "bytes out" "bytes raw" and w: "0 \<le> w" "w < 2 ^ nat u" "0 < u" "u < 8"
    and i: "0 < length out + n"
    and sh: "n = 0 \<Longrightarrow> nat u \<le> j \<and> j \<le> 8 \<and> 2 ^ j dvd num256 out"
  defines "c \<equiv> out @ replicate n 0 @ raw"
  defines "d \<equiv> c[length out + n - 1 := c ! (length out + n - 1) OR u8 w]"
  shows "num256 d = num256 out * 256 ^ (n + length raw) + (num256 raw + w * 256 ^ length raw)"
    "bytes d"
proof -
  have "(2::int) ^ nat u \<le> 2 ^ 8" using w by (intro power_increasing) auto
  then have wb: "u8 w = w" "is_byte w" using w by (simp_all add: is_byte_def)
  have "num256 d = num256 out * 256 ^ (n + length raw) + (num256 raw + w * 256 ^ length raw) \<and> bytes d"
  proof (cases n)
    case (Suc m)
    have "c = (out @ replicate m 0) @ 0 # raw" by (simp add: c_def Suc flip: replicate_append_same)
    moreover have "length out + n - 1 = length (out @ replicate m 0)" using Suc by simp
    ultimately have "d = (out @ replicate m 0) @ w # raw"
      using wb unfolding d_def by (simp only: list_update_length nth_append_length) simp
    then show ?thesis using b wb Suc by (simp add: num256_append is_byte_def power_add algebra_simps)
  next
    case 0
    then obtain o' x where out: "out = o' @ [x]" using i by (cases out rule: rev_cases) auto
    have j: "nat u \<le> j" "j \<le> 8" "2 ^ j dvd num256 out" using sh 0 by auto
    have "(2::int) ^ j dvd 2 ^ 8" using j(2) by (rule le_imp_power_dvd)
    then have "(2::int) ^ j dvd num256 o' * 256" by (simp add: dvd_mult)
    then have x: "2 ^ j dvd x" using j(3) out by (simp add: dvd_add_right_iff)
    have "w < 2 ^ j" using w(2) j(1) power_increasing [of "nat u" j "2::int"] by linarith
    note or = or_byte_fits [OF _ x j(2) w(1) this]
    have "d = o' @ (x OR w) # raw" using 0 wb by (simp add: d_def c_def out nth_append)
    then show ?thesis using or b 0 by (simp add: out num256_append algebra_simps)
  qed
  then show "num256 d = num256 out * 256 ^ (n + length raw) + (num256 raw + w * 256 ^ length raw)"
    "bytes d" by simp_all
qed

lemma carry_flush:
  assumes s: "buf_ok s" "rem_ok s" "ext s + 1 < 4294967296"
  defines "t \<equiv> (if rem s \<ge> 0 \<or> ext s > 0 then ec_enc_carry_out s 0 else s)"
  assumes err: "error t = 0"
  shows "buf_ok t" "raw_list t = raw_list s" "num256 (out_list t) = enc_digits s" "offs t = enc_m s"
proof -
  have "buf_ok t \<and> raw_list t = raw_list s \<and> num256 (out_list t) = enc_digits s \<and> offs t = enc_m s"
  proof (cases "rem s \<ge> 0 \<or> ext s > 0")
    case True
    then have t: "t = ec_enc_carry_out s 0" by (simp add: t_def)
    then have D: "buf_ok t \<and> raw_list t = raw_list s \<and> enc_digits t = enc_digits s * 256
        \<and> enc_m t = enc_m s + 1 \<and> pend_len t = 1 \<and> pend_val t = 0"
      using carry_out_digits [OF s(1,2) _ _ s(3), of 0] err by simp
    then show ?thesis by (auto simp: enc_digits_def [of t] enc_m_def [of t])
  next
    case False
    then show ?thesis using s
      by (simp add: t_def enc_digits_def enc_m_def pend_len_def pend_val_def rem_ok_def)
  qed
  then show "buf_ok t" "raw_list t = raw_list s" "num256 (out_list t) = enc_digits s"
    "offs t = enc_m s" by simp_all
qed

text \<open>The tail of \<open>ec_enc_done\<close>, after the last range-coder byte and the full raw bytes.\<close>

definition done_tail :: "ec_ctx \<Rightarrow> int \<Rightarrow> int \<Rightarrow> int \<Rightarrow> ec_ctx" where
  "done_tail s window used l =
    (let s = s\<lparr>buf := blit (buf s) (nat (offs s))
           (replicate (nat (storage s - offs s - end_offs s)) 0)\<rparr>
     in if used > 0 then
          if end_offs s \<ge> storage s then s\<lparr>error := - 1\<rparr>
          else
            let l = - l;
                (s, window) =
                  (if offs s + end_offs s \<ge> storage s \<and> l < used
                   then (s\<lparr>error := - 1\<rparr>, window AND (push_bit (nat l) 1 - 1))
                   else (s, window));
                i = nat (storage s - end_offs s - 1)
            in s\<lparr>buf := (buf s)[i := buf s ! i OR u8 window]\<rparr>
        else s)"

lemma ec_enc_done_tail:
  "ec_enc_done s =
    (let (e, l) = ec_enc_done_end s;
         (s, l) = ec_enc_done_loop s e l;
         s = (if rem s \<ge> 0 \<or> ext s > 0 then ec_enc_carry_out s 0 else s);
         (s, window, used) = ec_flush_window (s, end_window s, nend_bits s)
     in if error s = 0 then done_tail s window used l else s)"
  unfolding ec_enc_done_def done_tail_def by (simp only: Let_def)

lemma done_tail_number:
  assumes s: "buf_ok s" and w: "0 \<le> w" "w < 2 ^ nat u" "0 \<le> u" "u < 8"
    and l: "l \<le> 0" "- 8 < l" "2 ^ nat (- l) dvd num256 (out_list s)"
    and err: "error (done_tail s w u l) = 0"
  defines "B \<equiv> buf (done_tail s w u l)"
  defines "r \<equiv> nat (storage s - offs s)"
  shows "num256 B = num256 (out_list s) * 256 ^ r + (num256 (raw_list s) + w * 256 ^ nat (end_offs s))"
    "bytes B" "length B = nat (storage s)"
    "0 < u \<Longrightarrow> 8 * end_offs s + u \<le> 8 * int r \<or> u \<le> - l \<and> end_offs s = int r"
proof -
  define n where "n = nat (storage s - offs s - end_offs s)"
  define b where "b = out_list s @ replicate n 0 @ raw_list s"
  have len: "length (out_list s) = nat (offs s)" "length (raw_list s) = nat (end_offs s)"
    "nat (storage s - end_offs s - 1) = length (out_list s) + n - 1"
    "nat (offs s) + n = nat (storage s - end_offs s)" "r = n + length (raw_list s)"
    using s by (auto simp: buf_ok_def out_list_def raw_list_def n_def r_def)
  have b: "blit (buf s) (nat (offs s)) (replicate n 0) = b"
    using len(4) by (simp add: blit_def b_def out_list_def raw_list_def)
  have bb: "bytes (out_list s)" "bytes (raw_list s)" "length b = nat (storage s)"
    using s by (auto simp: buf_ok_def out_list_def raw_list_def b_def n_def)
  define i where "i = length (out_list s) + n - 1"
  have c: "offs s + end_offs s \<ge> storage s \<longleftrightarrow> n = 0" by (auto simp: n_def)
  note t = done_tail_def [of s w u l, unfolded Let_def n_def [symmetric] b, simplified c len(3),
      folded i_def]
  have "num256 B = num256 (out_list s) * 256 ^ r + (num256 (raw_list s) + w * 256 ^ nat (end_offs s))
      \<and> bytes B \<and> length B = nat (storage s)
      \<and> (0 < u \<longrightarrow> 8 * end_offs s + u \<le> 8 * int r \<or> u \<le> - l \<and> end_offs s = int r)"
  proof (cases "0 < u")
    case False
    then have "w = 0" using w by simp
    moreover have "B = b" using False by (simp add: B_def t)
    ultimately show ?thesis using bb False len
      by (simp add: b_def num256_append power_add is_byte_def)
  next
    case True
    then have ok: "end_offs s < storage s" "n = 0 \<longrightarrow> u \<le> - l"
      using err by (auto simp: t c len(3) split: if_splits)
    have B: "B = b[i := b ! i OR u8 w]" using True ok by (auto simp: B_def t c len(3) i_def)
    have "0 < length (out_list s) + n" using ok len by simp
    moreover have "n = 0 \<Longrightarrow> nat u \<le> nat (- l) \<and> nat (- l) \<le> 8 \<and> 2 ^ nat (- l) dvd num256 (out_list s)"
      using ok l by auto
    ultimately have "num256 B = num256 (out_list s) * 256 ^ r
        + (num256 (raw_list s) + w * 256 ^ nat (end_offs s)) \<and> bytes B"
      using merge_tail [OF bb(1,2) w(1,2) True w(4), of n "nat (- l)", folded b_def i_def] len
      by (simp add: B)
    moreover have "int r = int n + end_offs s" using len s by (simp add: buf_ok_def)
    ultimately show ?thesis using bb(3) ok w by (cases "n = 0") (auto simp: B)
  qed
  then show "num256 B = num256 (out_list s) * 256 ^ r + (num256 (raw_list s) + w * 256 ^ nat (end_offs s))"
    "bytes B" "length B = nat (storage s)"
    "0 < u \<Longrightarrow> 8 * end_offs s + u \<le> 8 * int r \<or> u \<le> - l \<and> end_offs s = int r" by blast+
qed

text \<open>
  A finished buffer \<open>B\<close> agrees with an encoder state: read as a binary fraction it lies in the
  current interval, and its last bits are the raw bits written so far.
\<close>

definition in_interval :: "int list \<Rightarrow> ec_ctx \<Rightarrow> bool" where
  "in_interval B s \<longleftrightarrow>
     enc_low s * 256 ^ length B \<le> num256 B * 2147483648 * 256 ^ nat (enc_m s)
     \<and> num256 B * 2147483648 * 256 ^ nat (enc_m s) < (enc_low s + rng s) * 256 ^ length B"

definition raw_agree :: "int list \<Rightarrow> ec_ctx \<Rightarrow> bool" where
  "raw_agree B s \<longleftrightarrow> num256 B mod 2 ^ nat (raw_bits s) = raw_val s"

definition fin :: "int list \<Rightarrow> ec_ctx \<Rightarrow> bool" where
  "fin B s \<longleftrightarrow> ec_ok s \<and> bytes B \<and> in_interval B s \<and> raw_agree B s"

lemma interval_arith:
  fixes low rg D T X P R :: int
  assumes D: "D * T = X * 256 ^ k" and X: "low \<le> X" "X + P \<le> low + rg"
    and P: "P * 256 ^ k = 2 ^ j * T" and R: "0 \<le> R" "R < 2 ^ j * 256 ^ r"
    and N: "N = m + k + r" and T: "0 < T"
  shows "low * 256 ^ N \<le> (D * 256 ^ r + R) * T * 256 ^ m"
    "(D * 256 ^ r + R) * T * 256 ^ m < (low + rg) * 256 ^ N"
proof -
  have pN: "(256::int) ^ N = 256 ^ k * 256 ^ r * 256 ^ m" by (simp add: N power_add)
  have eq: "(D * 256 ^ r + R) * T * 256 ^ m = X * 256 ^ N + R * (T * 256 ^ m)"
  proof -
    have "(D * 256 ^ r + R) * T * 256 ^ m = (D * T) * 256 ^ r * 256 ^ m + R * (T * 256 ^ m)"
      by (simp add: algebra_simps)
    then show ?thesis unfolding D pN by (simp add: mult.assoc)
  qed
  have "R * (T * 256 ^ m) < 2 ^ j * 256 ^ r * (T * 256 ^ m)"
    using R(2) T by (intro mult_strict_right_mono) simp_all
  also have "\<dots> = (2 ^ j * T) * 256 ^ r * 256 ^ m" by (simp add: mult_ac)
  also have "\<dots> = P * 256 ^ N" unfolding P [symmetric] pN by (simp add: mult_ac)
  finally have hi: "R * (T * 256 ^ m) < P * 256 ^ N" .
  have "low * 256 ^ N \<le> X * 256 ^ N" using X(1) by (intro mult_right_mono) simp_all
  moreover have "0 \<le> R * (T * 256 ^ m)" using R(1) T by simp
  ultimately show "low * 256 ^ N \<le> (D * 256 ^ r + R) * T * 256 ^ m" unfolding eq by linarith
  have "(X + P) * 256 ^ N \<le> (low + rg) * 256 ^ N" using X(2) by (intro mult_right_mono) simp_all
  then show "(D * 256 ^ r + R) * T * 256 ^ m < (low + rg) * 256 ^ N"
    using hi unfolding eq distrib_right [of X P] by linarith
qed

lemma raw_val_bound:
  assumes "buf_ok s" "raw_ok s"
  shows "0 \<le> raw_val s" "raw_val s < 2 ^ nat (raw_bits s)"
proof -
  have b: "bytes (raw_list s)" using assms(1) by (simp add: raw_list_def buf_ok_def)
  show "0 \<le> raw_val s" using assms(2) num256_nonneg [OF b] by (simp add: raw_val_def raw_ok_def)
  have lt: "num256 (raw_list s) < 256 ^ nat (end_offs s)"
    using num256_less [OF b] length_raw_list [OF assms(1)] by simp
  have "nat (raw_bits s) = 8 * nat (end_offs s) + nat (nend_bits s)"
    using assms by (simp add: raw_bits_def buf_ok_def raw_ok_def nat_add_distrib nat_mult_distrib)
  then have p: "(2::int) ^ nat (raw_bits s) = 2 ^ nat (nend_bits s) * 256 ^ nat (end_offs s)"
    by (simp add: power_add power_mult)
  have "(end_window s + 1) * 256 ^ nat (end_offs s) \<le> 2 ^ nat (nend_bits s) * 256 ^ nat (end_offs s)"
    using assms(2) by (intro mult_right_mono) (simp_all add: raw_ok_def)
  then show "raw_val s < 2 ^ nat (raw_bits s)"
    using lt by (simp add: raw_val_def p distrib_right)
qed

lemma done_digits_dvd:
  fixes D X :: int
  assumes D: "D * 2147483648 = X * 256 ^ k" and X: "2 ^ (31 - nat l) dvd X"
    and l: "0 \<le> l" "l \<le> 31" "l \<le> 8 * int k"
  shows "2 ^ nat (8 * int k - l) dvd D" "2 ^ (31 - nat l) * 256 ^ k = 2 ^ nat (8 * int k - l) * (2147483648::int)"
proof -
  have "(256::int) ^ k = 2 ^ (8 * k)" by (simp add: power_mult)
  then have "2 ^ (31 - nat l) * 256 ^ k = (2::int) ^ (31 - nat l + 8 * k)" by (simp add: power_add)
  also have "31 - nat l + 8 * k = nat (8 * int k - l) + 31" using l by linarith
  finally show P: "2 ^ (31 - nat l) * 256 ^ k = 2 ^ nat (8 * int k - l) * (2147483648::int)"
    by (simp add: power_add)
  have "2 ^ (31 - nat l) * 256 ^ k dvd X * 256 ^ k" using X by (rule mult_dvd_mono) simp
  then show "2 ^ nat (8 * int k - l) dvd D" unfolding P D [symmetric] by simp
qed

text \<open>The state before the tail: all digits are in the buffer, fewer than 8 raw bits are not.\<close>

lemma done_parts:
  assumes s: "enc_inv s" "ec_ok s" and err: "error (ec_enc_done s) = 0"
  obtains e l k t w u where "end_ok s e l" "ec_enc_done s = done_tail t w u (l - 8 * int k)"
    "buf_ok t" "0 \<le> w" "w < 2 ^ nat u" "0 \<le> u" "u < 8" "l \<le> 8 * int k" "8 * int k < l + 8"
    "num256 (out_list t) * 2147483648 = (enc_digits s * 2147483648 + e) * 256 ^ k"
    "offs t = enc_m s + int k" "storage t = storage s"
    "raw_val s = num256 (raw_list t) + w * 256 ^ nat (end_offs t)"
    "raw_bits s = 8 * end_offs t + u"
proof -
  obtain e l where E: "ec_enc_done_end s = (e, l)" by (cases "ec_enc_done_end s")
  have ok: "end_ok s e l" using ec_enc_done_end_ok [OF s(1)] E by simp
  obtain s1 l1 where L: "ec_enc_done_loop s e l = (s1, l1)" by (cases "ec_enc_done_loop s e l")
  define s2 where "s2 = (if rem s1 \<ge> 0 \<or> ext s1 > 0 then ec_enc_carry_out s1 0 else s1)"
  define x where "x = (s2, end_window s2, nend_bits s2)"
  obtain t w u where F: "ec_flush_window x = (t, w, u)" by (cases "ec_flush_window x")
  have D: "ec_enc_done s = (if error t = 0 then done_tail t w u l1 else t)"
    by (simp only: ec_enc_done_tail E L Let_def prod.case s2_def [symmetric] x_def [symmetric] F)
  have et: "error t = 0" using err D by (auto split: if_splits)
  then have ew: "error (win_state (ec_flush_window x)) = 0" by (simp add: F win_state_def)
  then have e2: "error s2 = 0" using flush_window_mono [of x] by (simp add: x_def win_state_def)
  then have "error s1 = 0" using carry_out_error_mono [of s1 0] by (simp add: s2_def split: if_splits)
  then obtain k where k: "done_state s e l k s1" "l1 = l - 8 * int k"
    using done_loop_state [OF s ok] L by auto
  have sh: "enc_shape s" "raw_ok s" "0 \<le> raw_bits s" "ext s \<le> enc_m s"
    using s by (auto simp: enc_inv_def enc_core_def enc_shape_def raw_bits_def buf_ok_def raw_ok_def
        enc_m_def pend_len_def rem_ok_def)
  have "int k \<le> 2" using k(1) ok by (simp add: done_state_def end_ok_def)
  then have "ext s1 + 1 < 4294967296"
    using k(1) sh s(2) by (simp add: done_state_def enc_shape_def ec_ok_def)
  note C = carry_flush [OF _ _ this, folded s2_def, OF _ _ e2]
  have c: "buf_ok s2" "raw_list s2 = raw_list s" "offs s2 = enc_m s + int k"
    "num256 (out_list s2) * 2147483648 = (enc_digits s * 2147483648 + e) * 256 ^ k"
    using C k(1) by (simp_all add: done_state_def)
  have f: "storage s2 = storage s" "end_offs s2 = end_offs s" "end_window s2 = end_window s"
    "nend_bits s2 = nend_bits s"
    using done_loop_frame [of s e l] L by (simp_all add: s2_def)
  then have "win_ok x" using sh(2) by (simp add: x_def win_ok_def raw_ok_def)
  moreover have "buf_ok (win_state x)" using c(1) by (simp add: x_def win_state_id)
  ultimately have M: "raw_moved s2 (win_state (t, w, u))" "win_ok (t, w, u)" "u < 8"
    using flush_window_moved [OF _ _ ew] unfolding F by (simp_all add: x_def win_state_id)
  show thesis
  proof (rule that [OF ok])
    show "ec_enc_done s = done_tail t w u (l - 8 * int k)" using D et k by simp
    show "buf_ok t" using M(1) buf_ok_win_state [of "(t, w, u)"] by (simp add: raw_moved_def)
    show "0 \<le> w" "w < 2 ^ nat u" "0 \<le> u" "u < 8" using M by (simp_all add: win_ok_def)
    show "l \<le> 8 * int k" "8 * int k < l + 8" using k by (simp_all add: done_state_def)
    show "num256 (out_list t) * 2147483648 = (enc_digits s * 2147483648 + e) * 256 ^ k"
      using M(1) c(4) unfolding raw_moved_def out_list_def win_state_def by auto
    show "offs t = enc_m s + int k" "storage t = storage s"
      using M(1) c(3) f by (simp_all add: raw_moved_def win_state_def)
    have "raw_val (win_state (t, w, u)) = raw_val s" "raw_bits (win_state (t, w, u)) = raw_bits s"
      using M(1) c(2) f by (simp_all add: raw_moved_def raw_val_def raw_bits_def)
    then show "raw_val s = num256 (raw_list t) + w * 256 ^ nat (end_offs t)"
      "raw_bits s = 8 * end_offs t + u"
      by (simp_all add: win_state_def raw_val_def raw_bits_def raw_list_def)
  qed
qed

theorem ec_enc_done_fin:
  assumes s: "enc_inv s" "ec_ok s" and err: "error (ec_enc_done s) = 0"
  shows "fin (buf (ec_enc_done s)) s" "length (buf (ec_enc_done s)) = nat (storage s)"
proof -
  obtain e l k t w u where p: "end_ok s e l" "ec_enc_done s = done_tail t w u (l - 8 * int k)"
    "buf_ok t" "0 \<le> w" "w < 2 ^ nat u" "0 \<le> u" "u < 8" "l \<le> 8 * int k" "8 * int k < l + 8"
    "num256 (out_list t) * 2147483648 = (enc_digits s * 2147483648 + e) * 256 ^ k"
    "offs t = enc_m s + int k" "storage t = storage s"
    "raw_val s = num256 (raw_list t) + w * 256 ^ nat (end_offs t)"
    "raw_bits s = 8 * end_offs t + u"
    by (rule done_parts [OF s err])
  have l: "0 \<le> l" "l \<le> 31" using p(1) by (simp_all add: end_ok_def)
  have "(2::int) ^ (31 - nat l) dvd 2 ^ 31" by (intro le_imp_power_dvd) simp
  then have "2 ^ (31 - nat l) dvd enc_digits s * 2147483648 + e"
    using p(1) by (intro dvd_add dvd_mult) (simp_all add: end_ok_def)
  note dv = done_digits_dvd [OF p(10) this l p(8)]
  define r where "r = nat (storage t - offs t)"
  define B where "B = buf (ec_enc_done s)"
  have "l - 8 * int k \<le> 0" "- 8 < l - 8 * int k" using p(8,9) by simp_all
  note T = done_tail_number [OF p(3-7) this _ err [unfolded p(2)], folded p(2) B_def r_def]
  have num: "num256 B = num256 (out_list t) * 256 ^ r + raw_val s" "bytes B"
    and len: "length B = nat (storage s)" using T(1-3) dv p(12,13) by simp_all
  have o: "0 \<le> enc_m s" "offs t \<le> storage t" "int r = storage t - offs t"
    using s p(3) by (auto simp: r_def buf_ok_def enc_inv_def enc_core_def enc_shape_def enc_m_def)
  have "end_offs t \<le> int r" using o(3) p(3) by (simp add: buf_ok_def)
  then have "8 * end_offs t + u \<le> 8 * int r + (8 * int k - l)"
    using T(4) dv(1) p(6,8) by (cases "0 < u") auto
  then have sz: "nat (raw_bits s) \<le> nat (8 * int k - l) + 8 * r" using p(8,14) by linarith
  have rb: "0 \<le> raw_val s" "raw_val s < 2 ^ nat (raw_bits s)"
    using raw_val_bound s by (simp_all add: enc_inv_def enc_core_def enc_shape_def)
  have p2: "(2::int) ^ (nat (8 * int k - l) + 8 * r) = 2 ^ nat (8 * int k - l) * 256 ^ r"
    by (simp add: power_add power_mult)
  have "(2::int) ^ nat (raw_bits s) \<le> 2 ^ nat (8 * int k - l) * 256 ^ r"
    unfolding p2 [symmetric] using sz by (intro power_increasing) simp_all
  then have R: "raw_val s < 2 ^ nat (8 * int k - l) * 256 ^ r" using rb by linarith
  have "length B = nat (enc_m s) + k + r" using len o p(11,12) by simp
  note I = interval_arith [OF p(10) _ _ dv(2) rb(1) R this, of "enc_low s" "rng s"]
  have "in_interval B s"
    using I p(1) by (simp add: in_interval_def num end_ok_def enc_low_def)
  moreover have "raw_agree B s"
  proof -
    have "(2::int) ^ nat (raw_bits s) dvd 2 ^ (nat (8 * int k - l) + 8 * r)"
      using sz by (rule le_imp_power_dvd)
    moreover have "2 ^ (nat (8 * int k - l) + 8 * r) dvd num256 (out_list t) * 256 ^ r"
      unfolding p2 using dv(1) by (rule mult_dvd_mono) simp
    ultimately have "2 ^ nat (raw_bits s) dvd num256 (out_list t) * 256 ^ r" by (rule dvd_trans)
    then have "num256 B mod 2 ^ nat (raw_bits s) = raw_val s mod 2 ^ nat (raw_bits s)"
      unfolding num(1) by (simp add: mod_add_left_eq [symmetric])
    then show ?thesis using rb by (simp add: raw_agree_def)
  qed
  ultimately show "fin (buf (ec_enc_done s)) s" "length (buf (ec_enc_done s)) = nat (storage s)"
    using s num len by (simp_all add: fin_def B_def)
qed

end
