(* ===== verification/Entdec.thy ===== *)
theory Entdec
  imports Entcode
begin

text \<open>
  The range decoder of \<open>celt/entdec.c\<close>.  Reads beyond the buffer deliver zero bytes, as in the
  code, so every function is total on every buffer.  As in the encoder, the renormalisation loop
  would not end on \<open>rng = 0\<close>, which the model leaves as it is.
\<close>

section \<open>Byte input and renormalisation\<close>

definition ec_read_byte :: "ec_ctx \<Rightarrow> int \<times> ec_ctx" where
  "ec_read_byte d =
    (if offs d < storage d then (buf d ! nat (offs d), d\<lparr>offs := offs d + 1\<rparr>) else (0, d))"

definition ec_read_byte_from_end :: "ec_ctx \<Rightarrow> int \<times> ec_ctx" where
  "ec_read_byte_from_end d =
    (if end_offs d < storage d then
       (buf d ! nat (storage d - (end_offs d + 1)), d\<lparr>end_offs := end_offs d + 1\<rparr>)
     else (0, d))"

definition ec_dec_normalize_body :: "ec_ctx \<Rightarrow> ec_ctx" where
  "ec_dec_normalize_body d =
    (let d = d\<lparr>nbits_total := nbits_total d + 8, rng := u32 (push_bit 8 (rng d))\<rparr>;
         c = rem d;
         (b, d) = ec_read_byte d;
         d = d\<lparr>rem := b\<rparr>;
         c = drop_bit (nat (8 - EC_CODE_EXTRA)) (push_bit 8 c OR rem d)
     in d\<lparr>val := u32 (push_bit 8 (val d) + (EC_SYM_MAX AND NOT c)) AND (EC_CODE_TOP - 1)\<rparr>)"

lemma ec_dec_normalize_body_rng [simp]:
  "rng (ec_dec_normalize_body d) = u32 (push_bit 8 (rng d))"
  by (simp add: ec_dec_normalize_body_def ec_read_byte_def Let_def)

function ec_dec_normalize :: "ec_ctx \<Rightarrow> ec_ctx" where
  "ec_dec_normalize d =
    (if rng d \<le> EC_CODE_BOT \<and> 0 < rng d then ec_dec_normalize (ec_dec_normalize_body d) else d)"
  by pat_completeness auto
termination
  by (relation "measure (\<lambda>d. nat (EC_CODE_TOP + 1 - rng d))") (auto simp: push_bit_eq_mult)

declare ec_dec_normalize.simps [simp del]

text \<open>\<open>ext\<close> is set by \<open>ec_decode\<close> before it is read; the uninitialised field starts as 0 here.\<close>

definition ec_dec_init :: "int list \<Rightarrow> int \<Rightarrow> ec_ctx" where
  "ec_dec_init b sz =
    (let d = \<lparr>buf = b, storage = sz, end_offs = 0, end_window = 0, nend_bits = 0,
              nbits_total = 32 + 1 - ((32 - EC_CODE_EXTRA) div 8) * 8, offs = 0,
              rng = push_bit (nat EC_CODE_EXTRA) 1, val = 0, ext = 0, rem = 0, error = 0\<rparr>;
         (r, d) = ec_read_byte d;
         d = d\<lparr>rem := r\<rparr>;
         d = d\<lparr>val := u32 (rng d - 1 - drop_bit (nat (8 - EC_CODE_EXTRA)) (rem d))\<rparr>
     in ec_dec_normalize d)"

section \<open>Symbol decoders\<close>

definition ec_decode :: "int \<Rightarrow> ec_ctx \<Rightarrow> int \<times> ec_ctx" where
  "ec_decode ft d =
    (let d = d\<lparr>ext := celt_udiv (rng d) ft\<rparr>;
         s = val d div ext d
     in (u32 (ft - EC_MINI (u32 (s + 1)) ft), d))"

definition ec_decode_bin :: "int \<Rightarrow> ec_ctx \<Rightarrow> int \<times> ec_ctx" where
  "ec_decode_bin bits d =
    (let d = d\<lparr>ext := drop_bit (nat bits) (rng d)\<rparr>;
         s = val d div ext d;
         ft = u32 (push_bit (nat bits) 1)
     in (u32 (ft - EC_MINI (u32 (s + 1)) ft), d))"

definition ec_dec_update :: "int \<Rightarrow> int \<Rightarrow> int \<Rightarrow> ec_ctx \<Rightarrow> ec_ctx" where
  "ec_dec_update fl fh ft d =
    (let s = u32 (ext d * (ft - fh));
         d = d\<lparr>val := u32 (val d - s)\<rparr>;
         d = d\<lparr>rng := (if fl > 0 then u32 (ext d * (fh - fl)) else u32 (rng d - s))\<rparr>
     in ec_dec_normalize d)"

definition ec_dec_bit_logp :: "int \<Rightarrow> ec_ctx \<Rightarrow> int \<times> ec_ctx" where
  "ec_dec_bit_logp logp c =
    (let r = rng c;
         d = val c;
         s = drop_bit (nat logp) r;
         ret = cbool (d < s);
         c = (if ret = 0 then c\<lparr>val := u32 (d - s)\<rparr> else c);
         c = c\<lparr>rng := (if ret \<noteq> 0 then s else u32 (r - s))\<rparr>
     in (ret, ec_dec_normalize c))"

text \<open>
  \<open>do { t = s; s = r * icdf[++ret]; } while (d < s);\<close> the loop returns \<open>(ret, t, s)\<close>.  A table
  ends with 0, which stops the loop; a read past the end of the list reads 0.
\<close>

fun ec_dec_icdf_loop :: "int \<Rightarrow> int \<Rightarrow> int list \<Rightarrow> int \<Rightarrow> int \<Rightarrow> int \<times> int \<times> int" where
  "ec_dec_icdf_loop r d [] ret s = (ret + 1, s, 0)"
| "ec_dec_icdf_loop r d (f # fs) ret s =
    (let t = s; s = u32 (r * f); ret = ret + 1
     in if d < s then ec_dec_icdf_loop r d fs ret s else (ret, t, s))"

definition ec_dec_icdf :: "int list \<Rightarrow> int \<Rightarrow> ec_ctx \<Rightarrow> int \<times> ec_ctx" where
  "ec_dec_icdf icdf ftb c =
    (let s = rng c;
         d = val c;
         r = drop_bit (nat ftb) s;
         (ret, t, s) = ec_dec_icdf_loop r d icdf (- 1) s
     in (ret, ec_dec_normalize (c\<lparr>val := u32 (d - s), rng := u32 (t - s)\<rparr>)))"

definition ec_dec_icdf16 :: "int list \<Rightarrow> int \<Rightarrow> ec_ctx \<Rightarrow> int \<times> ec_ctx" where
  "ec_dec_icdf16 icdf ftb c =
    (let s = rng c;
         d = val c;
         r = drop_bit (nat ftb) s;
         (ret, t, s) = ec_dec_icdf_loop r d icdf (- 1) s
     in (ret, ec_dec_normalize (c\<lparr>val := u32 (d - s), rng := u32 (t - s)\<rparr>)))"

section \<open>Raw bits\<close>

definition ec_fill_byte :: "ec_ctx \<times> int \<times> int \<Rightarrow> ec_ctx \<times> int \<times> int" where
  "ec_fill_byte = (\<lambda>(d, window, available).
    let (b, d) = ec_read_byte_from_end d
    in (d, window OR u32 (push_bit (nat available) b), available + 8))"

function ec_fill_window :: "ec_ctx \<times> int \<times> int \<Rightarrow> ec_ctx \<times> int \<times> int" where
  "ec_fill_window (d, window, available) =
    (if available \<le> 32 - 8 then ec_fill_window (ec_fill_byte (d, window, available))
     else (d, window, available))"
  by pat_completeness auto
termination
  by (relation "measure (\<lambda>(d, w, a). nat (32 - a))")
    (auto simp: ec_fill_byte_def Let_def split: prod.splits)

declare ec_fill_window.simps [simp del]

definition ec_dec_bits :: "int \<Rightarrow> ec_ctx \<Rightarrow> int \<times> ec_ctx" where
  "ec_dec_bits bits d =
    (let (d, window, available) =
           (if u32 (nend_bits d) < bits
            then ec_fill_window (ec_fill_byte (d, end_window d, nend_bits d))
            else (d, end_window d, nend_bits d));
         ret = window AND (u32 (push_bit (nat bits) 1) - 1);
         window = drop_bit (nat bits) window;
         available = available - bits
     in (ret, d\<lparr>end_window := window, nend_bits := available,
                nbits_total := nbits_total d + bits\<rparr>))"

definition ec_dec_uint :: "int \<Rightarrow> ec_ctx \<Rightarrow> int \<times> ec_ctx" where
  "ec_dec_uint ft0 d =
    (let ft1 = u32 (ft0 - 1);
         ftb = ec_ilog ft1
     in if ftb > 8 then
          let ftb = ftb - 8;
              ft = drop_bit (nat ftb) ft1 + 1;
              (s, d) = ec_decode ft d;
              d = ec_dec_update s (s + 1) ft d;
              (x, d) = ec_dec_bits ftb d;
              t = u32 (push_bit (nat ftb) s) OR x
          in if t \<le> ft1 then (t, d) else (ft1, d\<lparr>error := 1\<rparr>)
        else
          let ft2 = u32 (ft1 + 1);
              (s, d) = ec_decode ft2 d
          in (s, ec_dec_update s (s + 1) ft2 d))"

end
