(* ===== verification/Range_Coder.thy ===== *)
theory Range_Coder
  imports Range_Encoder Entdec
begin

text \<open>
  The range decoder undoes the range encoder.  \<open>fin B s\<close> says that the finished buffer \<open>B\<close> was
  produced by continuing from the encoder state \<open>s\<close>; \<open>coupled B s d\<close> says that the decoder
  state \<open>d\<close> is where the encoder was in state \<open>s\<close>.  Every pair of an encoding and a decoding
  routine keeps the two states coupled and hands the symbol over.
\<close>

section \<open>The buffer as a binary fraction\<close>

definition byte_at :: "int list \<Rightarrow> nat \<Rightarrow> int" where
  "byte_at B i = (if i < length B then B ! i else 0)"

text \<open>The first \<open>n\<close> bytes, the buffer being continued by zeros.\<close>

definition prefix256 :: "int list \<Rightarrow> nat \<Rightarrow> int" where
  "prefix256 B n = num256 B * 256 ^ n div 256 ^ length B"

lemma is_byte_byte_at: "bytes B \<Longrightarrow> is_byte (byte_at B i)"
  by (simp add: byte_at_def bytes_nth) (simp add: is_byte_def)

lemma prefix256_take: "bytes B \<Longrightarrow> n \<le> length B \<Longrightarrow> prefix256 B n = num256 (take n B)"
  using num256_div_take [of B n]
  by (simp add: prefix256_def power_diff_power_eq [symmetric] zdiv_zmult2_eq)
    (metis (no_types, lifting) div_mult_mult2 le_add_diff_inverse2 power_add power_not_zero zero_neq_numeral)

lemma prefix256_beyond: "length B \<le> n \<Longrightarrow> prefix256 B n = num256 B * 256 ^ (n - length B)"
proof -
  assume "length B \<le> n"
  then have "(256::int) ^ n = 256 ^ (n - length B) * 256 ^ length B" by (simp flip: power_add)
  then show ?thesis by (simp add: prefix256_def mult.assoc [symmetric])
qed

lemma prefix256_Suc:
  assumes "bytes B"
  shows "prefix256 B (Suc n) = prefix256 B n * 256 + byte_at B n"
proof (cases "n < length B")
  case True
  then have "take (Suc n) B = take n B @ [B ! n]" by (rule take_Suc_conv_app_nth)
  then show ?thesis using True assms by (simp add: prefix256_take byte_at_def)
next
  case False
  then have "prefix256 B (Suc n) = num256 B * 256 ^ Suc (n - length B)"
    by (simp only: prefix256_beyond Suc_diff_le not_less le_SucI)
  then show ?thesis using False unfolding byte_at_def by (simp only: prefix256_beyond not_less) simp
qed

lemma prefix256_0: "bytes B \<Longrightarrow> prefix256 B 0 = 0"
  by (simp add: prefix256_take)

lemma prefix256_half_step:
  assumes "bytes B" "0 < n"
  shows "prefix256 B (Suc n) div 2 =
    prefix256 B n div 2 * 256 + (byte_at B (n - 1) * 256 + byte_at B n) div 2 mod 256"
proof -
  obtain m where n: "n = Suc m" using assms(2) by (cases n) auto
  define p a b where "p = prefix256 B m" and "a = byte_at B m" and "b = byte_at B n"
  have b: "0 \<le> b" "b < 256" using is_byte_byte_at [OF assms(1), of n] by (simp_all add: b_def is_byte_def)
  define h r where "h = a div 2" and "r = a mod 2"
  have a: "a = 2 * h + r" by (simp add: h_def r_def)
  have r: "r = 0 \<or> r = 1" by (auto simp: r_def)
  have "((p * 256 + a) * 256 + b) div 2 = (p * 256 + a) * 128 + b div 2" by simp
  moreover have "(p * 256 + a) div 2 = p * 128 + h" using r a by auto
  moreover have "(a * 256 + b) div 2 = h * 256 + (r * 128 + b div 2)" using a by simp
  moreover have "(h * 256 + (r * 128 + b div 2)) mod 256 = r * 128 + b div 2" using r b by auto
  ultimately have "((p * 256 + a) * 256 + b) div 2
      = (p * 256 + a) div 2 * 256 + (a * 256 + b) div 2 mod 256"
    using a by simp
  then show ?thesis
    by (simp add: prefix256_Suc [OF assms(1)] n p_def a_def b_def)
qed

lemma in_interval_prefix:
  assumes "0 \<le> enc_m s"
  shows "in_interval B s \<longleftrightarrow> enc_low s \<le> prefix256 B (nat (enc_m s) + 4) div 2
    \<and> prefix256 B (nat (enc_m s) + 4) div 2 < enc_low s + rng s"
proof -
  define N where "N = (256::int) ^ length B"
  have N: "0 < N" by (simp add: N_def)
  have "num256 B * 256 ^ (nat (enc_m s) + 4) = (num256 B * 2147483648 * 256 ^ nat (enc_m s)) * 2"
    by (simp add: power_add)
  then have "prefix256 B (nat (enc_m s) + 4) div 2
      = (num256 B * 2147483648 * 256 ^ nat (enc_m s)) * 2 div (N * 2)"
    unfolding prefix256_def N_def by (simp only: zdiv_zmult2_eq zero_le_numeral)
  then have "prefix256 B (nat (enc_m s) + 4) div 2 = num256 B * 2147483648 * 256 ^ nat (enc_m s) div N"
    by (simp add: mult_ac)
  then show ?thesis
    using int_le_div_iff [OF N] int_div_less_iff [OF N] by (simp add: in_interval_def N_def)
qed

section \<open>Decoder renormalisation\<close>

text \<open>The decoder has consumed \<open>n\<close> bytes of \<open>B\<close>, relative to the low end \<open>low\<close>.\<close>

definition dec_at :: "int list \<Rightarrow> nat \<Rightarrow> int \<Rightarrow> ec_ctx \<Rightarrow> bool" where
  "dec_at B n low d \<longleftrightarrow> buf d = B \<and> storage d = int (length B) \<and> 0 < n
     \<and> offs d = int (min n (length B)) \<and> rem d = byte_at B (n - 1)
     \<and> val d = low + rng d - 1 - prefix256 B n div 2"

text \<open>Fields that the range decoder leaves alone.\<close>

definition same_tail :: "ec_ctx \<Rightarrow> ec_ctx \<Rightarrow> bool" where
  "same_tail d d' \<longleftrightarrow> end_offs d' = end_offs d \<and> end_window d' = end_window d
     \<and> nend_bits d' = nend_bits d \<and> error d' = error d"

lemma same_tail_trans: "same_tail d e \<Longrightarrow> same_tail e f \<Longrightarrow> same_tail d f"
  by (simp add: same_tail_def)

lemma and_not_byte: "255 AND NOT (c::int) = 255 - c mod 256"
  using take_bit_not_eq_mask_diff [of 8 c]
  by (simp add: take_bit_eq_mod mask_eq_exp_minus_1 and_255_mod [symmetric] and.commute)

lemma dec_body:
  assumes B: "bytes B" and d: "dec_at B n low d" and v: "0 \<le> val d" "val d < rng d" "rng d \<le> 8388608"
  defines "d' \<equiv> ec_dec_normalize_body d"
  shows "dec_at B (Suc n) (low * 256) d'" "0 \<le> val d'" "val d' < rng d'"
    "rng d' = rng d * 256" "nbits_total d' = nbits_total d + 8" "same_tail d d'"
proof -
  have rd: "ec_read_byte x = (byte_at B n, x\<lparr>offs := int (min (Suc n) (length B))\<rparr>)"
    if "offs x = offs d" "storage x = storage d" "buf x = buf d" for x
    using d that by (auto simp: ec_read_byte_def dec_at_def byte_at_def min_def)
  show r: "rng d' = rng d * 256" using v by (simp add: d'_def push_bit_eq_mult)
  define a b where "a = byte_at B (n - 1)" and "b = byte_at B n"
  have ab: "0 \<le> a" "a < 256" "0 \<le> b" "b < 256"
    using is_byte_byte_at [OF B] by (simp_all add: a_def b_def is_byte_def)
  have ra: "rem d = a" using d by (simp add: dec_at_def a_def)
  define q where "q = (a * 256 + b) div 2 mod 256"
  have q: "0 \<le> q" "q < 256" by (simp_all add: q_def)
  have "push_bit 8 a OR b = a * 256 + b"
    using or_disjoint_add [of b 8 a] ab by (simp add: push_bit_eq_mult)
  then have "val d' = (val d * 256 + (255 - q)) mod 4294967296 mod 2147483648"
    by (simp add: d'_def ec_dec_normalize_body_def Let_def rd ra b_def [symmetric] and_not_byte bitarith
        push_bit_eq_mult drop_bit_eq_div u32_def q_def)
  then have v': "val d' = val d * 256 + (255 - q)"
    using v q by simp
  show "0 \<le> val d'" "val d' < rng d'" using v q v' r by linarith+
  have "prefix256 B (Suc n) div 2 = prefix256 B n div 2 * 256 + q"
    using prefix256_half_step [OF B] d by (simp add: dec_at_def q_def a_def b_def)
  then have "val d' = low * 256 + rng d' - 1 - prefix256 B (Suc n) div 2"
    using d v' r by (simp add: dec_at_def algebra_simps)
  then show "dec_at B (Suc n) (low * 256) d'"
    using d r by (simp add: dec_at_def) (simp add: d'_def ec_dec_normalize_body_def Let_def rd)
  show "nbits_total d' = nbits_total d + 8" "same_tail d d'"
    by (simp_all add: d'_def ec_dec_normalize_body_def Let_def rd same_tail_def)
qed

section \<open>Coupled encoder and decoder states\<close>

definition raw_coupled :: "int list \<Rightarrow> ec_ctx \<Rightarrow> ec_ctx \<Rightarrow> bool" where
  "raw_coupled B s d \<longleftrightarrow> 0 \<le> nend_bits d \<and> nend_bits d \<le> 32
     \<and> 8 dvd raw_bits s + nend_bits d
     \<and> end_offs d = min ((raw_bits s + nend_bits d) div 8) (int (length B))
     \<and> end_window d = num256 B div 2 ^ nat (raw_bits s) mod 2 ^ nat (nend_bits d)"

definition coupled :: "int list \<Rightarrow> ec_ctx \<Rightarrow> ec_ctx \<Rightarrow> bool" where
  "coupled B s d \<longleftrightarrow> dec_at B (nat (enc_m s) + 4) (enc_low s) d \<and> rng d = rng s
     \<and> nbits_total d = nbits_total s \<and> error d = 0 \<and> raw_coupled B s d"

lemma enc_core_m: "enc_core s \<Longrightarrow> 0 \<le> enc_m s"
  by (simp add: enc_core_def enc_shape_def buf_ok_def enc_m_def)

lemma coupled_val:
  assumes "enc_core s" "coupled B s d"
  shows "in_interval B s \<longleftrightarrow> 0 \<le> val d \<and> val d < rng d"
  using assms by (auto simp: in_interval_prefix enc_core_m coupled_def dec_at_def)

lemma raw_coupled_frame:
  "same_tail d d' \<Longrightarrow> raw_bits s' = raw_bits s \<Longrightarrow> raw_coupled B s' d' = raw_coupled B s d"
  by (simp add: raw_coupled_def same_tail_def)

lemma scaled_interval:
  assumes "scaled k s t" "0 \<le> enc_m s"
  shows "in_interval B t \<longleftrightarrow> in_interval B s"
proof -
  define x where "x = num256 B * 2147483648 * 256 ^ nat (enc_m s)"
  define N :: int where "N = 256 ^ length B"
  have "nat (enc_m t) = nat (enc_m s) + k" using assms by (simp add: scaled_def nat_add_distrib)
  then have x: "num256 B * 2147483648 * 256 ^ nat (enc_m t) = x * 256 ^ k"
    by (simp add: power_add x_def)
  have l: "enc_low t * N = (enc_low s * N) * 256 ^ k"
    "(enc_low t + rng t) * N = ((enc_low s + rng s) * N) * 256 ^ k"
    using assms(1) by (simp_all add: scaled_def algebra_simps)
  have "(0::int) < 256 ^ k" by simp
  then show ?thesis
    unfolding in_interval_def x l N_def [symmetric] x_def [symmetric]
    by (simp only: mult_le_cancel_right_pos mult_less_cancel_right_pos)
qed

lemma coupled_body:
  assumes s: "enc_core s" "rng s \<le> 8388608" "ec_ok (ec_enc_normalize_body s)"
    and B: "bytes B" "in_interval B s" and c: "coupled B s d"
  shows "coupled B (ec_enc_normalize_body s) (ec_dec_normalize_body d)"
proof -
  note b = normalize_body_core [OF s]
  have v: "0 \<le> val d" "val d < rng d" "rng d \<le> 8388608"
    using coupled_val [OF s(1) c] B s c by (simp_all add: coupled_def)
  have at: "dec_at B (nat (enc_m s) + 4) (enc_low s) d" using c by (simp add: coupled_def)
  note d = dec_body [OF B(1) at v]
  have m: "nat (enc_m (ec_enc_normalize_body s)) + 4 = Suc (nat (enc_m s) + 4)"
    using b(2) enc_core_m [OF s(1)] by (simp add: scaled_def nat_add_distrib)
  have "raw_bits (ec_enc_normalize_body s) = raw_bits s"
    using b(2) same_raw_val by (simp add: scaled_def)
  then have "raw_coupled B (ec_enc_normalize_body s) (ec_dec_normalize_body d)"
    using c d(6) raw_coupled_frame by (simp add: coupled_def)
  then show ?thesis
    using b(2) c d body_fields(3) [OF s(1,2)] unfolding coupled_def m
    by (simp add: scaled_def same_tail_def)
qed

lemma coupled_normalize:
  assumes "enc_core s" "ec_ok (ec_enc_normalize s)" "bytes B" "in_interval B s" "coupled B s d"
  shows "coupled B (ec_enc_normalize s) (ec_dec_normalize d)"
  using assms
proof (induction s arbitrary: d rule: ec_enc_normalize.induct)
  case (1 s)
  have r: "rng d = rng s" "0 < rng s" using 1(2,6) by (simp_all add: coupled_def enc_core_def)
  show ?case
  proof (cases "rng s \<le> 8388608")
    case True
    let ?s = "ec_enc_normalize_body s" and ?d = "ec_dec_normalize_body d"
    have eq: "ec_enc_normalize s = ec_enc_normalize ?s" "ec_dec_normalize d = ec_dec_normalize ?d"
      using True r by (simp_all add: ec_enc_normalize.simps [of s] ec_dec_normalize.simps [of d])
    then have ok: "ec_ok ?s" using 1(3) ec_ok_normalize by simp
    note b = normalize_body_core [OF 1(2) True ok]
    have "in_interval B ?s" using scaled_interval [OF b(2) enc_core_m [OF 1(2)]] 1(5) by simp
    moreover have "coupled B ?s ?d" using coupled_body [OF 1(2) True ok 1(4,5,6)] .
    ultimately show ?thesis using 1(1) [of ?d] True r b 1(3,4) eq by simp
  next
    case False
    then show ?thesis
      using 1(6) r by (simp add: ec_enc_normalize.simps [of s] ec_dec_normalize.simps [of d])
  qed
qed

section \<open>Narrowing the interval\<close>

text \<open>
  Every symbol selects a sub-interval, given here by the distances \<open>t < u\<close> of its ends from the
  top of the current interval.
\<close>

definition narrow :: "int \<Rightarrow> int \<Rightarrow> ec_ctx \<Rightarrow> ec_ctx" where
  "narrow t u s = s\<lparr>val := val s + (rng s - u), rng := u - t\<rparr>"

definition dec_narrow :: "int \<Rightarrow> int \<Rightarrow> ec_ctx \<Rightarrow> ec_ctx" where
  "dec_narrow t u d = d\<lparr>val := val d - t, rng := u - t\<rparr>"

lemma narrow_fields [simp]:
  "enc_m (narrow t u s) = enc_m s" "rng (narrow t u s) = u - t" "raw_bits (narrow t u s) = raw_bits s"
  "raw_val (narrow t u s) = raw_val s" "nbits_total (narrow t u s) = nbits_total s"
  "error (narrow t u s) = error s" "enc_low (narrow t u s) = enc_low s + rng s - u"
  "storage (narrow t u s) = storage s"
  by (simp_all add: narrow_def enc_m_def pend_len_def raw_bits_def raw_val_def raw_list_def enc_low_def
      enc_digits_def pend_val_def out_list_def)

lemma narrow_core:
  assumes "enc_inv s" "0 \<le> t" "t < u" "u \<le> rng s"
  shows "enc_core (narrow t u s)"
proof -
  have "enc_shape (narrow t u s) = enc_shape s"
    by (simp add: enc_shape_def) (simp add: narrow_def buf_ok_def rem_ok_def raw_ok_def)
  moreover have "pend_val (narrow t u s) = pend_val s" "pend_len (narrow t u s) = pend_len s"
    by (simp_all add: narrow_def pend_val_def pend_len_def)
  ultimately show ?thesis
    using assms by (auto simp: enc_inv_def enc_core_def no_carry_def) (auto simp: narrow_def)
qed

lemma narrow_interval:
  assumes "in_interval B (narrow t u s)" "0 \<le> t" "u \<le> rng s"
  shows "in_interval B s"
proof -
  define N :: int where "N = 256 ^ length B"
  have "0 \<le> N" by (simp add: N_def)
  then have "enc_low s * N \<le> (enc_low s + rng s - u) * N"
    "(enc_low s + rng s - u + (u - t)) * N \<le> (enc_low s + rng s) * N"
    using assms(2,3) by (auto intro!: mult_right_mono)
  then show ?thesis using assms(1) unfolding in_interval_def narrow_fields N_def [symmetric]
    by linarith
qed

lemma ec_ok_narrow: "ec_ok (narrow t u s) = ec_ok s"
  by (simp add: ec_ok_def)

lemma fin_normalize:
  assumes "enc_core s" "fin B (ec_enc_normalize s)"
  shows "fin B s"
proof -
  have ok: "ec_ok (ec_enc_normalize s)" using assms(2) by (simp add: fin_def)
  obtain k where k: "scaled k s (ec_enc_normalize s)" using normalize_core [OF assms(1) ok] by auto
  have "raw_agree B (ec_enc_normalize s) = raw_agree B s"
    using k same_raw_val [of s "ec_enc_normalize s"] by (simp add: scaled_def raw_agree_def)
  then show ?thesis
    using assms ok ec_ok_normalize scaled_interval [OF k enc_core_m] by (simp add: fin_def)
qed

lemma fin_narrow: "fin B (narrow t u s) \<Longrightarrow> 0 \<le> t \<Longrightarrow> u \<le> rng s \<Longrightarrow> fin B s"
  using narrow_interval [of B t u s] by (simp add: fin_def raw_agree_def ec_ok_def)

lemma coupled_narrow:
  assumes s: "enc_inv s" and c: "coupled B s d" and tu: "0 \<le> t" "t < u" "u \<le> rng s"
    and f: "in_interval B (narrow t u s)"
  shows "t \<le> val d" "val d < u" "coupled B (narrow t u s) (dec_narrow t u d)"
proof -
  have "raw_coupled B (narrow t u s) (dec_narrow t u d) = raw_coupled B s d"
    by (rule raw_coupled_frame) (simp_all add: same_tail_def dec_narrow_def)
  then show cn: "coupled B (narrow t u s) (dec_narrow t u d)"
    using c by (simp add: coupled_def dec_at_def) (simp add: dec_narrow_def)
  have "0 \<le> val (dec_narrow t u d)" "val (dec_narrow t u d) < rng (dec_narrow t u d)"
    using coupled_val [OF narrow_core [OF s tu] cn] f by simp_all
  then show "t \<le> val d" "val d < u" by (simp_all add: dec_narrow_def)
qed

section \<open>Transmission of a symbol\<close>

text \<open>An encoder step keeps the invariant, and a buffer that fits after it fits before it.\<close>

definition enc_step :: "(ec_ctx \<Rightarrow> ec_ctx) \<Rightarrow> bool" where
  "enc_step enc \<longleftrightarrow> (\<forall>s. ec_ok (enc s) \<longrightarrow> ec_ok s) \<and>
     (\<forall>s. enc_inv s \<longrightarrow> ec_ok (enc s) \<longrightarrow> enc_inv (enc s) \<and> storage (enc s) = storage s) \<and>
     (\<forall>s B. enc_inv s \<longrightarrow> fin B (enc s) \<longrightarrow> fin B s)"

text \<open>\<open>dec\<close> reads back the \<open>x\<close> that \<open>enc\<close> wrote, and both end in coupled states.\<close>

definition transmits :: "(ec_ctx \<Rightarrow> ec_ctx) \<Rightarrow> (ec_ctx \<Rightarrow> 'a \<times> ec_ctx) \<Rightarrow> 'a \<Rightarrow> bool" where
  "transmits enc dec x \<longleftrightarrow> enc_step enc \<and>
     (\<forall>B s d. enc_inv s \<longrightarrow> coupled B s d \<longrightarrow> fin B (enc s) \<longrightarrow>
        fst (dec d) = x \<and> coupled B (enc s) (snd (dec d)))"

lemma transmitsD:
  assumes "transmits enc dec x" "enc_inv s" "coupled B s d" "fin B (enc s)"
  shows "fst (dec d) = x" "coupled B (enc s) (snd (dec d))" "fin B s" "enc_inv (enc s)"
  using assms unfolding transmits_def enc_step_def fin_def by blast+

lemma transmits_step: "transmits enc dec x \<Longrightarrow> enc_step enc"
  by (simp add: transmits_def)

lemma enc_step_id: "enc_step (\<lambda>s. s)"
  by (simp add: enc_step_def)

lemma enc_step_comp:
  assumes "enc_step f" "enc_step g"
  shows "enc_step (\<lambda>s. g (f s))"
  using assms unfolding enc_step_def fin_def by metis

lemma enc_step_fold: "(\<And>x. x \<in> set xs \<Longrightarrow> enc_step (f x)) \<Longrightarrow> enc_step (fold f xs)"
proof (induction xs)
  case (Cons x xs)
  then show ?case using enc_step_comp [of "f x" "fold f xs"] by (simp add: comp_def)
qed (simp add: id_def enc_step_id)

lemma transmits_return: "transmits (\<lambda>s. s) (\<lambda>d. (x, d)) x"
  by (simp add: transmits_def enc_step_id)

text \<open>Two symbols in a row; what is read second may depend on what was read first.\<close>

lemma transmits_bind:
  assumes f: "transmits enc1 dec1 x" and g: "transmits enc2 (dec2 x) y"
  shows "transmits (\<lambda>s. enc2 (enc1 s)) (\<lambda>d. case dec1 d of (a, d') \<Rightarrow> dec2 a d') y"
  unfolding transmits_def
proof (intro conjI allI impI)
  show "enc_step (\<lambda>s. enc2 (enc1 s))"
    by (rule enc_step_comp [OF transmits_step [OF f] transmits_step [OF g]])
  fix B s d
  assume s: "enc_inv s" and c: "coupled B s d" and fin: "fin B (enc2 (enc1 s))"
  have e: "enc_step enc1" "enc_step enc2" using f g by (simp_all add: transmits_def)
  then have "ec_ok (enc1 s)" using fin unfolding enc_step_def fin_def by blast
  then have i: "enc_inv (enc1 s)" using e(1) s unfolding enc_step_def by blast
  then have "fin B (enc1 s)" using e(2) fin unfolding enc_step_def by blast
  note 1 = transmitsD [OF f s c this]
  note 2 = transmitsD [OF g i 1(2) fin]
  obtain d' where "dec1 d = (x, d')" using 1(1) by (cases "dec1 d") auto
  then show "fst (case dec1 d of (a, d') \<Rightarrow> dec2 a d') = y"
    "coupled B (enc2 (enc1 s)) (snd (case dec1 d of (a, d') \<Rightarrow> dec2 a d'))"
    using 2 by simp_all
qed

lemma transmits_map:
  "transmits enc dec x \<Longrightarrow> y = f x \<Longrightarrow> transmits enc (\<lambda>d. case dec d of (a, d') \<Rightarrow> (f a, d')) y"
  by (auto simp: transmits_def split: prod.splits)
     (metis fst_conv snd_conv)+

lemma transmits_cong:
  "transmits enc dec x \<Longrightarrow> (\<And>s. enc' s = enc s) \<Longrightarrow> (\<And>d. dec' d = dec d) \<Longrightarrow> transmits enc' dec' x"
  by (simp add: transmits_def enc_step_def)

section \<open>Range-coded symbols\<close>

text \<open>
  The pattern of all range-coded symbols.  On a normalised state the encoder narrows the interval
  to \<open>[t, u)\<close>, and the decoder finds \<open>x\<close> and narrows likewise.
\<close>

lemma enc_step_narrow:
  assumes f: "\<And>s. nbits_total (f s) = nbits_total s" "\<And>s. error (f s) = error s"
    and nw: "\<And>s. enc_inv s \<Longrightarrow> \<exists>t u. 0 \<le> t \<and> t < u \<and> u \<le> rng s \<and> f s = narrow t u s"
  shows "enc_step (\<lambda>s. ec_enc_normalize (f s))"
  unfolding enc_step_def
proof (intro conjI allI impI)
  fix s
  show "ec_ok s" if "ec_ok (ec_enc_normalize (f s))"
    using ec_ok_normalize [OF that] f by (simp add: ec_ok_def)
  assume s: "enc_inv s"
  then obtain t u where tu: "0 \<le> t" "t < u" "u \<le> rng s" "f s = narrow t u s" using nw by blast
  have core: "enc_core (f s)" using narrow_core [OF s tu(1-3)] tu(4) by simp
  show "enc_inv (ec_enc_normalize (f s))" if "ec_ok (ec_enc_normalize (f s))"
    using normalize_core [OF core that] by simp
  show "storage (ec_enc_normalize (f s)) = storage s" if ok: "ec_ok (ec_enc_normalize (f s))"
  proof -
    obtain k where "scaled k (f s) (ec_enc_normalize (f s))" using normalize_core [OF core ok] by auto
    then show ?thesis using tu(4) by (simp add: scaled_def same_raw_def)
  qed
  show "fin B s" if "fin B (ec_enc_normalize (f s))" for B
    using fin_normalize [OF core that] fin_narrow tu by simp
qed

lemma coupled_narrow_normalize:
  assumes s: "enc_inv s" and c: "coupled B s d" and tu: "0 \<le> t" "t < u" "u \<le> rng s"
    and f: "fin B (ec_enc_normalize (narrow t u s))"
  shows "t \<le> val d" "val d < u"
    "coupled B (ec_enc_normalize (narrow t u s)) (ec_dec_normalize (dec_narrow t u d))"
proof -
  have core: "enc_core (narrow t u s)" by (rule narrow_core [OF s tu])
  have i: "in_interval B (narrow t u s)" using fin_normalize [OF core f] by (simp add: fin_def)
  note n = coupled_narrow [OF s c tu i]
  then show "t \<le> val d" "val d < u" by simp_all
  show "coupled B (ec_enc_normalize (narrow t u s)) (ec_dec_normalize (dec_narrow t u d))"
    using coupled_normalize [OF core _ _ i n(3)] f by (simp add: fin_def)
qed

text \<open>\<open>ext\<close> is scratch space of the decoder, written by \<open>ec_decode\<close>.\<close>

lemma coupled_ext [simp]: "coupled B s (d\<lparr>ext := e\<rparr>) = coupled B s d"
  by (simp add: coupled_def dec_at_def raw_coupled_def)

lemma transmits_narrow:
  assumes f: "\<And>s. nbits_total (f s) = nbits_total s" "\<And>s. error (f s) = error s"
    and nw: "\<And>s. enc_inv s \<Longrightarrow> \<exists>t u. 0 \<le> t \<and> t < u \<and> u \<le> rng s \<and> f s = narrow t u s \<and>
      (\<forall>d. rng d = rng s \<longrightarrow> t \<le> val d \<longrightarrow> val d < u \<longrightarrow>
        (\<exists>e. dec d = (x, ec_dec_normalize (dec_narrow t u (d\<lparr>ext := e\<rparr>)))))"
  shows "transmits (\<lambda>s. ec_enc_normalize (f s)) dec x"
  unfolding transmits_def
proof (intro conjI allI impI)
  show "enc_step (\<lambda>s. ec_enc_normalize (f s))"
    using f nw by (intro enc_step_narrow) blast+
  fix B s d
  assume s: "enc_inv s" and c: "coupled B s d" and fin: "fin B (ec_enc_normalize (f s))"
  obtain t u where tu: "0 \<le> t" "t < u" "u \<le> rng s" "f s = narrow t u s"
    and d: "\<And>d. rng d = rng s \<Longrightarrow> t \<le> val d \<Longrightarrow> val d < u \<Longrightarrow>
      \<exists>e. dec d = (x, ec_dec_normalize (dec_narrow t u (d\<lparr>ext := e\<rparr>)))"
    using nw [OF s] by blast
  have "coupled B s (d\<lparr>ext := e\<rparr>)" for e using c by simp
  note n = coupled_narrow_normalize [OF s this tu(1-3) fin [unfolded tu(4)]]
  obtain e where "dec d = (x, ec_dec_normalize (dec_narrow t u (d\<lparr>ext := e\<rparr>)))"
    using d [of d] n(1,2) c by (auto simp: coupled_def)
  then show "fst (dec d) = x" "coupled B (ec_enc_normalize (f s)) (snd (dec d))"
    using n(3) tu(4) by simp_all
qed

lemma enc_invD:
  assumes "enc_inv s"
  shows "8388608 < rng s" "rng s \<le> 2147483648" "0 \<le> val s" "val s + rng s < 4294967296"
  using assms by (simp_all add: enc_inv_def enc_core_def)

text \<open>Frequencies scaled by the quotient \<open>r\<close> lie inside the interval.\<close>

lemma scaled_freq:
  fixes r ft :: int
  assumes "0 \<le> fl" "fl < fh" "fh \<le> ft" "0 < r" "r * ft \<le> rg"
  shows "0 \<le> r * (ft - fh)" "r * (ft - fh) < r * (ft - fl)" "r * (ft - fl) \<le> rg"
    "r * (ft - fh) < rg"
proof -
  show a: "0 \<le> r * (ft - fh)" "r * (ft - fh) < r * (ft - fl)"
    using assms by simp_all
  have "r * (ft - fl) \<le> r * ft" using assms by (intro mult_left_mono) simp_all
  then show "r * (ft - fl) \<le> rg" "r * (ft - fh) < rg" using a assms by linarith+
qed

text \<open>The ends of the sub-interval of a symbol with cumulative frequencies \<open>fl\<close> and \<open>fh\<close>.\<close>

definition freq_t :: "int \<Rightarrow> int \<Rightarrow> int \<Rightarrow> int" where
  "freq_t r fh ft = r * (ft - fh)"

definition freq_u :: "int \<Rightarrow> int \<Rightarrow> int \<Rightarrow> int \<Rightarrow> int" where
  "freq_u rg r fl ft = (if fl > 0 then r * (ft - fl) else rg)"

lemma freq_bounds:
  assumes "0 \<le> fl" "fl < fh" "fh \<le> ft" "0 < r" "r * ft \<le> rg"
  shows "0 \<le> freq_t r fh ft" "freq_t r fh ft < freq_u rg r fl ft" "freq_u rg r fl ft \<le> rg"
  using scaled_freq [OF assms] by (simp_all add: freq_t_def freq_u_def)

lemma enc_freq_narrow:
  assumes s: "enc_inv s" and f: "0 \<le> fl" "fl < fh" "fh \<le> ft" "0 < r" "r * ft \<le> rng s"
  shows "(if fl > 0 then
       s\<lparr>val := u32 (val s + (rng s - u32 (r * (ft - fl)))), rng := u32 (r * (fh - fl))\<rparr>
     else s\<lparr>rng := u32 (rng s - u32 (r * (ft - fh)))\<rparr>)
    = narrow (freq_t r fh ft) (freq_u (rng s) r fl ft) s"
proof -
  note b = scaled_freq [OF f] and v = enc_invD [OF s]
  have "r * (fh - fl) = r * (ft - fl) - r * (ft - fh)" by (simp add: algebra_simps)
  then show ?thesis using b v by (auto simp: narrow_def freq_t_def freq_u_def)
qed

lemma dec_freq_narrow:
  assumes f: "0 \<le> fl" "fl < fh" "fh \<le> ft" "0 < r" "r * ft \<le> rng d" "rng d \<le> 2147483648"
    and e: "ext d = r" and v: "freq_t r fh ft \<le> val d" "val d < freq_u (rng d) r fl ft"
  shows "ec_dec_update fl fh ft d = ec_dec_normalize (dec_narrow (freq_t r fh ft) (freq_u (rng d) r fl ft) d)"
proof -
  note b = scaled_freq [OF f(1-5)]
  have "r * (fh - fl) = r * (ft - fl) - r * (ft - fh)" by (simp add: algebra_simps)
  then show ?thesis
    using b v e f(6) by (auto simp: ec_dec_update_def Let_def dec_narrow_def freq_t_def freq_u_def)
qed

text \<open>The quotient computed by \<open>ec_decode\<close> falls into the symbol's frequency interval.\<close>

lemma decode_quotient:
  fixes r ft v :: int
  assumes f: "0 \<le> fl" "fl < fh" "fh \<le> ft" "ft \<le> 8388608" "0 < r" "r * ft \<le> rg" "rg \<le> 2147483648"
    and v: "freq_t r fh ft \<le> v" "v < freq_u rg r fl ft"
  defines "k \<equiv> u32 (ft - EC_MINI (u32 (v div r + 1)) ft)"
  shows "fl \<le> k" "k < fh"
proof -
  note b = scaled_freq [OF f(1-3,5,6)]
  have v0: "0 \<le> v" using v(1) b by (simp add: freq_t_def)
  have q: "ft - fh \<le> v div r" using v(1) f(5) by (simp add: freq_t_def int_le_div_iff mult.commute)
  have q': "fl > 0 \<Longrightarrow> v div r < ft - fl"
    using v(2) f(5) by (simp add: freq_u_def int_div_less_iff mult.commute)
  have "v < 2147483648" using v(2) b f(7) by (auto simp: freq_u_def split: if_splits)
  then have lt: "v div r < 2147483648" using v0 f(5) zdiv_mono2 [of v 1 r] by simp
  have ge: "0 \<le> v div r" using v0 f(5) by (simp add: pos_imp_zdiv_nonneg_iff)
  then have u: "u32 (v div r + 1) = v div r + 1" using lt by simp
  have k: "k = ft - min (v div r + 1) ft"
    using f ge lt unfolding k_def u by (simp add: EC_MINI_min min_def)
  show "fl \<le> k" using q' f by (cases "fl > 0") (auto simp: k)
  show "k < fh" using q f by (auto simp: k)
qed

text \<open>
  \<open>ec_encode\<close> with \<open>ec_decode\<close> and \<open>ec_encode_bin\<close> with \<open>ec_decode_bin\<close>: the decoder maps the
  value it gets to the symbol's frequencies with \<open>look\<close>.
\<close>

lemma transmits_freq:
  assumes f: "0 \<le> fl" "fl < fh" "fh \<le> ft" "ft \<le> 8388608"
    and l: "\<And>k. fl \<le> k \<Longrightarrow> k < fh \<Longrightarrow> look k = (fl, fh, x)"
    and D: "\<And>d. D d = (u32 (ft - EC_MINI (u32 (val d div (rng d div ft) + 1)) ft),
      d\<lparr>ext := rng d div ft\<rparr>)"
  shows "transmits (\<lambda>s. ec_enc_normalize
        (if fl > 0 then
           s\<lparr>val := u32 (val s + (rng s - u32 (rng s div ft * (ft - fl)))),
             rng := u32 (rng s div ft * (fh - fl))\<rparr>
         else s\<lparr>rng := u32 (rng s - u32 (rng s div ft * (ft - fh)))\<rparr>))
    (\<lambda>d. case D d of (k, d) \<Rightarrow> case look k of (fl, fh, x) \<Rightarrow> (x, ec_dec_update fl fh ft d)) x"
proof (rule transmits_narrow, simp, simp)
  fix s assume s: "enc_inv s"
  define r where "r = rng s div ft"
  note v = enc_invD [OF s]
  have r: "0 < r" "r * ft \<le> rng s"
    using v f int_le_div_iff [of ft 1 "rng s"] int_le_div_iff [of ft r "rng s"]
    by (simp_all add: r_def)
  let ?t = "freq_t r fh ft" and ?u = "freq_u (rng s) r fl ft"
  have d: "\<exists>e. (case D d of (k, d) \<Rightarrow> case look k of (fl, fh, x) \<Rightarrow> (x, ec_dec_update fl fh ft d))
      = (x, ec_dec_normalize (dec_narrow ?t ?u (d\<lparr>ext := e\<rparr>)))"
    if d: "rng d = rng s" "?t \<le> val d" "val d < ?u" for d
  proof -
    have k: "fl \<le> fst (D d)" "fst (D d) < fh"
      using decode_quotient [OF f r v(2) d(2,3)] d(1) by (simp_all add: D r_def)
    have "ec_dec_update fl fh ft (d\<lparr>ext := r\<rparr>)
        = ec_dec_normalize (dec_narrow ?t ?u (d\<lparr>ext := r\<rparr>))"
      using dec_freq_narrow [of fl fh ft r "d\<lparr>ext := r\<rparr>"] f r v d by simp
    moreover have "D d = (fst (D d), d\<lparr>ext := r\<rparr>)" using d(1) by (simp add: D r_def)
    ultimately show ?thesis using l [OF k] by (auto split: prod.splits)
  qed
  show "\<exists>t u. 0 \<le> t \<and> t < u \<and> u \<le> rng s \<and>
      (if fl > 0 then
         s\<lparr>val := u32 (val s + (rng s - u32 (rng s div ft * (ft - fl)))),
           rng := u32 (rng s div ft * (fh - fl))\<rparr>
       else s\<lparr>rng := u32 (rng s - u32 (rng s div ft * (ft - fh)))\<rparr>) = narrow t u s \<and>
      (\<forall>d. rng d = rng s \<longrightarrow> t \<le> val d \<longrightarrow> val d < u \<longrightarrow>
        (\<exists>e. (case D d of (k, d) \<Rightarrow> case look k of (fl, fh, x) \<Rightarrow> (x, ec_dec_update fl fh ft d))
          = (x, ec_dec_normalize (dec_narrow t u (d\<lparr>ext := e\<rparr>)))))"
    using freq_bounds [OF f(1-3) r] enc_freq_narrow [OF s f(1-3) r] d unfolding r_def by blast
qed

lemma transmits_ec_encode:
  assumes "0 \<le> fl" "fl < fh" "fh \<le> ft" "ft \<le> 8388608"
    and "\<And>k. fl \<le> k \<Longrightarrow> k < fh \<Longrightarrow> look k = (fl, fh, x)"
  shows "transmits (ec_encode fl fh ft)
    (\<lambda>d. case ec_decode ft d of (k, d) \<Rightarrow> case look k of (fl, fh, x) \<Rightarrow> (x, ec_dec_update fl fh ft d)) x"
  by (rule transmits_cong [OF transmits_freq [OF assms, where D = "ec_decode ft"]])
    (simp_all add: ec_encode_def ec_decode_def Let_def celt_udiv_def)

lemma transmits_ec_encode_bin:
  assumes "0 \<le> bits" "bits \<le> 23" "0 \<le> fl" "fl < fh" "fh \<le> 2 ^ nat bits"
    and "\<And>k. fl \<le> k \<Longrightarrow> k < fh \<Longrightarrow> look k = (fl, fh, x)"
  shows "transmits (ec_encode_bin fl fh bits)
    (\<lambda>d. case ec_decode_bin bits d of (k, d) \<Rightarrow> case look k of (fl, fh, x) \<Rightarrow>
      (x, ec_dec_update fl fh (2 ^ nat bits) d)) x"
proof -
  have ft: "(2::int) ^ nat bits \<le> 2 ^ 23" using assms by (intro power_increasing) auto
  then have u: "u32 (2 ^ nat bits) = 2 ^ nat bits" by simp
  show ?thesis
    by (rule transmits_cong [OF transmits_freq [OF assms(3-5) _ assms(6), where D = "ec_decode_bin bits"]])
      (use ft u in \<open>simp_all add: ec_encode_bin_def ec_decode_bin_def Let_def shift_arith\<close>)
qed

lemma transmits_bit_logp:
  assumes "1 \<le> logp" "logp \<le> 23"
  shows "transmits (ec_enc_bit_logp v logp) (ec_dec_bit_logp logp) (cbool (v \<noteq> 0))"
proof -
  have "(2::int) ^ nat logp \<le> 2 ^ 23" using assms by (intro power_increasing) auto
  moreover have "(1::int) < 2 ^ nat logp" using assms by (intro one_less_power) auto
  ultimately have p: "(2::int) ^ nat logp \<le> 8388608" "(1::int) < 2 ^ nat logp" by simp_all
  let ?f = "\<lambda>s. if v \<noteq> 0 then s\<lparr>val := u32 (val s + u32 (rng s - rng s div 2 ^ nat logp)),
      rng := rng s div 2 ^ nat logp\<rparr> else s\<lparr>rng := u32 (rng s - rng s div 2 ^ nat logp)\<rparr>"
  have "transmits (\<lambda>s. ec_enc_normalize (?f s)) (ec_dec_bit_logp logp) (cbool (v \<noteq> 0))"
  proof (rule transmits_narrow, simp, simp)
    fix s assume s: "enc_inv s"
    define q where "q = rng s div 2 ^ nat logp"
    note b = enc_invD [OF s]
    have q: "0 < q" using p b int_le_div_iff [of "2 ^ nat logp" 1 "rng s"] by (simp add: q_def)
    have "rng s * 1 < rng s * 2 ^ nat logp" using p b by (intro mult_strict_left_mono) simp_all
    then have q': "q < rng s" unfolding q_def using p by (subst int_div_less_iff) simp_all
    let ?t = "if v \<noteq> 0 then 0 else q" and ?u = "if v \<noteq> 0 then q else rng s"
    have "?f s = narrow ?t ?u s"
      using b q q' by (simp add: narrow_def q_def [symmetric])
    moreover have "ec_dec_bit_logp logp d =
        (cbool (v \<noteq> 0), ec_dec_normalize (dec_narrow ?t ?u (d\<lparr>ext := ext d\<rparr>)))"
      if "rng d = rng s" "?t \<le> val d" "val d < ?u" for d
      using that b q q' by (simp add: ec_dec_bit_logp_def Let_def dec_narrow_def shift_arith
          q_def [symmetric] cbool_def split: if_splits)
    moreover have "0 \<le> ?t" "?t < ?u" "?u \<le> rng s" using q q' by simp_all
    ultimately show "\<exists>t u. 0 \<le> t \<and> t < u \<and> u \<le> rng s \<and> ?f s = narrow t u s \<and>
      (\<forall>d. rng d = rng s \<longrightarrow> t \<le> val d \<longrightarrow> val d < u \<longrightarrow>
        (\<exists>e. ec_dec_bit_logp logp d
          = (cbool (v \<noteq> 0), ec_dec_normalize (dec_narrow t u (d\<lparr>ext := e\<rparr>)))))"
      by blast
  qed
  then show ?thesis
    by (rule transmits_cong) (simp_all add: ec_enc_bit_logp_def Let_def shift_arith)
qed

section \<open>Symbols from inverse cumulative tables\<close>

text \<open>
  \<open>icdf_sym icdf ftb k\<close>: the table \<open>icdf\<close> is non-increasing, its entries are at most \<open>2\<^bsup>ftb\<^esup>\<close>,
  and its symbol \<open>k\<close> has a non-zero probability.
\<close>

definition icdf_top :: "int list \<Rightarrow> int \<Rightarrow> int \<Rightarrow> int" where
  "icdf_top icdf ftb k = (if k > 0 then icdf ! nat (k - 1) else 2 ^ nat ftb)"

definition icdf_sym :: "int list \<Rightarrow> int \<Rightarrow> int \<Rightarrow> bool" where
  "icdf_sym icdf ftb k \<longleftrightarrow> 0 \<le> k \<and> nat k < length icdf \<and> sorted (rev icdf)
     \<and> list_all (\<lambda>f. 0 \<le> f \<and> f \<le> 2 ^ nat ftb) icdf \<and> icdf ! nat k < icdf_top icdf ftb k"

lemma sorted_rev_nth_mono: "sorted (rev xs) \<Longrightarrow> i \<le> j \<Longrightarrow> j < length xs \<Longrightarrow> xs ! j \<le> xs ! i"
proof -
  assume "sorted (rev xs)" "i \<le> j" "j < length xs"
  then have "rev xs ! (length xs - Suc j) \<le> rev xs ! (length xs - Suc i)"
    by (intro sorted_nth_mono) auto
  then show ?thesis using \<open>i \<le> j\<close> \<open>j < length xs\<close> by (simp add: rev_nth)
qed

lemma icdf_loop:
  assumes "j < length fs" "\<And>i. i < j \<Longrightarrow> d < u32 (r * fs ! i)" "u32 (r * fs ! j) \<le> d"
  shows "ec_dec_icdf_loop r d fs ret s =
    (ret + 1 + int j, (if j = 0 then s else u32 (r * fs ! (j - 1))), u32 (r * fs ! j))"
  using assms
proof (induction fs arbitrary: j ret s)
  case (Cons f fs)
  show ?case
  proof (cases j)
    case (Suc i)
    have "d < u32 (r * f)" using Cons.prems(2) [of 0] Suc by simp
    moreover have "d < u32 (r * fs ! l)" if "l < i" for l using Cons.prems(2) [of "Suc l"] Suc that by simp
    ultimately show ?thesis
      using Cons.IH [of i "ret + 1" "u32 (r * f)"] Cons.prems Suc by (auto simp: nth_Cons')
  qed (use Cons.prems in simp)
qed simp

lemma icdf_bounds:
  assumes k: "icdf_sym icdf ftb k" and r: "0 < r" "r * 2 ^ nat ftb \<le> rg"
  shows "0 \<le> r * icdf ! nat k" "r * icdf ! nat k < (if k > 0 then r * icdf ! nat (k - 1) else rg)"
    "(if k > 0 then r * icdf ! nat (k - 1) else rg) \<le> rg"
    "r * icdf ! i \<le> rg \<or> length icdf \<le> i" "0 \<le> r * icdf ! i \<or> length icdf \<le> i"
proof -
  have e: "0 \<le> icdf ! i" "icdf ! i \<le> 2 ^ nat ftb" if "i < length icdf" for i
    using k that by (simp_all add: icdf_sym_def list_all_length)
  have m: "r * icdf ! i \<le> rg" "0 \<le> r * icdf ! i" if "i < length icdf" for i
  proof -
    have "r * icdf ! i \<le> r * 2 ^ nat ftb" using e(2) [OF that] r by (intro mult_left_mono) simp_all
    then show "r * icdf ! i \<le> rg" using r by linarith
    show "0 \<le> r * icdf ! i" using e(1) [OF that] r by simp
  qed
  have n: "nat k < length icdf" "nat (k - 1) < length icdf" using k by (auto simp: icdf_sym_def)
  show "0 \<le> r * icdf ! nat k" "(if k > 0 then r * icdf ! nat (k - 1) else rg) \<le> rg"
    using m n by simp_all
  have "r * icdf ! nat k < r * icdf_top icdf ftb k"
    using k r by (simp add: icdf_sym_def)
  moreover have "r * icdf_top icdf ftb k \<le> (if k > 0 then r * icdf ! nat (k - 1) else rg)"
    using r(2) by (simp add: icdf_top_def)
  ultimately show "r * icdf ! nat k < (if k > 0 then r * icdf ! nat (k - 1) else rg)"
    by (rule less_le_trans)
  show "r * icdf ! i \<le> rg \<or> length icdf \<le> i" "0 \<le> r * icdf ! i \<or> length icdf \<le> i"
    using m not_le by blast+
qed

lemma dec_icdf_finds:
  assumes k: "icdf_sym icdf ftb k" and r: "0 < r" "r * 2 ^ nat ftb \<le> rg" "rg \<le> 2147483648"
    and v: "r * icdf ! nat k \<le> v" "v < (if k > 0 then r * icdf ! nat (k - 1) else rg)"
  shows "ec_dec_icdf_loop r v icdf (- 1) rg =
    (k, (if k > 0 then r * icdf ! nat (k - 1) else rg), r * icdf ! nat k)"
proof -
  note b = icdf_bounds [OF k r(1,2)]
  have u: "u32 (r * icdf ! i) = r * icdf ! i" if "i < length icdf" for i
    using b(4,5) [of i] that r(3) by simp
  have n: "nat k < length icdf" "0 \<le> k" "sorted (rev icdf)" using k by (simp_all add: icdf_sym_def)
  have "v < u32 (r * icdf ! i)" if i: "i < nat k" for i
  proof -
    have "icdf ! nat (k - 1) \<le> icdf ! i"
      using sorted_rev_nth_mono [OF n(3), of i "nat (k - 1)"] i n by simp
    then have "r * icdf ! nat (k - 1) \<le> r * icdf ! i" using r by (simp add: mult_left_mono)
    moreover have "0 < k" using i by simp
    ultimately show ?thesis using v(2) u [of i] i n by simp
  qed
  from icdf_loop [OF n(1) this] v(1) u [OF n(1)]
  have "ec_dec_icdf_loop r v icdf (- 1) rg = (- 1 + 1 + int (nat k),
      (if nat k = 0 then rg else u32 (r * icdf ! (nat k - 1))), u32 (r * icdf ! nat k))"
    by simp
  moreover have "nat k - 1 = nat (k - 1)" using n(2) by simp
  ultimately show ?thesis using n u by auto
qed

lemma enc_icdf_narrow:
  assumes s: "enc_inv s" and k: "icdf_sym icdf ftb k" and r: "0 < r" "r * 2 ^ nat ftb \<le> rng s"
  shows "(if k > 0 then
       s\<lparr>val := u32 (val s + (rng s - u32 (r * icdf ! nat (k - 1)))),
         rng := u32 (r * (icdf ! nat (k - 1) - icdf ! nat k))\<rparr>
     else s\<lparr>rng := u32 (rng s - u32 (r * icdf ! nat k))\<rparr>)
    = narrow (r * icdf ! nat k) (if k > 0 then r * icdf ! nat (k - 1) else rng s) s"
proof -
  note b = icdf_bounds(1-3) [OF k r] and v = enc_invD [OF s]
  have "r * (icdf ! nat (k - 1) - icdf ! nat k) = r * icdf ! nat (k - 1) - r * icdf ! nat k"
    by (simp add: algebra_simps)
  then show ?thesis using b v by (cases "k > 0") (simp_all add: narrow_def)
qed

text \<open>Common to \<open>ec_enc_icdf\<close>, \<open>ec_enc_icdf16\<close> and their decoders.\<close>

lemma transmits_icdf_gen:
  assumes k: "icdf_sym icdf ftb k" and ftb: "0 \<le> ftb" "ftb \<le> 23"
    and D: "\<And>d. D d = (let (ret, t, s) = ec_dec_icdf_loop (rng d div 2 ^ nat ftb) (val d) icdf (- 1) (rng d)
      in (ret, ec_dec_normalize (d\<lparr>val := u32 (val d - s), rng := u32 (t - s)\<rparr>)))"
  shows "transmits (\<lambda>s. ec_enc_normalize
        (if k > 0 then
           s\<lparr>val := u32 (val s + (rng s - u32 (rng s div 2 ^ nat ftb * icdf ! nat (k - 1)))),
             rng := u32 (rng s div 2 ^ nat ftb * (icdf ! nat (k - 1) - icdf ! nat k))\<rparr>
         else s\<lparr>rng := u32 (rng s - u32 (rng s div 2 ^ nat ftb * icdf ! nat k))\<rparr>)) D k"
proof (rule transmits_narrow, simp, simp)
  fix s assume s: "enc_inv s"
  define r where "r = rng s div 2 ^ nat ftb"
  note v = enc_invD [OF s]
  have "(2::int) ^ nat ftb \<le> 2 ^ 23" using ftb by (intro power_increasing) auto
  then have r: "0 < r" "r * 2 ^ nat ftb \<le> rng s"
    using v int_le_div_iff [of "2 ^ nat ftb" 1 "rng s"] int_le_div_iff [of "2 ^ nat ftb" r "rng s"]
    by (simp_all add: r_def)
  let ?t = "r * icdf ! nat k" and ?u = "if k > 0 then r * icdf ! nat (k - 1) else rng s"
  note b = icdf_bounds(1-3) [OF k r]
  have "D d = (k, ec_dec_normalize (dec_narrow ?t ?u (d\<lparr>ext := ext d\<rparr>)))"
    if d: "rng d = rng s" "?t \<le> val d" "val d < ?u" for d
  proof -
    have u: "u32 (val d - ?t) = val d - ?t" "u32 (?u - ?t) = ?u - ?t"
      using d b v by (intro u32_id; linarith)+
    show ?thesis
      unfolding D Let_def d(1) r_def [symmetric]
      using dec_icdf_finds [OF k r v(2) d(2,3)] u by (simp add: dec_narrow_def)
  qed
  then show "\<exists>t u. 0 \<le> t \<and> t < u \<and> u \<le> rng s \<and>
      (if k > 0 then
           s\<lparr>val := u32 (val s + (rng s - u32 (rng s div 2 ^ nat ftb * icdf ! nat (k - 1)))),
             rng := u32 (rng s div 2 ^ nat ftb * (icdf ! nat (k - 1) - icdf ! nat k))\<rparr>
         else s\<lparr>rng := u32 (rng s - u32 (rng s div 2 ^ nat ftb * icdf ! nat k))\<rparr>) = narrow t u s \<and>
      (\<forall>d. rng d = rng s \<longrightarrow> t \<le> val d \<longrightarrow> val d < u \<longrightarrow>
        (\<exists>e. D d = (k, ec_dec_normalize (dec_narrow t u (d\<lparr>ext := e\<rparr>)))))"
    using b enc_icdf_narrow [OF s k r] unfolding r_def [symmetric] by blast
qed

lemma transmits_icdf:
  assumes "icdf_sym icdf ftb k" "0 \<le> ftb" "ftb \<le> 23"
  shows "transmits (ec_enc_icdf k icdf ftb) (ec_dec_icdf icdf ftb) k"
    "transmits (ec_enc_icdf16 k icdf ftb) (ec_dec_icdf16 icdf ftb) k"
proof -
  show "transmits (ec_enc_icdf k icdf ftb) (ec_dec_icdf icdf ftb) k"
    by (rule transmits_cong [OF transmits_icdf_gen [OF assms, where D = "ec_dec_icdf icdf ftb"]])
      (simp_all add: ec_enc_icdf_def ec_dec_icdf_def Let_def shift_arith)
  show "transmits (ec_enc_icdf16 k icdf ftb) (ec_dec_icdf16 icdf ftb) k"
    by (rule transmits_cong [OF transmits_icdf_gen [OF assms, where D = "ec_dec_icdf16 icdf ftb"]])
      (simp_all add: ec_enc_icdf16_def ec_dec_icdf16_def Let_def shift_arith)
qed

section \<open>Raw bits\<close>

lemma flush_byte_nbits: "nbits_total (win_state (ec_flush_byte x)) = nbits_total (win_state x)"
  by (cases x) (simp add: ec_flush_byte_def win_state_def)

lemma flush_window_nbits: "nbits_total (win_state (ec_flush_window x)) = nbits_total (win_state x)"
proof (induction x rule: ec_flush_window.induct)
  case (1 s w u)
  then show ?case using flush_byte_nbits by (simp add: ec_flush_window.simps [of s w u])
qed

lemma ec_enc_bits_mono:
  assumes "ec_ok (ec_enc_bits fl bits s)" "0 \<le> bits"
  shows "ec_ok s"
proof -
  have "nbits_total (win_state (bits_window bits s)) = nbits_total s"
    by (simp add: bits_window_def flush_window_nbits flush_byte_nbits win_state_id)
  moreover have "error (win_state (bits_window bits s)) = 0 \<Longrightarrow> error s = 0"
    using flush_window_mono [of "ec_flush_byte (s, end_window s, nend_bits s)"]
      flush_byte_mono [of "(s, end_window s, nend_bits s)"]
    by (auto simp: bits_window_def win_state_id split: if_splits)
  ultimately show ?thesis
    using assms by (cases "bits_window bits s") (simp add: ec_enc_bits_window ec_ok_def win_state_def)
qed

lemma mod_pow_split:
  fixes x :: int
  shows "x mod 2 ^ (a + b) = x mod 2 ^ a + (x div 2 ^ a mod 2 ^ b) * 2 ^ a"
  by (simp add: power_add zmod_zmult2_eq mult.commute)

lemma raw_agree_bits:
  assumes "num256 B mod 2 ^ (n + b) = v + fl * 2 ^ n" "0 \<le> v" "v < 2 ^ n"
  shows "num256 B mod 2 ^ n = v" "num256 B div 2 ^ n mod 2 ^ b = fl"
proof -
  have "num256 B mod 2 ^ (n + b) mod 2 ^ n = num256 B mod 2 ^ n"
    by (simp add: mod_mod_cancel power_add)
  then show m: "num256 B mod 2 ^ n = v" using assms by simp
  then show "num256 B div 2 ^ n mod 2 ^ b = fl"
    using assms(1) by (simp add: mod_pow_split)
qed

lemma raw_bits_nonneg: "enc_inv s \<Longrightarrow> 0 \<le> raw_bits s"
  by (simp add: enc_inv_def enc_core_def enc_shape_def raw_bits_def buf_ok_def raw_ok_def)

lemma fin_bits:
  assumes s: "enc_inv s" and b: "0 \<le> bits" "bits \<le> 25" "0 \<le> fl" "fl < 2 ^ nat bits"
    and f: "fin B (ec_enc_bits fl bits s)"
  shows "fin B s" "num256 B div 2 ^ nat (raw_bits s) mod 2 ^ nat bits = fl"
proof -
  let ?t = "ec_enc_bits fl bits s"
  have ok: "ec_ok ?t" using f by (simp add: fin_def)
  note i = ec_enc_bits_inv [OF s b ok]
  have "nat (raw_bits ?t) = nat (raw_bits s) + nat bits"
    using i(5) raw_bits_nonneg [OF s] b by (simp add: nat_add_distrib)
  then have "num256 B mod 2 ^ (nat (raw_bits s) + nat bits) = raw_val s + fl * 2 ^ nat (raw_bits s)"
    using f i(6) by (simp add: fin_def raw_agree_def)
  moreover have "0 \<le> raw_val s" "raw_val s < 2 ^ nat (raw_bits s)"
    using raw_val_bound s by (simp_all add: enc_inv_def enc_core_def enc_shape_def)
  ultimately have r: "num256 B mod 2 ^ nat (raw_bits s) = raw_val s"
    "num256 B div 2 ^ nat (raw_bits s) mod 2 ^ nat bits = fl"
    by (rule raw_agree_bits)+
  then show "num256 B div 2 ^ nat (raw_bits s) mod 2 ^ nat bits = fl" by simp
  have "in_interval B ?t = in_interval B s" using i by (simp add: in_interval_def)
  then show "fin B s" using f ec_enc_bits_mono [OF ok b(1)] r by (simp add: fin_def raw_agree_def)
qed

lemma enc_step_bits:
  assumes b: "0 \<le> bits" "bits \<le> 25" "0 \<le> fl" "fl < 2 ^ nat bits"
  shows "enc_step (ec_enc_bits fl bits)"
  unfolding enc_step_def
  using ec_enc_bits_mono b(1) ec_enc_bits_inv(1,8) [OF _ b] fin_bits(1) [OF _ b] by blast

lemma byte_from_end:
  assumes "bytes B" "r < length B"
  shows "num256 B div 256 ^ r mod 256 = B ! (length B - 1 - r)"
proof -
  let ?n = "length B - 1 - r"
  have "length (drop (Suc ?n) B) = r" using assms(2) by simp
  then have "num256 B div 256 ^ r = num256 (take (Suc ?n) B)"
    using num256_div_take [OF assms(1), of "Suc ?n"] by simp
  also have "take (Suc ?n) B = take ?n B @ [B ! ?n]" using assms(2) by (intro take_Suc_conv_app_nth) simp
  finally show ?thesis using bytes_nth [OF assms(1), of ?n] assms(2) by (simp add: is_byte_def)
qed

lemma beyond_end: "bytes B \<Longrightarrow> length B \<le> r \<Longrightarrow> num256 B div 256 ^ r = 0"
  using num256_less [of B] num256_nonneg [of B] pow256_mono [of "length B" r]
  by (intro div_pos_pos_trivial) linarith+

text \<open>The decoder's loop state \<open>(d, window, available)\<close> as a decoder state is \<open>win_state\<close> again.\<close>

definition same_range :: "ec_ctx \<Rightarrow> ec_ctx \<Rightarrow> bool" where
  "same_range d e \<longleftrightarrow> buf e = buf d \<and> storage e = storage d \<and> offs e = offs d \<and> rem e = rem d
     \<and> val e = val d \<and> rng e = rng d \<and> nbits_total e = nbits_total d \<and> error e = error d"

lemma same_range_trans: "same_range d e \<Longrightarrow> same_range e f \<Longrightarrow> same_range d f"
  by (simp add: same_range_def)

lemma fill_byte_coupled:
  assumes B: "bytes B" "buf d = B" "storage d = int (length B)" and s: "0 \<le> raw_bits s"
    and c: "raw_coupled B s (win_state (d, w, a))" and a: "a \<le> 24"
  shows "raw_coupled B s (win_state (ec_fill_byte (d, w, a)))"
    "same_range (win_state (d, w, a)) (win_state (ec_fill_byte (d, w, a)))"
    "snd (snd (ec_fill_byte (d, w, a))) = a + 8"
proof -
  have c': "0 \<le> a" "8 dvd raw_bits s + a" "end_offs d = min ((raw_bits s + a) div 8) (int (length B))"
    "w = num256 B div 2 ^ nat (raw_bits s) mod 2 ^ nat a"
    using c by (simp_all add: raw_coupled_def win_state_def)
  define r where "r = nat ((raw_bits s + a) div 8)"
  define x where "x = num256 B div 256 ^ r mod 256"
  have r: "raw_bits s + a = 8 * int r" using c' s by (auto simp: r_def)
  have rd: "ec_read_byte_from_end d = (x, d\<lparr>end_offs := int (min (Suc r) (length B))\<rparr>)"
  proof (cases "r < length B")
    case True
    have "end_offs d = int r" using c'(3) r True by simp
    moreover have "nat (int (length B) - (int r + 1)) = length B - 1 - r" using True by simp
    ultimately show ?thesis
      using True B byte_from_end [OF B(1) True] by (simp add: ec_read_byte_from_end_def x_def)
  next
    case False
    then have e: "end_offs d = int (length B)" using c'(3) r by simp
    moreover have "x = 0" using beyond_end [OF B(1), of r] False by (simp add: x_def)
    ultimately show ?thesis using B False by (simp add: ec_read_byte_from_end_def min_def)
  qed
  have x: "0 \<le> x" "x < 2 ^ 8" by (simp_all add: x_def)
  have w: "0 \<le> w" "w < 2 ^ nat a" by (simp_all add: c'(4))
  have or: "w OR u32 (push_bit (nat a) x) = w + x * 2 ^ nat a"
    using or_shifted_bits(1) [OF w x] a by simp
  have "256 ^ r = (2::int) ^ nat (raw_bits s + a)" by (simp add: r nat_mult_distrib power_mult)
  also have "\<dots> = 2 ^ nat (raw_bits s) * 2 ^ nat a" using s c'(1) by (simp add: nat_add_distrib power_add)
  finally have "num256 B div 256 ^ r = num256 B div 2 ^ nat (raw_bits s) div 2 ^ nat a"
    by (simp add: zdiv_zmult2_eq)
  then have "w + x * 2 ^ nat a = num256 B div 2 ^ nat (raw_bits s) mod 2 ^ (nat a + 8)"
    unfolding mod_pow_split [of _ "nat a" 8] by (simp add: x_def c'(4))
  then have win: "w + x * 2 ^ nat a = num256 B div 2 ^ nat (raw_bits s) mod 2 ^ nat (a + 8)"
    using c'(1) by (simp add: nat_add_distrib)
  have eq: "ec_fill_byte (d, w, a) = (d\<lparr>end_offs := int (min (Suc r) (length B))\<rparr>, w + x * 2 ^ nat a, a + 8)"
    by (simp add: ec_fill_byte_def rd or)
  have "raw_bits s + (a + 8) = 8 * int (Suc r)" using r by simp
  then have r': "8 dvd raw_bits s + (a + 8)" "(raw_bits s + (a + 8)) div 8 = int (Suc r)"
    by (simp_all only: dvd_triv_left) simp
  show "raw_coupled B s (win_state (ec_fill_byte (d, w, a)))"
    unfolding eq raw_coupled_def win_state_def using win c'(1) a r' by simp
  show "same_range (win_state (d, w, a)) (win_state (ec_fill_byte (d, w, a)))"
    "snd (snd (ec_fill_byte (d, w, a))) = a + 8"
    by (simp_all add: eq same_range_def win_state_def)
qed

lemma fill_window_coupled:
  assumes "bytes B" "buf (fst x) = B" "storage (fst x) = int (length B)" "0 \<le> raw_bits s"
    "raw_coupled B s (win_state x)"
  shows "raw_coupled B s (win_state (ec_fill_window x)) \<and>
    same_range (win_state x) (win_state (ec_fill_window x)) \<and> 24 < snd (snd (ec_fill_window x))"
  using assms(2,3,5)
proof (induction x rule: ec_fill_window.induct)
  case (1 d w a)
  show ?case
  proof (cases "a \<le> 24")
    case True
    let ?b = "ec_fill_byte (d, w, a)"
    have eq: "ec_fill_window (d, w, a) = ec_fill_window ?b"
      using True by (simp add: ec_fill_window.simps [of d w a])
    have B: "buf d = B" "storage d = int (length B)" using 1(2,3) by simp_all
    note b = fill_byte_coupled [OF assms(1) B assms(4) 1(4) True]
    have "buf (fst ?b) = B" "storage (fst ?b) = int (length B)"
      using b(2) B by (cases ?b; simp add: same_range_def win_state_def)+
    then show ?thesis using 1(1) b same_range_trans True eq by simp
  next
    case False
    then show ?thesis using 1 by (simp add: ec_fill_window.simps [of d w a] same_range_def)
  qed
qed

definition dec_window :: "int \<Rightarrow> ec_ctx \<Rightarrow> ec_ctx \<times> int \<times> int" where
  "dec_window bits d =
    (if u32 (nend_bits d) < bits then ec_fill_window (ec_fill_byte (d, end_window d, nend_bits d))
     else (d, end_window d, nend_bits d))"

lemma dec_window_coupled:
  assumes B: "bytes B" "buf d = B" "storage d = int (length B)" and s: "0 \<le> raw_bits s"
    and c: "raw_coupled B s d" and b: "bits \<le> 25"
  shows "raw_coupled B s (win_state (dec_window bits d)) \<and>
    same_range d (win_state (dec_window bits d)) \<and> bits \<le> snd (snd (dec_window bits d))"
proof -
  have n: "0 \<le> nend_bits d" "nend_bits d \<le> 32" using c by (simp_all add: raw_coupled_def)
  show ?thesis
  proof (cases "nend_bits d < bits")
    case True
    let ?x = "(d, end_window d, nend_bits d)"
    have eq: "dec_window bits d = ec_fill_window (ec_fill_byte ?x)"
      using True n by (simp add: dec_window_def)
    have c': "raw_coupled B s (win_state ?x)" using c by (simp add: win_state_id)
    have "nend_bits d \<le> 24" using True b by simp
    note f = fill_byte_coupled [OF B s c' this]
    have "buf (fst (ec_fill_byte ?x)) = B" "storage (fst (ec_fill_byte ?x)) = int (length B)"
      using f(2) B by (cases "ec_fill_byte ?x"; simp add: same_range_def win_state_def)+
    then show ?thesis
      using fill_window_coupled [OF B(1) _ _ s f(1)] same_range_trans f(2) b
      unfolding eq win_state_id by fastforce
  next
    case False
    then have "dec_window bits d = (d, end_window d, nend_bits d)"
      using n by (simp add: dec_window_def)
    then show ?thesis using c False by (simp add: win_state_id same_range_def)
  qed
qed

lemma mod_div_pow:
  fixes x :: int
  assumes "b \<le> a"
  shows "x mod 2 ^ a mod 2 ^ b = x mod 2 ^ b" "x mod 2 ^ a div 2 ^ b = x div 2 ^ b mod 2 ^ (a - b)"
proof -
  show "x mod 2 ^ a mod 2 ^ b = x mod 2 ^ b"
    using assms by (simp add: mod_mod_cancel le_imp_power_dvd)
  have "x mod 2 ^ a = x mod 2 ^ b + (x div 2 ^ b mod 2 ^ (a - b)) * 2 ^ b"
    using mod_pow_split [of x b "a - b"] assms by simp
  then show "x mod 2 ^ a div 2 ^ b = x div 2 ^ b mod 2 ^ (a - b)" by simp
qed

lemma dec_bits_coupled:
  assumes B: "bytes B" "buf d = B" "storage d = int (length B)" and s: "0 \<le> raw_bits s"
    and c: "raw_coupled B s d" and b: "0 \<le> bits" "bits \<le> 25"
    and t: "raw_bits t = raw_bits s + bits"
  defines "d' \<equiv> snd (ec_dec_bits bits d)"
  shows "fst (ec_dec_bits bits d) = num256 B div 2 ^ nat (raw_bits s) mod 2 ^ nat bits"
    "raw_coupled B t d'" "nbits_total d' = nbits_total d + bits"
    "same_range d (d'\<lparr>nbits_total := nbits_total d\<rparr>)"
proof -
  obtain e w a where x: "dec_window bits d = (e, w, a)" by (cases "dec_window bits d")
  have "(2::int) ^ nat bits \<le> 2 ^ 25" using b by (intro power_increasing) auto
  then have "u32 (2 ^ nat bits) = 2 ^ nat bits" by simp
  then have D: "ec_dec_bits bits d = (w mod 2 ^ nat bits, e\<lparr>end_window := w div 2 ^ nat bits,
      nend_bits := a - bits, nbits_total := nbits_total e + bits\<rparr>)"
    using x by (simp add: ec_dec_bits_def dec_window_def Let_def shift_arith and_mask_mod)
  have w: "raw_coupled B s (win_state (e, w, a))" "same_range d (win_state (e, w, a))" "bits \<le> a"
    using dec_window_coupled [OF B s c b(2)] x by simp_all
  have a: "0 \<le> a" "a \<le> 32" "8 dvd raw_bits s + a"
    "end_offs e = min ((raw_bits s + a) div 8) (int (length B))"
    "w = num256 B div 2 ^ nat (raw_bits s) mod 2 ^ nat a"
    using w(1) by (simp_all add: raw_coupled_def win_state_def)
  have le: "nat bits \<le> nat a" "nat a - nat bits = nat (a - bits)" using w(3) b by (simp_all add: nat_diff_distrib)
  show "fst (ec_dec_bits bits d) = num256 B div 2 ^ nat (raw_bits s) mod 2 ^ nat bits"
    using mod_div_pow(1) [OF le(1)] by (simp add: D a(5))
  have "nat (raw_bits t) = nat (raw_bits s) + nat bits" using s b by (simp add: t nat_add_distrib)
  then have "num256 B div 2 ^ nat (raw_bits t) = num256 B div 2 ^ nat (raw_bits s) div 2 ^ nat bits"
    by (simp add: power_add zdiv_zmult2_eq)
  then have "w div 2 ^ nat bits = num256 B div 2 ^ nat (raw_bits t) mod 2 ^ nat (a - bits)"
    using mod_div_pow(2) [OF le(1)] by (simp add: a(5) le(2))
  then show "raw_coupled B t d'"
    using a(1-4) b w(3) by (simp add: d'_def D raw_coupled_def t)
  show "nbits_total d' = nbits_total d + bits"
    "same_range d (d'\<lparr>nbits_total := nbits_total d\<rparr>)"
    using w(2) by (simp_all add: d'_def D same_range_def win_state_def)
qed

lemma transmits_bits:
  assumes b: "0 \<le> bits" "bits \<le> 25" "0 \<le> fl" "fl < 2 ^ nat bits"
  shows "transmits (ec_enc_bits fl bits) (ec_dec_bits bits) fl"
  unfolding transmits_def
proof (intro conjI allI impI)
  show "enc_step (ec_enc_bits fl bits)" by (rule enc_step_bits [OF b])
  fix B s d
  assume s: "enc_inv s" and c: "coupled B s d" and f: "fin B (ec_enc_bits fl bits s)"
  let ?t = "ec_enc_bits fl bits s"
  have ok: "ec_ok ?t" "bytes B" using f by (simp_all add: fin_def)
  note i = ec_enc_bits_inv [OF s b ok(1)]
  have c': "buf d = B" "storage d = int (length B)" "raw_coupled B s d"
    using c by (simp_all add: coupled_def dec_at_def)
  note r = dec_bits_coupled [OF ok(2) c'(1,2) raw_bits_nonneg [OF s] c'(3) b(1,2) i(5)]
  show "fst (ec_dec_bits bits d) = fl" using r(1) fin_bits(2) [OF s b f] by simp
  show "coupled B ?t (snd (ec_dec_bits bits d))"
    using c r(2,3,4) i by (simp add: coupled_def dec_at_def same_range_def)
qed

section \<open>Uniform integers\<close>

lemma transmits_post:
  assumes "transmits enc dec x" "\<And>d. g (x, d) = (y, d)"
  shows "transmits enc (\<lambda>d. g (dec d)) y"
proof -
  have "g (dec d) = (y, snd (dec d))" if "fst (dec d) = x" for d
    using assms(2) [of "snd (dec d)"] that by (metis prod.collapse)
  then show ?thesis using assms(1) by (simp add: transmits_def)
qed

lemma transmits_encode_uniform:
  assumes "0 \<le> k" "k < ft" "ft \<le> 8388608"
  shows "transmits (ec_encode k (k + 1) ft)
    (\<lambda>d. case ec_decode ft d of (k, d) \<Rightarrow> (k, ec_dec_update k (k + 1) ft d)) k"
  by (rule transmits_cong [OF transmits_ec_encode [where look = "\<lambda>k. (k, k + 1, k)"]])
    (use assms in auto)

lemma transmits_uint:
  assumes fl: "0 \<le> fl" "fl < ft" and ft: "1 < ft" "ft < 4294967296"
  shows "transmits (ec_enc_uint fl ft) (ec_dec_uint ft) fl"
proof -
  define L where "L = ec_ilog (ft - 1)"
  have L: "ft - 1 < 2 ^ nat L" "1 \<le> L" "L \<le> 32"
    using ec_ilog_bounds [of "ft - 1"] ft by (simp_all add: L_def)
  have u: "u32 (ft - 1) = ft - 1" using ft by simp
  show ?thesis
  proof (cases "L > 8")
    case False
    have "(2::int) ^ nat L \<le> 2 ^ 8" using False L by (intro power_increasing) auto
    then have "ft \<le> 8388608" using L by simp
    from transmits_encode_uniform [OF fl this] show ?thesis
      by (rule transmits_cong)
        (use False ft in \<open>simp_all add: ec_enc_uint_def ec_dec_uint_def Let_def u L_def [symmetric]\<close>)
  next
    case True
    define n h lo where "n = nat (L - 8)" and "h = fl div 2 ^ n" and "lo = fl mod 2 ^ n"
    have n: "1 \<le> n" "n \<le> 24" "nat L = 8 + n" using True L by (simp_all add: n_def)
    have flh: "fl = h * 2 ^ n + lo" unfolding h_def lo_def by (rule div_mult_mod_eq [symmetric])
    have lo: "0 \<le> lo" "lo < 2 ^ n" and h0: "0 \<le> h"
      using fl by (simp_all add: h_def lo_def pos_imp_zdiv_nonneg_iff)
    have "(ft - 1) div 2 ^ n < 256" using L(1) by (simp add: int_div_less_iff n(3) power_add)
    moreover have h1: "h \<le> (ft - 1) div 2 ^ n" using fl by (simp add: h_def zdiv_mono1)
    ultimately have e: "transmits (ec_encode h (h + 1) ((ft - 1) div 2 ^ n + 1))
        (\<lambda>d. case ec_decode ((ft - 1) div 2 ^ n + 1) d of (k, d) \<Rightarrow>
          (k, ec_dec_update k (k + 1) ((ft - 1) div 2 ^ n + 1) d)) h"
      using h0 by (intro transmits_encode_uniform) auto
    let ?g = "\<lambda>k (x, d :: ec_ctx). let t = u32 (k * 2 ^ n) OR x
      in if t \<le> ft - 1 then (t, d) else (ft - 1, d\<lparr>error := 1\<rparr>)"
    have "u32 (h * 2 ^ n) = h * 2 ^ n" using flh lo h0 fl ft by simp
    then have g: "?g h (lo, d) = (fl, d)" for d
      using or_disjoint_add [OF lo] flh fl by (simp add: Let_def)
    have "transmits (ec_enc_bits lo (int n)) (ec_dec_bits (int n)) lo"
      using transmits_bits [of "int n" lo] lo n by simp
    then have b: "transmits (ec_enc_bits lo (int n)) (\<lambda>d. ?g h (ec_dec_bits (int n) d)) fl"
      using g by (rule transmits_post)
    have nl: "int n = L - 8" using True by (simp add: n_def)
    from transmits_bind [OF e, where ?dec2.0 = "\<lambda>k d. ?g k (ec_dec_bits (int n) d)", OF b] show ?thesis
      by (rule transmits_cong)
        (use True in \<open>simp_all add: ec_enc_uint_def ec_dec_uint_def Let_def u L_def [symmetric]
           shift_arith and_mask_mod n_def [symmetric] h_def lo_def nl case_prod_beta\<close>)
  qed
qed

section \<open>Whole streams\<close>

lemma ec_dec_normalize_step:
  "\<lbrakk>0 < rng d; rng d \<le> 8388608\<rbrakk> \<Longrightarrow> ec_dec_normalize d = ec_dec_normalize (ec_dec_normalize_body d)"
  "8388608 < rng d \<Longrightarrow> ec_dec_normalize d = d"
  by (simp_all add: ec_dec_normalize.simps [of d])

lemma coupled_init:
  assumes B: "bytes B"
  shows "coupled B (ec_enc_init b sz) (ec_dec_init B (int (length B)))"
proof -
  define d0 where "d0 = \<lparr>buf = B, storage = int (length B), end_offs = 0, end_window = 0, nend_bits = 0,
    nbits_total = 9, offs = int (min 1 (length B)), rng = 128,
    val = 127 - byte_at B 0 div 2, ext = 0, rem = byte_at B 0, error = 0\<rparr>"
  have b: "0 \<le> byte_at B 0 div 2" "byte_at B 0 div 2 < 128"
    using is_byte_byte_at [OF B, of 0] by (auto simp: is_byte_def)
  have i: "ec_dec_init B (int (length B)) = ec_dec_normalize d0"
    using b by (auto simp: ec_dec_init_def Let_def ec_read_byte_def d0_def byte_at_def shift_arith
        min_def Suc_leI)
  have 0: "dec_at B 1 0 d0" "0 \<le> val d0" "val d0 < rng d0" "rng d0 \<le> 8388608"
    using b prefix256_Suc [OF B, of 0] prefix256_0 [OF B] by (simp_all add: d0_def dec_at_def)
  have r0: "rng d0 = 128" by (simp add: d0_def)
  define d1 where "d1 = ec_dec_normalize_body d0"
  note 1 = dec_body [OF B 0, folded d1_def]
  have r1: "rng d1 \<le> 8388608" using 1(4) by (simp add: d0_def)
  define d2 where "d2 = ec_dec_normalize_body d1"
  note 2 = dec_body [OF B 1(1-3) r1, folded d2_def]
  have r2: "rng d2 = 8388608" using 2(4) 1(4) by (simp add: d0_def)
  define d3 where "d3 = ec_dec_normalize_body d2"
  note 3 = dec_body [OF B 2(1-3), folded d3_def]
  have r3: "rng d3 = 2147483648" using 3(4) r2 by simp
  have "ec_dec_normalize d0 = d3"
    using 1(4) 2(3,4) r1 r2 r3 ec_dec_normalize_step(1) [of d0] ec_dec_normalize_step(1) [of d1]
      ec_dec_normalize_step(1) [of d2] ec_dec_normalize_step(2) [of d3]
    by (simp add: d1_def [symmetric] d2_def [symmetric] d3_def [symmetric] r0)
  moreover have "nbits_total d3 = 33" using 1(5) 2(5) 3(5) r2 by (simp add: d0_def)
  moreover have "same_tail d0 d3" using 1(6) 2(6) 3(6) r2 by (auto intro: same_tail_trans)
  moreover have "dec_at B 4 0 d3" using 3(1) r2 by (simp add: numeral_eq_Suc)
  ultimately show ?thesis using r3
    by (simp add: i coupled_def ec_enc_init_def enc_m_def pend_len_def enc_low_def enc_digits_def
        pend_val_def out_list_def raw_coupled_def raw_bits_def same_tail_def d0_def)
qed

lemma ec_enc_done_error_mono: "error (ec_enc_done s) = 0 \<Longrightarrow> error s = 0"
proof -
  assume err: "error (ec_enc_done s) = 0"
  obtain e l where E: "ec_enc_done_end s = (e, l)" by (cases "ec_enc_done_end s")
  obtain s1 l1 where L: "ec_enc_done_loop s e l = (s1, l1)" by (cases "ec_enc_done_loop s e l")
  define s2 where "s2 = (if rem s1 \<ge> 0 \<or> ext s1 > 0 then ec_enc_carry_out s1 0 else s1)"
  define x where "x = (s2, end_window s2, nend_bits s2)"
  obtain t w u where F: "ec_flush_window x = (t, w, u)" by (cases "ec_flush_window x")
  have "ec_enc_done s = (if error t = 0 then done_tail t w u l1 else t)"
    by (simp only: ec_enc_done_tail E L Let_def prod.case s2_def [symmetric] x_def [symmetric] F)
  then have "error t = 0" using err by (auto split: if_splits)
  then have "error (win_state (ec_flush_window x)) = 0" by (simp add: F win_state_def)
  then have "error (win_state x) = 0" by (rule flush_window_mono)
  then have "error s2 = 0" by (simp add: x_def win_state_def)
  then have "error s1 = 0" using carry_out_error_mono [of s1 0] by (simp add: s2_def split: if_splits)
  then show "error s = 0" using done_loop_frame [of s e l] L by simp
qed

theorem stream_roundtrip:
  assumes t: "transmits enc dec x" and b: "bytes b" "int (length b) = sz" "sz < 4294967296"
  defines "s \<equiv> enc (ec_enc_init b sz)"
  defines "d \<equiv> dec (ec_dec_init (buf (ec_enc_done s)) sz)"
  assumes n: "nbits_total s < 2147483648" and err: "error (ec_enc_done s) = 0"
  shows "fst d = x" "coupled (buf (ec_enc_done s)) s (snd d)"
    "length (buf (ec_enc_done s)) = length b"
proof -
  have ok: "ec_ok s" using n ec_enc_done_error_mono [OF err] by (simp add: ec_ok_def)
  have i: "enc_inv (ec_enc_init b sz)" using b by (intro ec_enc_init_inv) auto
  have "enc_step enc" using t by (rule transmits_step)
  then have s: "enc_inv s" "storage s = sz"
    using i ok unfolding enc_step_def s_def by (auto simp: ec_enc_init_def)
  note f = ec_enc_done_fin [OF s(1) ok err]
  have len: "int (length (buf (ec_enc_done s))) = sz" using f(2) s(2) b by simp
  then show "length (buf (ec_enc_done s)) = length b" using b by simp
  have "bytes (buf (ec_enc_done s))" using f(1) by (simp add: fin_def)
  note c = coupled_init [OF this, of b sz, unfolded len]
  show "fst d = x" "coupled (buf (ec_enc_done s)) s (snd d)"
    using transmitsD(1,2) [OF t i c [unfolded s_def] f(1) [unfolded s_def]]
    by (simp_all add: d_def s_def)
qed

text \<open>Coupled states have spent the same number of bits.\<close>

lemma coupled_tell:
  "coupled B s d \<Longrightarrow> ec_tell d = ec_tell s \<and> ec_tell_frac d = ec_tell_frac s \<and> error d = 0"
  by (simp add: coupled_def ec_tell_def ec_tell_frac_def)

end
