(* ===== verification/Symbol_Code.thy ===== *)
theory Symbol_Code
  imports Range_Coder
begin

text \<open>
  Sequences of symbols.  The locale \<open>symbol_code\<close> is the contract between a coding scheme built
  on the range coder and its users: what \<open>put\<close> writes, \<open>get\<close> reads back, given the \<open>shape\<close> of
  the symbol, which both sides know.  Its instances are the primitive operations of \<open>entenc.c\<close>
  and \<open>entdec.c\<close> here and the Laplace, pulse vector and SILK codes in their theories.
\<close>

section \<open>The contract of a coding scheme\<close>

fun dec_seq :: "('b \<Rightarrow> ec_ctx \<Rightarrow> 'a \<times> ec_ctx) \<Rightarrow> 'b list \<Rightarrow> ec_ctx \<Rightarrow> 'a list \<times> ec_ctx" where
  "dec_seq get [] d = ([], d)"
| "dec_seq get (b # bs) d =
    (case get b d of (x, d) \<Rightarrow> case dec_seq get bs d of (xs, d) \<Rightarrow> (x # xs, d))"

locale symbol_code =
  fixes put :: "'a \<Rightarrow> ec_ctx \<Rightarrow> ec_ctx"
    and get :: "'b \<Rightarrow> ec_ctx \<Rightarrow> 'a \<times> ec_ctx"
    and shape :: "'a \<Rightarrow> 'b"
    and valid :: "'a \<Rightarrow> bool"
  assumes transmits_symbol: "valid x \<Longrightarrow> transmits (put x) (get (shape x)) x"
begin

lemma transmits_seq:
  "list_all valid xs \<Longrightarrow> transmits (fold put xs) (dec_seq get (map shape xs)) xs"
proof (induction xs)
  case Nil
  show ?case by (rule transmits_cong [OF transmits_return]) simp_all
next
  case (Cons x xs)
  let ?dec = "\<lambda>a d. case dec_seq get (map shape xs) d of (ys, d) \<Rightarrow> (a # ys, d)"
  have v: "valid x" "list_all valid xs" using Cons.prems by simp_all
  have "transmits (fold put xs) (?dec x) (x # xs)"
    by (rule transmits_map [OF Cons.IH [OF v(2)] refl])
  from transmits_bind [OF transmits_symbol [OF v(1)], where ?dec2.0 = ?dec, OF this]
  show ?case by (rule transmits_cong) simp_all
qed

lemma step_symbol: "valid x \<Longrightarrow> enc_step (put x)"
  by (rule transmits_step [OF transmits_symbol])

lemma stream_seq:
  assumes "list_all valid xs" "bytes b" "int (length b) = sz" "sz < 4294967296"
    "nbits_total (fold put xs (ec_enc_init b sz)) < 2147483648"
    "error (ec_enc_done (fold put xs (ec_enc_init b sz))) = 0"
  shows "fst (dec_seq get (map shape xs)
      (ec_dec_init (buf (ec_enc_done (fold put xs (ec_enc_init b sz)))) sz)) = xs"
    "coupled (buf (ec_enc_done (fold put xs (ec_enc_init b sz)))) (fold put xs (ec_enc_init b sz))
      (snd (dec_seq get (map shape xs)
        (ec_dec_init (buf (ec_enc_done (fold put xs (ec_enc_init b sz)))) sz)))"
    "length (buf (ec_enc_done (fold put xs (ec_enc_init b sz)))) = length b"
  using stream_roundtrip [OF transmits_seq [OF assms(1)] assms(2-6)] by simp_all

end

section \<open>The symbols of the range coder\<close>

text \<open>
  One constructor per pair of routines.  \<open>Freq fs k\<close> is symbol \<open>k\<close> of an alphabet with the
  frequencies \<open>fs\<close>, for \<open>ec_encode\<close>; \<open>Freq_Bin\<close> the same for \<open>ec_encode_bin\<close>.
\<close>

datatype ec_symbol =
    Freq "int list" nat
  | Freq_Bin "int list" int nat
  | Bit_Logp int int
  | Icdf "int list" int int
  | Icdf16 "int list" int int
  | Uint int int
  | Raw_Bits int int

datatype ec_shape =
    Freq_Shape "int list"
  | Freq_Bin_Shape "int list" int
  | Bit_Logp_Shape int
  | Icdf_Shape "int list" int
  | Icdf16_Shape "int list" int
  | Uint_Shape int
  | Raw_Bits_Shape int

fun symbol_shape :: "ec_symbol \<Rightarrow> ec_shape" where
  "symbol_shape (Freq fs k) = Freq_Shape fs"
| "symbol_shape (Freq_Bin fs bits k) = Freq_Bin_Shape fs bits"
| "symbol_shape (Bit_Logp v logp) = Bit_Logp_Shape logp"
| "symbol_shape (Icdf icdf ftb k) = Icdf_Shape icdf ftb"
| "symbol_shape (Icdf16 icdf ftb k) = Icdf16_Shape icdf ftb"
| "symbol_shape (Uint fl ft) = Uint_Shape ft"
| "symbol_shape (Raw_Bits fl bits) = Raw_Bits_Shape bits"

definition cum_freq :: "int list \<Rightarrow> nat \<Rightarrow> int" where
  "cum_freq fs k = sum_list (take k fs)"

fun find_freq :: "int list \<Rightarrow> int \<Rightarrow> nat" where
  "find_freq [] v = 0"
| "find_freq (f # fs) v = (if v < f then 0 else Suc (find_freq fs (v - f)))"

fun put_symbol :: "ec_symbol \<Rightarrow> ec_ctx \<Rightarrow> ec_ctx" where
  "put_symbol (Freq fs k) s = ec_encode (cum_freq fs k) (cum_freq fs (Suc k)) (sum_list fs) s"
| "put_symbol (Freq_Bin fs bits k) s = ec_encode_bin (cum_freq fs k) (cum_freq fs (Suc k)) bits s"
| "put_symbol (Bit_Logp v logp) s = ec_enc_bit_logp v logp s"
| "put_symbol (Icdf icdf ftb k) s = ec_enc_icdf k icdf ftb s"
| "put_symbol (Icdf16 icdf ftb k) s = ec_enc_icdf16 k icdf ftb s"
| "put_symbol (Uint fl ft) s = ec_enc_uint fl ft s"
| "put_symbol (Raw_Bits fl bits) s = ec_enc_bits fl bits s"

fun get_symbol :: "ec_shape \<Rightarrow> ec_ctx \<Rightarrow> ec_symbol \<times> ec_ctx" where
  "get_symbol (Freq_Shape fs) d =
    (let (v, d) = ec_decode (sum_list fs) d; k = find_freq fs v
     in (Freq fs k, ec_dec_update (cum_freq fs k) (cum_freq fs (Suc k)) (sum_list fs) d))"
| "get_symbol (Freq_Bin_Shape fs bits) d =
    (let (v, d) = ec_decode_bin bits d; k = find_freq fs v
     in (Freq_Bin fs bits k, ec_dec_update (cum_freq fs k) (cum_freq fs (Suc k)) (2 ^ nat bits) d))"
| "get_symbol (Bit_Logp_Shape logp) d =
    (let (v, d) = ec_dec_bit_logp logp d in (Bit_Logp v logp, d))"
| "get_symbol (Icdf_Shape icdf ftb) d = (let (k, d) = ec_dec_icdf icdf ftb d in (Icdf icdf ftb k, d))"
| "get_symbol (Icdf16_Shape icdf ftb) d =
    (let (k, d) = ec_dec_icdf16 icdf ftb d in (Icdf16 icdf ftb k, d))"
| "get_symbol (Uint_Shape ft) d = (let (fl, d) = ec_dec_uint ft d in (Uint fl ft, d))"
| "get_symbol (Raw_Bits_Shape bits) d = (let (fl, d) = ec_dec_bits bits d in (Raw_Bits fl bits, d))"

text \<open>The preconditions the comments of \<open>entenc.h\<close> state.\<close>

definition freqs_ok :: "int list \<Rightarrow> nat \<Rightarrow> bool" where
  "freqs_ok fs k \<longleftrightarrow> list_all (\<lambda>f. 0 \<le> f) fs \<and> k < length fs \<and> 0 < fs ! k \<and> sum_list fs \<le> 8388608"

fun valid_symbol :: "ec_symbol \<Rightarrow> bool" where
  "valid_symbol (Freq fs k) = freqs_ok fs k"
| "valid_symbol (Freq_Bin fs bits k) =
    (freqs_ok fs k \<and> 0 \<le> bits \<and> bits \<le> 23 \<and> sum_list fs = 2 ^ nat bits)"
| "valid_symbol (Bit_Logp v logp) = ((v = 0 \<or> v = 1) \<and> 1 \<le> logp \<and> logp \<le> 23)"
| "valid_symbol (Icdf icdf ftb k) = (icdf_sym icdf ftb k \<and> 0 \<le> ftb \<and> ftb \<le> 23)"
| "valid_symbol (Icdf16 icdf ftb k) = (icdf_sym icdf ftb k \<and> 0 \<le> ftb \<and> ftb \<le> 23)"
| "valid_symbol (Uint fl ft) = (0 \<le> fl \<and> fl < ft \<and> 1 < ft \<and> ft < 4294967296)"
| "valid_symbol (Raw_Bits fl bits) = (0 \<le> bits \<and> bits \<le> 25 \<and> 0 \<le> fl \<and> fl < 2 ^ nat bits)"

lemma cum_freq_simps [simp]:
  "cum_freq fs 0 = 0" "cum_freq (f # fs) (Suc k) = f + cum_freq fs k" "cum_freq [] k = 0"
  by (simp_all add: cum_freq_def)

lemma cum_freq_nonneg: "list_all (\<lambda>f. 0 \<le> f) fs \<Longrightarrow> 0 \<le> cum_freq fs k"
  by (auto simp: cum_freq_def list_all_iff dest: in_set_takeD intro!: sum_list_nonneg)

lemma cum_freq_bounds:
  assumes "freqs_ok fs k"
  shows "0 \<le> cum_freq fs k" "cum_freq fs k < cum_freq fs (Suc k)" "cum_freq fs (Suc k) \<le> sum_list fs"
proof -
  have a: "list_all (\<lambda>f. 0 \<le> f) fs" "k < length fs" "0 < fs ! k"
    using assms by (simp_all add: freqs_ok_def)
  show "0 \<le> cum_freq fs k" using a(1) by (rule cum_freq_nonneg)
  show "cum_freq fs k < cum_freq fs (Suc k)"
    using a by (simp add: cum_freq_def take_Suc_conv_app_nth)
  have "sum_list fs = cum_freq fs (Suc k) + sum_list (drop (Suc k) fs)"
    by (metis append_take_drop_id cum_freq_def sum_list_append)
  moreover have "0 \<le> sum_list (drop (Suc k) fs)"
    using a(1) by (auto simp: list_all_iff dest: in_set_dropD intro!: sum_list_nonneg)
  ultimately show "cum_freq fs (Suc k) \<le> sum_list fs" by simp
qed

lemma find_freq_cum:
  assumes "list_all (\<lambda>f. 0 \<le> f) fs" "k < length fs" "cum_freq fs k \<le> v" "v < cum_freq fs (Suc k)"
  shows "find_freq fs v = k"
  using assms
proof (induction fs arbitrary: k v)
  case (Cons f fs)
  show ?case
  proof (cases k)
    case 0
    then show ?thesis using Cons.prems by simp
  next
    case (Suc j)
    then have "0 \<le> cum_freq fs j" using Cons.prems by (simp add: cum_freq_nonneg)
    then show ?thesis using Cons Suc by simp
  qed
qed simp

lemma transmits_put_symbol:
  assumes "valid_symbol x"
  shows "transmits (put_symbol x) (get_symbol (symbol_shape x)) x"
proof (cases x)
  case (Freq fs k)
  then have ok: "freqs_ok fs k" "list_all (\<lambda>f. 0 \<le> f) fs" "k < length fs" "sum_list fs \<le> 8388608"
    using assms by (simp_all add: freqs_ok_def)
  let ?look = "\<lambda>v. let k = find_freq fs v in (cum_freq fs k, cum_freq fs (Suc k), Freq fs k)"
  have "?look v = (cum_freq fs k, cum_freq fs (Suc k), Freq fs k)"
    if "cum_freq fs k \<le> v" "v < cum_freq fs (Suc k)" for v
    using find_freq_cum [OF ok(2,3) that] by (simp add: Let_def)
  with cum_freq_bounds [OF ok(1)] ok(4) have "transmits (ec_encode (cum_freq fs k) (cum_freq fs (Suc k)) (sum_list fs))
    (\<lambda>d. case ec_decode (sum_list fs) d of (v, d) \<Rightarrow> case ?look v of (fl, fh, x) \<Rightarrow>
      (x, ec_dec_update fl fh (sum_list fs) d)) (Freq fs k)"
    by (rule transmits_ec_encode)
  then show ?thesis unfolding Freq by (rule transmits_cong) (simp_all add: Let_def)
next
  case (Freq_Bin fs bits k)
  then have ok: "freqs_ok fs k" "list_all (\<lambda>f. 0 \<le> f) fs" "k < length fs" "0 \<le> bits" "bits \<le> 23"
    and sum: "sum_list fs = 2 ^ nat bits"
    using assms by (simp_all add: freqs_ok_def)
  let ?look = "\<lambda>v. let k = find_freq fs v in (cum_freq fs k, cum_freq fs (Suc k), Freq_Bin fs bits k)"
  have "?look v = (cum_freq fs k, cum_freq fs (Suc k), Freq_Bin fs bits k)"
    if "cum_freq fs k \<le> v" "v < cum_freq fs (Suc k)" for v
    using find_freq_cum [OF ok(2,3) that] by (simp add: Let_def)
  with ok(4,5) cum_freq_bounds [OF ok(1), unfolded sum]
  have "transmits (ec_encode_bin (cum_freq fs k) (cum_freq fs (Suc k)) bits)
    (\<lambda>d. case ec_decode_bin bits d of (v, d) \<Rightarrow> case ?look v of (fl, fh, x) \<Rightarrow>
      (x, ec_dec_update fl fh (2 ^ nat bits) d)) (Freq_Bin fs bits k)"
    by (rule transmits_ec_encode_bin)
  then show ?thesis unfolding Freq_Bin by (rule transmits_cong) (simp_all add: Let_def)
next
  case (Bit_Logp v logp)
  then have "transmits (ec_enc_bit_logp v logp) (ec_dec_bit_logp logp) v"
    using transmits_bit_logp [of logp v] assms by auto
  from transmits_map [OF this, where f = "\<lambda>v. Bit_Logp v logp", OF refl]
  show ?thesis unfolding Bit_Logp by (rule transmits_cong) (simp_all add: Let_def)
next
  case (Icdf icdf ftb k)
  then have "transmits (ec_enc_icdf k icdf ftb) (ec_dec_icdf icdf ftb) k"
    using transmits_icdf(1) assms by auto
  from transmits_map [OF this, where f = "\<lambda>k. Icdf icdf ftb k", OF refl]
  show ?thesis unfolding Icdf by (rule transmits_cong) (simp_all add: Let_def)
next
  case (Icdf16 icdf ftb k)
  then have "transmits (ec_enc_icdf16 k icdf ftb) (ec_dec_icdf16 icdf ftb) k"
    using transmits_icdf(2) assms by auto
  from transmits_map [OF this, where f = "\<lambda>k. Icdf16 icdf ftb k", OF refl]
  show ?thesis unfolding Icdf16 by (rule transmits_cong) (simp_all add: Let_def)
next
  case (Uint fl ft)
  then have "transmits (ec_enc_uint fl ft) (ec_dec_uint ft) fl" using transmits_uint assms by auto
  from transmits_map [OF this, where f = "\<lambda>fl. Uint fl ft", OF refl]
  show ?thesis unfolding Uint by (rule transmits_cong) (simp_all add: Let_def)
next
  case (Raw_Bits fl bits)
  then have "transmits (ec_enc_bits fl bits) (ec_dec_bits bits) fl" using transmits_bits assms by auto
  from transmits_map [OF this, where f = "\<lambda>fl. Raw_Bits fl bits", OF refl]
  show ?thesis unfolding Raw_Bits by (rule transmits_cong) (simp_all add: Let_def)
qed

interpretation ec: symbol_code put_symbol get_symbol symbol_shape valid_symbol
  by unfold_locales (rule transmits_put_symbol)

end
