(* ===== verification/Range_Decoder.thy ===== *)
theory Range_Decoder
  imports Symbol_Code
begin

text \<open>
  The range decoder on arbitrary input.  Whatever bytes a packet holds, every decoding routine
  leaves the decoder in a state that satisfies \<open>dec_ok\<close> and returns a symbol of its alphabet, so
  that the callers' table and array accesses are in range.
\<close>

section \<open>The decoder invariant\<close>

definition dec_core :: "ec_ctx \<Rightarrow> bool" where
  "dec_core d \<longleftrightarrow> bytes (buf d) \<and> storage d = int (length (buf d)) \<and> is_byte (rem d)
     \<and> 0 \<le> offs d \<and> offs d \<le> storage d \<and> 0 \<le> val d \<and> val d < rng d \<and> rng d \<le> 2147483648
     \<and> 0 \<le> nend_bits d \<and> nend_bits d \<le> 32 \<and> 0 \<le> end_window d \<and> end_window d < 2 ^ nat (nend_bits d)
     \<and> 0 \<le> end_offs d \<and> end_offs d \<le> storage d"

definition dec_ok :: "ec_ctx \<Rightarrow> bool" where
  "dec_ok d \<longleftrightarrow> dec_core d \<and> 8388608 < rng d"

lemma is_byte_0 [simp]: "is_byte 0"
  by (simp add: is_byte_def)

lemma ec_read_byte_core:
  assumes "dec_core d"
  obtains b p where "is_byte b" "0 \<le> p" "p \<le> storage d"
    "\<And>n r. ec_read_byte (d\<lparr>nbits_total := n, rng := r\<rparr>) = (b, d\<lparr>nbits_total := n, rng := r, offs := p\<rparr>)"
proof (rule that [of "fst (ec_read_byte d)" "offs (snd (ec_read_byte d))"])
  show "is_byte (fst (ec_read_byte d))"
    using assms bytes_nth [of "buf d" "nat (offs d)"] by (auto simp: ec_read_byte_def dec_core_def)
  show "0 \<le> offs (snd (ec_read_byte d))" "offs (snd (ec_read_byte d)) \<le> storage d"
    using assms by (auto simp: ec_read_byte_def dec_core_def)
qed (simp add: ec_read_byte_def)

lemma dec_body_core:
  assumes d: "dec_core d" and r: "rng d \<le> 8388608"
  shows "dec_core (ec_dec_normalize_body d)"
proof -
  have v: "0 \<le> val d" "val d < rng d" using d by (simp_all add: dec_core_def)
  obtain b p where b: "is_byte b" "0 \<le> p" "p \<le> storage d" and rd:
    "\<And>n r. ec_read_byte (d\<lparr>nbits_total := n, rng := r\<rparr>) = (b, d\<lparr>nbits_total := n, rng := r, offs := p\<rparr>)"
    using ec_read_byte_core [OF d] by blast
  define q where "q = drop_bit (nat (8 - EC_CODE_EXTRA)) (push_bit 8 (rem d) OR b) mod 256"
  have q: "0 \<le> q" "q < 256" by (simp_all add: q_def)
  have eq: "ec_dec_normalize_body d = d\<lparr>nbits_total := nbits_total d + 8, rng := rng d * 256,
      offs := p, rem := b, val := u32 (val d * 256 + (255 - q)) mod 2147483648\<rparr>"
    using v r by (simp add: ec_dec_normalize_body_def Let_def rd q_def and_not_byte bitarith push_bit_eq_mult)
  have "u32 (val d * 256 + (255 - q)) mod 2147483648 = val d * 256 + (255 - q)"
    using v r q by simp
  then show ?thesis
    using d b q v r by (simp add: eq dec_core_def)
qed

lemma dec_normalize_ok: "dec_core d \<Longrightarrow> dec_ok (ec_dec_normalize d)"
proof (induction d rule: ec_dec_normalize.induct)
  case (1 d)
  then have "0 < rng d" by (simp add: dec_core_def)
  then show ?case
    using 1 dec_body_core [of d] by (cases "rng d \<le> 8388608")
      (simp_all add: ec_dec_normalize.simps [of d] dec_ok_def)
qed

lemma dec_narrow_ok:
  "\<lbrakk>dec_ok d; 0 \<le> t; t \<le> val d; val d < u; u \<le> rng d\<rbrakk> \<Longrightarrow> dec_ok (ec_dec_normalize (dec_narrow t u d))"
  by (rule dec_normalize_ok) (simp add: dec_ok_def dec_core_def dec_narrow_def)

lemma dec_ok_ext [simp]: "dec_ok (d\<lparr>ext := e\<rparr>) = dec_ok d" "dec_ok (d\<lparr>error := e\<rparr>) = dec_ok d"
  by (simp_all add: dec_ok_def dec_core_def)

lemma ec_dec_init_ok:
  assumes "bytes B"
  shows "dec_ok (ec_dec_init B (int (length B)))"
proof -
  have b: "0 \<le> byte_at B 0 div 2" "byte_at B 0 div 2 < 128" "is_byte (byte_at B 0)"
    using is_byte_byte_at [OF assms, of 0] by (auto simp: is_byte_def)
  let ?d = "\<lparr>buf = B, storage = int (length B), end_offs = 0, end_window = 0, nend_bits = 0,
    nbits_total = 9, offs = int (min 1 (length B)), rng = 128,
    val = 127 - byte_at B 0 div 2, ext = 0, rem = byte_at B 0, error = 0\<rparr>"
  have "ec_dec_init B (int (length B)) = ec_dec_normalize ?d"
    using b by (auto simp: ec_dec_init_def Let_def ec_read_byte_def byte_at_def shift_arith
        min_def Suc_leI)
  moreover have "dec_core ?d" using b assms by (simp add: dec_core_def)
  ultimately show ?thesis by (simp add: dec_normalize_ok)
qed

section \<open>Each decoding routine\<close>

lemma div_pow_pos:
  assumes "dec_ok d" "0 < ft" "ft \<le> 8388608"
  shows "0 < rng d div ft" "rng d div ft * ft \<le> rng d" "rng d \<le> 2147483648" "0 \<le> val d" "val d < rng d"
  using assms int_le_div_iff [of ft 1 "rng d"] int_le_div_iff [of ft "rng d div ft" "rng d"]
  by (simp_all add: dec_ok_def dec_core_def)

text \<open>What \<open>ec_decode\<close> returns is below \<open>ft\<close>, and its frequency interval contains \<open>val\<close>.\<close>

lemma decode_value:
  fixes r ft v :: int
  assumes "0 < ft" "ft \<le> 8388608" "0 < r" "0 \<le> v" "v < 2147483648"
  defines "k \<equiv> u32 (ft - EC_MINI (u32 (v div r + 1)) ft)"
  shows "0 \<le> k" "k < ft" "r * (ft - k - 1) \<le> v" "0 < k \<Longrightarrow> v < r * (ft - k)"
proof -
  have ge: "0 \<le> v div r" using assms by (simp add: pos_imp_zdiv_nonneg_iff)
  have lt: "v div r < 2147483648" using assms zdiv_mono2 [of v 1 r] by simp
  have u: "u32 (v div r + 1) = v div r + 1" using ge lt by simp
  have k: "k = ft - min (v div r + 1) ft"
    using assms(1-5) ge lt unfolding k_def u by (simp add: EC_MINI_min min_def)
  show "0 \<le> k" "k < ft" using assms(1-5) ge by (auto simp: k)
  have d: "v div r * r \<le> v" "v < (v div r + 1) * r"
    using assms(1-5) int_le_div_iff [of r "v div r" v] int_div_less_iff [of r v "v div r + 1"] by simp_all
  have "(ft - k - 1) * r \<le> v div r * r" using assms(1-5) by (intro mult_right_mono) (auto simp: k)
  then show "r * (ft - k - 1) \<le> v" using d by (simp add: mult.commute)
  assume "0 < k"
  then have "ft - k = v div r + 1" by (auto simp: k)
  then show "v < r * (ft - k)" using d by (simp add: mult.commute)
qed

text \<open>Updating with any frequency interval around the decoded value is safe.\<close>

lemma ec_dec_update_ok:
  assumes d: "dec_ok d" and f: "0 \<le> fl" "fl < fh" "fh \<le> ft" "ft \<le> 8388608"
    and e: "ext d = rng d div ft"
    and k: "fl \<le> k" "k < fh" "ext d * (ft - k - 1) \<le> val d" "0 < k \<Longrightarrow> val d < ext d * (ft - k)"
  shows "dec_ok (ec_dec_update fl fh ft d)"
proof -
  have "0 < ft" using f by simp
  note r = div_pow_pos [OF d this f(4), folded e]
  note b = freq_bounds [OF f(1-3) r(1,2)]
  have t: "freq_t (ext d) fh ft \<le> val d"
  proof -
    have "ext d * (ft - fh) \<le> ext d * (ft - k - 1)" using r k by (intro mult_left_mono) simp_all
    then show ?thesis using k(3) by (simp add: freq_t_def)
  qed
  have u: "val d < freq_u (rng d) (ext d) fl ft"
  proof (cases "0 < fl")
    case True
    then have "ext d * (ft - k) \<le> ext d * (ft - fl)" using r k by (intro mult_left_mono) simp_all
    then show ?thesis using k True by (simp add: freq_u_def)
  qed (use r in \<open>simp add: freq_u_def\<close>)
  show ?thesis
    using dec_narrow_ok [OF d b(1) t u b(3)] dec_freq_narrow [OF f(1-3) r(1-3) refl t u] by simp
qed

lemma dec_bit_logp_ok:
  assumes d: "dec_ok d" and l: "1 \<le> logp" "logp \<le> 23"
  shows "dec_ok (snd (ec_dec_bit_logp logp d))" "fst (ec_dec_bit_logp logp d) \<in> {0, 1}"
proof -
  have "(2::int) ^ nat logp \<le> 2 ^ 23" using l by (intro power_increasing) auto
  then have p: "0 < (2::int) ^ nat logp" "(2::int) ^ nat logp \<le> 8388608" by simp_all
  define q where "q = rng d div 2 ^ nat logp"
  note r = div_pow_pos [OF d p, folded q_def]
  have "q * 1 \<le> q * 2 ^ nat logp" using r p by (intro mult_left_mono) simp_all
  then have q: "q \<le> rng d" using r by linarith
  have "ec_dec_bit_logp logp d = (if val d < q then (1, ec_dec_normalize (dec_narrow 0 q d))
      else (0, ec_dec_normalize (dec_narrow q (rng d) d)))"
    using r q by (simp add: ec_dec_bit_logp_def Let_def shift_arith q_def [symmetric] dec_narrow_def)
  moreover have "val d < q \<Longrightarrow> dec_ok (ec_dec_normalize (dec_narrow 0 q d))"
    using dec_narrow_ok [OF d, of 0 q] r q by simp
  moreover have "\<not> val d < q \<Longrightarrow> dec_ok (ec_dec_normalize (dec_narrow q (rng d) d))"
    using dec_narrow_ok [OF d, of q "rng d"] r q by simp
  ultimately show "dec_ok (snd (ec_dec_bit_logp logp d))" "fst (ec_dec_bit_logp logp d) \<in> {0, 1}"
    by simp_all
qed

text \<open>A table that ends with 0 stops the search, at a symbol of non-zero probability.\<close>

definition icdf_table :: "int list \<Rightarrow> int \<Rightarrow> bool" where
  "icdf_table icdf ftb \<longleftrightarrow> icdf \<noteq> [] \<and> last icdf = 0 \<and> sorted (rev icdf)
     \<and> list_all (\<lambda>f. 0 \<le> f \<and> f < 2 ^ nat ftb) icdf"

lemma icdf_search:
  assumes "fs \<noteq> []" "last fs = 0" "0 \<le> v" "(v :: int) < a"
  shows "\<exists>j < length fs. (\<forall>i<j. v < r * fs ! i) \<and> r * fs ! j \<le> v"
  using assms
proof (induction fs arbitrary: a)
  case (Cons f fs)
  show ?case
  proof (cases "v < r * f")
    case True
    then have "fs \<noteq> []" using Cons.prems by auto
    then obtain j where j: "j < length fs" "\<forall>i<j. v < r * fs ! i" "r * fs ! j \<le> v"
      using Cons.IH [OF _ _ Cons.prems(3) True] Cons.prems(2) by auto
    then have "\<forall>i<Suc j. v < r * (f # fs) ! i" using True by (simp add: nth_Cons' All_less_Suc2)
    then show ?thesis using j by (intro exI [of _ "Suc j"]) simp
  qed (intro exI [of _ 0], simp)
qed simp

lemma icdf_loop_sym:
  assumes tab: "icdf_table icdf ftb" and r: "0 < r" "r * 2 ^ nat ftb \<le> rg" "rg \<le> 2147483648"
    and v: "0 \<le> v" "v < rg"
  obtains k t u where "ec_dec_icdf_loop r v icdf (- 1) rg = (k, u, t)" "icdf_sym icdf ftb k" "0 \<le> t" "t \<le> v" "v < u" "u \<le> rg"
proof -
  have e: "0 \<le> icdf ! i" "icdf ! i < 2 ^ nat ftb" if "i < length icdf" for i
    using tab that by (simp_all add: icdf_table_def list_all_length)
  have m: "r * icdf ! i \<le> rg" "0 \<le> r * icdf ! i" "u32 (r * icdf ! i) = r * icdf ! i"
    if "i < length icdf" for i
  proof -
    have "r * icdf ! i \<le> r * 2 ^ nat ftb" using e(2) [OF that] r by (intro mult_left_mono) simp_all
    then show le: "r * icdf ! i \<le> rg" using r by linarith
    show ge: "0 \<le> r * icdf ! i" using e(1) [OF that] r by simp
    show "u32 (r * icdf ! i) = r * icdf ! i" using le ge r by simp
  qed
  have la: "list_all (\<lambda>f. 0 \<le> f \<and> f \<le> 2 ^ nat ftb) icdf"
    using e by (simp add: list_all_length less_imp_le)
  obtain j where j: "j < length icdf" "\<forall>i<j. v < r * icdf ! i" "r * icdf ! j \<le> v"
    using icdf_search [of icdf v rg r] tab v by (auto simp: icdf_table_def)
  let ?u = "if j = 0 then rg else r * icdf ! (j - 1)"
  have "ec_dec_icdf_loop r v icdf (- 1) rg = (int j, ?u, r * icdf ! j)"
    using icdf_loop [of j icdf v r] j m by simp
  moreover have "v < ?u" "?u \<le> rg" using j v m by simp_all
  moreover have "icdf_sym icdf ftb (int j)"
  proof (cases "j = 0")
    case True
    then show ?thesis using tab la e(2) [OF j(1)] j
      by (auto simp: icdf_sym_def icdf_table_def icdf_top_def)
  next
    case False
    have "r * icdf ! j < r * icdf ! (j - 1)" using j False by (smt (verit) diff_less neq0_conv zero_less_one)
    then have "icdf ! j < icdf ! (j - 1)" using r by simp
    then show ?thesis using tab la j False
      by (simp add: icdf_sym_def icdf_table_def icdf_top_def nat_diff_distrib)
  qed
  ultimately show thesis using that [of "int j" ?u "r * icdf ! j"] m j by simp
qed

lemma dec_icdf_gen_ok:
  assumes d: "dec_ok d" and tab: "icdf_table icdf ftb" and ftb: "0 \<le> ftb" "ftb \<le> 23"
    and D: "D = (let (ret, t, s) = ec_dec_icdf_loop (rng d div 2 ^ nat ftb) (val d) icdf (- 1) (rng d)
      in (ret, ec_dec_normalize (d\<lparr>val := u32 (val d - s), rng := u32 (t - s)\<rparr>)))"
  shows "dec_ok (snd D)" "icdf_sym icdf ftb (fst D)"
proof -
  have "(2::int) ^ nat ftb \<le> 2 ^ 23" using ftb by (intro power_increasing) auto
  then have p: "0 < (2::int) ^ nat ftb" "(2::int) ^ nat ftb \<le> 8388608" by simp_all
  note r = div_pow_pos [OF d p]
  obtain k t u where k: "ec_dec_icdf_loop (rng d div 2 ^ nat ftb) (val d) icdf (- 1) (rng d) = (k, u, t)"
    "icdf_sym icdf ftb k" "0 \<le> t" "t \<le> val d" "val d < u" "u \<le> rng d"
    using icdf_loop_sym [OF tab r(1-5)] by blast
  have "u32 (val d - t) = val d - t" "u32 (u - t) = u - t" using k r by simp_all
  then have "D = (k, ec_dec_normalize (dec_narrow t u d))" by (simp add: D k(1) dec_narrow_def)
  then show "dec_ok (snd D)" "icdf_sym icdf ftb (fst D)" using dec_narrow_ok [OF d k(3-6)] k(2) by simp_all
qed

lemma dec_icdf_ok:
  assumes "dec_ok d" "icdf_table icdf ftb" "0 \<le> ftb" "ftb \<le> 23"
  shows "dec_ok (snd (ec_dec_icdf icdf ftb d))" "icdf_sym icdf ftb (fst (ec_dec_icdf icdf ftb d))"
    "dec_ok (snd (ec_dec_icdf16 icdf ftb d))" "icdf_sym icdf ftb (fst (ec_dec_icdf16 icdf ftb d))"
  using dec_icdf_gen_ok [OF assms, of "ec_dec_icdf icdf ftb d"]
    dec_icdf_gen_ok [OF assms, of "ec_dec_icdf16 icdf ftb d"]
  by (simp_all add: ec_dec_icdf_def ec_dec_icdf16_def Let_def shift_arith)

lemma fill_byte_ok:
  assumes d: "dec_ok (win_state (d, w, a))" and a: "a \<le> 24"
  shows "dec_ok (win_state (ec_fill_byte (d, w, a)))"
proof -
  have c: "0 \<le> a" "0 \<le> w" "w < 2 ^ nat a" "bytes (buf d)" "storage d = int (length (buf d))"
    "0 \<le> end_offs d" "end_offs d \<le> storage d"
    using d by (simp_all add: dec_ok_def dec_core_def win_state_def)
  obtain b p where rd: "ec_read_byte_from_end d = (b, d\<lparr>end_offs := p\<rparr>)" "is_byte b" "0 \<le> p" "p \<le> storage d"
  proof (cases "end_offs d < storage d")
    case True
    then have "is_byte (buf d ! nat (storage d - (end_offs d + 1)))" using c by (intro bytes_nth) auto
    then show thesis using that True c by (auto simp: ec_read_byte_from_end_def)
  next
    case False
    then have "ec_read_byte_from_end d = (0, d\<lparr>end_offs := end_offs d\<rparr>)"
      by (simp add: ec_read_byte_from_end_def)
    then show thesis using that c by fastforce
  qed
  have b: "0 \<le> b" "b < 2 ^ 8" using rd(2) by (simp_all add: is_byte_def)
  have "nat a + 8 = nat (a + 8)" using c by simp
  moreover have "nat a + 8 \<le> 32" using a by simp
  ultimately have "w OR u32 (push_bit (nat a) b) = w + b * 2 ^ nat a" "w + b * 2 ^ nat a < 2 ^ nat (a + 8)"
    using or_shifted_bits [OF c(2,3) b] by simp_all
  then show ?thesis
    using d a b c(1,2) rd(3,4) by (simp add: ec_fill_byte_def rd(1) win_state_def dec_ok_def dec_core_def)
qed

lemma fill_window_ok:
  "dec_ok (win_state x) \<Longrightarrow> dec_ok (win_state (ec_fill_window x)) \<and> 24 < snd (snd (ec_fill_window x))"
proof (induction x rule: ec_fill_window.induct)
  case (1 d w a)
  then show ?case using fill_byte_ok [of d w a] by (cases "a \<le> 24") (simp_all add: ec_fill_window.simps [of d w a])
qed

lemma dec_bits_ok:
  assumes d: "dec_ok d" and b: "0 \<le> bits" "bits \<le> 25"
  shows "dec_ok (snd (ec_dec_bits bits d))" "0 \<le> fst (ec_dec_bits bits d)"
    "fst (ec_dec_bits bits d) < 2 ^ nat bits"
proof -
  have n: "0 \<le> nend_bits d" "nend_bits d \<le> 32" using d by (simp_all add: dec_ok_def dec_core_def)
  have w: "dec_ok (win_state (dec_window bits d)) \<and> bits \<le> snd (snd (dec_window bits d))"
  proof (cases "nend_bits d < bits")
    case True
    have "dec_ok (win_state (ec_fill_byte (d, end_window d, nend_bits d)))"
      using fill_byte_ok [of d "end_window d" "nend_bits d"] d True b by (simp add: win_state_id)
    then show ?thesis using fill_window_ok True n b by (fastforce simp: dec_window_def)
  qed (use d n in \<open>simp add: dec_window_def win_state_id\<close>)
  obtain e w a where x: "dec_window bits d = (e, w, a)" by (cases "dec_window bits d")
  have "(2::int) ^ nat bits \<le> 2 ^ 25" using b by (intro power_increasing) auto
  then have "u32 (2 ^ nat bits) = 2 ^ nat bits" by simp
  then have D: "ec_dec_bits bits d = (w mod 2 ^ nat bits, e\<lparr>end_window := w div 2 ^ nat bits,
      nend_bits := a - bits, nbits_total := nbits_total e + bits\<rparr>)"
    using x by (simp add: ec_dec_bits_def dec_window_def Let_def shift_arith and_mask_mod)
  have a: "bits \<le> a" "0 \<le> w" "w < 2 ^ nat a" using w x by (simp_all add: dec_ok_def dec_core_def win_state_def)
  have "nat a = nat (a - bits) + nat bits" using a b by simp
  then have "w div 2 ^ nat bits < 2 ^ nat (a - bits)" using a by (simp add: int_div_less_iff power_add)
  then show "dec_ok (snd (ec_dec_bits bits d))" "0 \<le> fst (ec_dec_bits bits d)"
    "fst (ec_dec_bits bits d) < 2 ^ nat bits"
    using w x a b by (simp_all add: D dec_ok_def dec_core_def win_state_def pos_imp_zdiv_nonneg_iff)
qed

lemma ec_decode_ok:
  assumes d: "dec_ok d" and ft: "0 < ft" "ft \<le> 8388608"
    and D: "D = (u32 (ft - EC_MINI (u32 (val d div (rng d div ft) + 1)) ft), d\<lparr>ext := rng d div ft\<rparr>)"
  shows "0 \<le> fst D" "fst D < ft"
    "\<lbrakk>0 \<le> fl; fl \<le> fst D; fst D < fh; fh \<le> ft\<rbrakk> \<Longrightarrow> dec_ok (ec_dec_update fl fh ft (snd D))"
proof -
  note r = div_pow_pos [OF d ft]
  have "val d < 2147483648" using r by simp
  note v = decode_value [OF ft r(1,4) this]
  then show "0 \<le> fst D" "fst D < ft" by (simp_all add: D)
  show "dec_ok (ec_dec_update fl fh ft (snd D))" if "0 \<le> fl" "fl \<le> fst D" "fst D < fh" "fh \<le> ft"
    using ec_dec_update_ok [of "snd D" fl fh ft "fst D"] d v that ft by (simp add: D)
qed

lemma ec_decode_form:
  "ec_decode ft d = (u32 (ft - EC_MINI (u32 (val d div (rng d div ft) + 1)) ft), d\<lparr>ext := rng d div ft\<rparr>)"
  by (simp add: ec_decode_def Let_def celt_udiv_def)

lemma ec_decode_bin_form:
  assumes "0 \<le> bits" "bits \<le> 23"
  shows "ec_decode_bin bits d = (u32 (2 ^ nat bits - EC_MINI (u32 (val d div (rng d div 2 ^ nat bits) + 1)) (2 ^ nat bits)),
    d\<lparr>ext := rng d div 2 ^ nat bits\<rparr>)"
proof -
  have "(2::int) ^ nat bits \<le> 2 ^ 23" using assms by (intro power_increasing) auto
  then have "u32 (2 ^ nat bits) = 2 ^ nat bits" by simp
  then show ?thesis by (simp add: ec_decode_bin_def Let_def shift_arith)
qed

lemma dec_uint_ok:
  assumes d: "dec_ok d" and ft: "1 < ft" "ft < 4294967296"
  shows "dec_ok (snd (ec_dec_uint ft d))" "0 \<le> fst (ec_dec_uint ft d)" "fst (ec_dec_uint ft d) < ft"
proof -
  define L where "L = ec_ilog (ft - 1)"
  have L: "ft - 1 < 2 ^ nat L" "1 \<le> L" "L \<le> 32"
    using ec_ilog_bounds [of "ft - 1"] ft by (simp_all add: L_def)
  have u: "u32 (ft - 1) = ft - 1" "u32 ft = ft" using ft by simp_all
  have "dec_ok (snd (ec_dec_uint ft d)) \<and> 0 \<le> fst (ec_dec_uint ft d) \<and> fst (ec_dec_uint ft d) < ft"
  proof (cases "L > 8")
    case False
    have "(2::int) ^ nat L \<le> 2 ^ 8" using False L by (intro power_increasing) auto
    then have f: "0 < ft" "ft \<le> 8388608" using L ft by simp_all
    obtain k d1 where k: "ec_decode ft d = (k, d1)" by (cases "ec_decode ft d")
    have "ec_dec_uint ft d = (k, ec_dec_update k (k + 1) ft d1)"
      using False k by (simp add: ec_dec_uint_def Let_def u L_def [symmetric])
    then show ?thesis
      using ec_decode_ok [OF d f ec_decode_form] k by simp
  next
    case True
    define n where "n = nat (L - 8)"
    define h where "h = (ft - 1) div 2 ^ n + 1"
    have n: "n \<le> 24" "nat L = 8 + n" "int n = L - 8" using True L by (simp_all add: n_def)
    have "(ft - 1) div 2 ^ n < 256" using L(1) by (simp add: int_div_less_iff n(2) power_add)
    moreover have "0 \<le> (ft - 1) div 2 ^ n" using ft by (simp add: pos_imp_zdiv_nonneg_iff)
    ultimately have h: "0 < h" "h \<le> 8388608" by (simp_all add: h_def)
    obtain k d1 where k: "ec_decode h d = (k, d1)" by (cases "ec_decode h d")
    have k1: "0 \<le> k" "k < h" "dec_ok (ec_dec_update k (k + 1) h d1)"
      using ec_decode_ok [OF d h ec_decode_form] k by simp_all
    obtain x d2 where x: "ec_dec_bits (int n) (ec_dec_update k (k + 1) h d1) = (x, d2)"
      by (cases "ec_dec_bits (int n) (ec_dec_update k (k + 1) h d1)")
    have d2: "dec_ok d2" "0 \<le> x" using dec_bits_ok [OF k1(3), of "int n"] n x by simp_all
    define t where "t = u32 (k * 2 ^ n) OR x"
    have t: "0 \<le> t" using d2 by (simp add: t_def u32_range)
    have "ec_dec_uint ft d = (if t \<le> ft - 1 then (t, d2) else (ft - 1, d2\<lparr>error := 1\<rparr>))"
      using True k x by (simp add: ec_dec_uint_def Let_def u L_def [symmetric] n_def [symmetric]
          n(3) [symmetric] shift_arith h_def [symmetric] t_def)
    then show ?thesis using d2 t ft by simp
  qed
  then show "dec_ok (snd (ec_dec_uint ft d))" "0 \<le> fst (ec_dec_uint ft d)" "fst (ec_dec_uint ft d) < ft"
    by simp_all
qed

section \<open>Any symbol, any input\<close>

fun valid_shape :: "ec_shape \<Rightarrow> bool" where
  "valid_shape (Freq_Shape fs) = (list_all (\<lambda>f. 0 \<le> f) fs \<and> 0 < sum_list fs \<and> sum_list fs \<le> 8388608)"
| "valid_shape (Freq_Bin_Shape fs bits) =
    (list_all (\<lambda>f. 0 \<le> f) fs \<and> 0 \<le> bits \<and> bits \<le> 23 \<and> sum_list fs = 2 ^ nat bits)"
| "valid_shape (Bit_Logp_Shape logp) = (1 \<le> logp \<and> logp \<le> 23)"
| "valid_shape (Icdf_Shape icdf ftb) = (icdf_table icdf ftb \<and> 0 \<le> ftb \<and> ftb \<le> 23)"
| "valid_shape (Icdf16_Shape icdf ftb) = (icdf_table icdf ftb \<and> 0 \<le> ftb \<and> ftb \<le> 23)"
| "valid_shape (Uint_Shape ft) = (1 < ft \<and> ft < 4294967296)"
| "valid_shape (Raw_Bits_Shape bits) = (0 \<le> bits \<and> bits \<le> 25)"

lemma find_freq_bounds:
  assumes "list_all (\<lambda>f. 0 \<le> f) fs" "0 \<le> v" "v < sum_list fs"
  shows "find_freq fs v < length fs \<and> 0 < fs ! find_freq fs v
    \<and> cum_freq fs (find_freq fs v) \<le> v \<and> v < cum_freq fs (Suc (find_freq fs v))"
  using assms
proof (induction fs arbitrary: v)
  case (Cons f fs)
  show ?case
  proof (cases "v < f")
    case False
    then have "0 \<le> v - f" "v - f < sum_list fs" "list_all (\<lambda>f. 0 \<le> f) fs" using Cons.prems by simp_all
    with Cons.IH [of "v - f"] False show ?thesis by (simp add: le_diff_eq diff_less_eq add.commute)
  qed (use Cons.prems in simp)
qed simp

lemma get_symbol_ok:
  assumes d: "dec_ok d" and s: "valid_shape sh"
  shows "dec_ok (snd (get_symbol sh d))" "valid_symbol (fst (get_symbol sh d))"
    "symbol_shape (fst (get_symbol sh d)) = sh"
proof -
  have "dec_ok (snd (get_symbol sh d)) \<and> valid_symbol (fst (get_symbol sh d))
    \<and> symbol_shape (fst (get_symbol sh d)) = sh"
  proof (cases sh)
    case (Freq_Shape fs)
    have f: "0 < sum_list fs" "sum_list fs \<le> 8388608" "list_all (\<lambda>f. 0 \<le> f) fs"
      using s Freq_Shape by simp_all
    obtain v d1 where v: "ec_decode (sum_list fs) d = (v, d1)" by (cases "ec_decode (sum_list fs) d")
    note o = ec_decode_ok [OF d f(1,2) ec_decode_form, unfolded v]
    have b: "freqs_ok fs (find_freq fs v)"
      using find_freq_bounds [OF f(3), of v] o(1,2) f by (simp add: freqs_ok_def)
    then show ?thesis
      using o(3) [of "cum_freq fs (find_freq fs v)" "cum_freq fs (Suc (find_freq fs v))"]
        cum_freq_bounds [OF b] find_freq_bounds [OF f(3), of v] o(1,2)
      by (simp add: Freq_Shape v Let_def)
  next
    case (Freq_Bin_Shape fs bits)
    have f: "0 \<le> bits" "bits \<le> 23" "list_all (\<lambda>f. 0 \<le> f) fs" "sum_list fs = 2 ^ nat bits"
      using s Freq_Bin_Shape by simp_all
    have "(2::int) ^ nat bits \<le> 2 ^ 23" using f by (intro power_increasing) auto
    then have p: "0 < (2::int) ^ nat bits" "(2::int) ^ nat bits \<le> 8388608" by simp_all
    obtain v d1 where v: "ec_decode_bin bits d = (v, d1)" by (cases "ec_decode_bin bits d")
    note o = ec_decode_ok [OF d p ec_decode_bin_form [OF f(1,2)], unfolded v]
    have b: "freqs_ok fs (find_freq fs v)"
      using find_freq_bounds [OF f(3), of v] o(1,2) f p by (simp add: freqs_ok_def)
    then show ?thesis
      using o(3) [of "cum_freq fs (find_freq fs v)" "cum_freq fs (Suc (find_freq fs v))"]
        cum_freq_bounds [OF b] find_freq_bounds [OF f(3), of v] o(1,2) f
      by (simp add: Freq_Bin_Shape v Let_def)
  next
    case (Bit_Logp_Shape logp)
    then show ?thesis using dec_bit_logp_ok [OF d, of logp] s by (auto simp: case_prod_beta)
  next
    case (Icdf_Shape icdf ftb)
    then show ?thesis using dec_icdf_ok [OF d, of icdf ftb] s by (simp add: case_prod_beta)
  next
    case (Icdf16_Shape icdf ftb)
    then show ?thesis using dec_icdf_ok [OF d, of icdf ftb] s by (simp add: case_prod_beta)
  next
    case (Uint_Shape ft)
    then show ?thesis using dec_uint_ok [OF d, of ft] s by (simp add: case_prod_beta)
  next
    case (Raw_Bits_Shape bits)
    then show ?thesis using dec_bits_ok [OF d, of bits] s by (simp add: case_prod_beta)
  qed
  then show "dec_ok (snd (get_symbol sh d))" "valid_symbol (fst (get_symbol sh d))"
    "symbol_shape (fst (get_symbol sh d)) = sh" by simp_all
qed

section \<open>Properties\<close>

text \<open>
  C1. A stream of symbols survives the range coder.  Encode any list of valid symbols, of any mix
  of kinds, into a buffer of \<open>sz\<close> bytes and finish without an error: then the decoder, told only
  the kinds of the symbols, returns exactly these symbols, both sides agree on the number of bits
  used, and the finished buffer has the size it started with.
\<close>

theorem range_coder_roundtrip:
  assumes "list_all valid_symbol xs" "bytes b" "int (length b) = sz" "sz < 4294967296"
    "nbits_total (fold put_symbol xs (ec_enc_init b sz)) < 2147483648"
    "error (ec_enc_done (fold put_symbol xs (ec_enc_init b sz))) = 0"
  defines "s \<equiv> fold put_symbol xs (ec_enc_init b sz)"
  defines "d \<equiv> dec_seq get_symbol (map symbol_shape xs) (ec_dec_init (buf (ec_enc_done s)) sz)"
  shows "fst d = xs \<and> ec_tell (snd d) = ec_tell s \<and> ec_tell_frac (snd d) = ec_tell_frac s
    \<and> error (snd d) = 0 \<and> length (buf (ec_enc_done s)) = length b"
  using ec.stream_seq [OF assms(1-6)] coupled_tell unfolding s_def d_def by blast

theorem range_coder_roundtrip_witness:
  "fst (dec_seq get_symbol [Bit_Logp_Shape 3, Uint_Shape 1000, Raw_Bits_Shape 5, Icdf_Shape [200, 90, 0] 8]
     (ec_dec_init (buf (ec_enc_done (fold put_symbol
        [Bit_Logp 1 3, Uint 777 1000, Raw_Bits 19 5, Icdf [200, 90, 0] 8 1]
        (ec_enc_init (replicate 6 0) 6)))) 6))
   = [Bit_Logp 1 3, Uint 777 1000, Raw_Bits 19 5, Icdf [200, 90, 0] 8 1]"
proof -
  let ?xs = "[Bit_Logp 1 3, Uint 777 1000, Raw_Bits 19 5, Icdf [200, 90, 0] 8 1]"
  have "list_all valid_symbol ?xs" by code_simp
  moreover have "bytes (replicate 6 0)" by simp
  moreover have "nbits_total (fold put_symbol ?xs (ec_enc_init (replicate 6 0) 6)) < 2147483648" by code_simp
  moreover have "error (ec_enc_done (fold put_symbol ?xs (ec_enc_init (replicate 6 0) 6))) = 0" by code_simp
  ultimately show ?thesis using range_coder_roundtrip [of ?xs "replicate 6 0" 6] by simp
qed

text \<open>
  C8. Decoding arbitrary bytes is safe.  On any buffer, in any state that satisfies the decoder
  invariant, decoding a sequence of symbols with well-formed tables returns valid symbols of the
  requested kinds (in particular every table index is in range and every uniform integer is below
  its bound), and the decoder invariant holds again.
\<close>

theorem range_decoder_safe:
  assumes "dec_ok d" "list_all valid_shape shs"
  shows "dec_ok (snd (dec_seq get_symbol shs d)) \<and> list_all valid_symbol (fst (dec_seq get_symbol shs d))
    \<and> map symbol_shape (fst (dec_seq get_symbol shs d)) = shs"
  using assms
proof (induction shs arbitrary: d)
  case (Cons sh shs)
  note g = get_symbol_ok [OF Cons.prems(1), of sh]
  show ?case using Cons.IH [of "snd (get_symbol sh d)"] Cons.prems g by (simp add: case_prod_beta)
qed simp

theorem range_decoder_safe_witness:
  "list_all valid_symbol (fst (dec_seq get_symbol [Uint_Shape 1000, Icdf_Shape [200, 90, 0] 8]
    (ec_dec_init [255, 17, 3] 3)))"
proof -
  have "dec_ok (ec_dec_init [255, 17, 3] 3)" by code_simp
  moreover have "list_all valid_shape [Uint_Shape 1000, Icdf_Shape [200, 90, 0] 8]" by code_simp
  ultimately show ?thesis using range_decoder_safe by blast
qed

text \<open>
  C11. Encoding keeps the encoder invariant: after every valid symbol that did not overflow the
  buffer, the interval is normalised (\<open>EC_CODE_BOT < rng \<le> EC_CODE_TOP\<close>), a carry cannot run
  into the bytes already written, and range bytes and raw bytes do not overlap.
\<close>

theorem put_symbol_inv:
  assumes "valid_symbol x" "enc_inv s" "ec_ok (put_symbol x s)"
  shows "enc_inv (put_symbol x s) \<and> EC_CODE_BOT < rng (put_symbol x s)
    \<and> rng (put_symbol x s) \<le> EC_CODE_TOP \<and> offs (put_symbol x s) + end_offs (put_symbol x s) \<le> storage s"
proof -
  have i: "enc_inv (put_symbol x s)" "storage (put_symbol x s) = storage s"
    using ec.step_symbol [OF assms(1)] assms(2,3) unfolding enc_step_def by blast+
  then show ?thesis
    using enc_invD [OF i(1)] by (simp add: enc_inv_def enc_core_def enc_shape_def buf_ok_def)
qed

theorem put_symbol_inv_witness:
  "enc_inv (put_symbol (Uint 777 1000) (ec_enc_init (replicate 6 0) 6))"
proof -
  have "valid_symbol (Uint 777 1000)" by code_simp
  moreover have "enc_inv (ec_enc_init (replicate 6 0) 6)" by (rule ec_enc_init_inv) simp_all
  moreover have "ec_ok (put_symbol (Uint 777 1000) (ec_enc_init (replicate 6 0) 6))" by code_simp
  ultimately show ?thesis using put_symbol_inv by blast
qed

end
