(* ===== verification/Pvq.thy ===== *)
theory Pvq
  imports Opus_Prelude
begin

text \<open>
  The combinatorics behind \<open>celt/cwrs.c\<close>.  \<open>pvq_U\<close> is the function \<open>U(N,K)\<close> of the source
  comments and \<open>pvq_V\<close> the number of integer vectors of length \<open>n\<close> and \<open>l\<^sub>1\<close> norm \<open>k\<close>.
  \<open>pvq_rank\<close> numbers these vectors and \<open>pvq_unrank\<close> is its inverse: together they are a
  bijection with \<open>{0..<pvq_V n k}\<close>, which both implementations refine.
\<close>

section \<open>The recurrence\<close>

fun pvq_U :: "nat \<Rightarrow> nat \<Rightarrow> int" where
  "pvq_U 0 0 = 1"
| "pvq_U 0 (Suc k) = 0"
| "pvq_U (Suc n) 0 = 0"
| "pvq_U (Suc n) (Suc k) = pvq_U n (Suc k) + pvq_U (Suc n) k + pvq_U n k"

definition pvq_V :: "nat \<Rightarrow> nat \<Rightarrow> int" where
  "pvq_V n k = pvq_U n k + pvq_U n (Suc k)"

lemma pvq_U_sym: "pvq_U n k = pvq_U k n"
  by (induction n k rule: pvq_U.induct) simp_all

lemma pvq_U_nonneg: "0 \<le> pvq_U n k"
  by (induction n k rule: pvq_U.induct) simp_all

lemma pvq_U_0 [simp]: "pvq_U (Suc n) 0 = 0" "pvq_U 0 (Suc n) = 0"
  by simp_all

lemma pvq_U_step: "pvq_U (Suc n) (Suc k) = pvq_U (Suc n) k + pvq_V n k"
  by (simp add: pvq_V_def)

lemma pvq_V_nonneg: "0 \<le> pvq_V n k"
  by (simp add: pvq_V_def pvq_U_nonneg)

lemma pvq_U_mono_Suc: "pvq_U (Suc n) k \<le> pvq_U (Suc n) (Suc k)"
  by (simp only: pvq_U_step) (simp add: pvq_V_nonneg)

lemma pvq_U_mono: "j \<le> k \<Longrightarrow> pvq_U (Suc n) j \<le> pvq_U (Suc n) k"
  by (rule lift_Suc_mono_le [of "pvq_U (Suc n)"]) (rule pvq_U_mono_Suc)

lemma pvq_U_1: "pvq_U 1 k = (if k = 0 then 0 else 1)"
  by (induction k) (simp_all, case_tac k, simp_all)

lemma pvq_U_2: "pvq_U 2 k = (if k = 0 then 0 else 2 * int k - 1)"
proof (induction k)
  case (Suc k)
  have "pvq_U 2 (Suc k) = pvq_U 2 k + pvq_U 1 k + pvq_U 1 (Suc k)"
    using pvq_U_step [of 1 k] by (simp add: pvq_V_def numeral_2_eq_2)
  then show ?case using Suc by (simp add: pvq_U_1 del: pvq_U.simps One_nat_def)
qed (simp add: numeral_2_eq_2)

section \<open>Ranking\<close>

definition norm1 :: "int list \<Rightarrow> nat" where
  "norm1 y = (\<Sum>v\<leftarrow>y. nat \<bar>v\<bar>)"

lemma norm1_simps [simp]: "norm1 [] = 0" "norm1 (v # y) = nat \<bar>v\<bar> + norm1 y"
  by (simp_all add: norm1_def)

fun pvq_rank :: "int list \<Rightarrow> int" where
  "pvq_rank [] = 0"
| "pvq_rank (v # y) = pvq_rank y + pvq_U (Suc (length y)) (norm1 y)
    + (if v < 0 then pvq_U (Suc (length y)) (Suc (norm1 (v # y))) else 0)"

lemma pvq_rank_bounds: "0 \<le> pvq_rank y \<and> pvq_rank y < pvq_V (length y) (norm1 y)"
proof (induction y)
  case (Cons v y)
  let ?n = "Suc (length y)" and ?k = "norm1 (v # y)"
  have lt: "pvq_rank y + pvq_U ?n (norm1 y) < pvq_U ?n (Suc (norm1 y))"
    using Cons by (simp only: pvq_U_step) simp
  have ge: "0 \<le> pvq_rank y + pvq_U ?n (norm1 y)" using Cons pvq_U_nonneg by simp
  show ?case
  proof (cases "v < 0")
    case True
    then have "Suc (norm1 y) \<le> ?k" by simp
    then have "pvq_U ?n (Suc (norm1 y)) \<le> pvq_U ?n ?k" by (rule pvq_U_mono)
    moreover have "0 \<le> pvq_U ?n (Suc ?k)" by (rule pvq_U_nonneg)
    ultimately show ?thesis using lt ge True unfolding pvq_V_def pvq_rank.simps by simp
  next
    case False
    have "pvq_U ?n (Suc (norm1 y)) \<le> pvq_U ?n (Suc ?k)" by (rule pvq_U_mono) simp
    moreover have "0 \<le> pvq_U ?n ?k" by (rule pvq_U_nonneg)
    ultimately show ?thesis using lt ge False unfolding pvq_V_def pvq_rank.simps by simp
  qed
qed (simp add: pvq_V_def)

section \<open>Unranking\<close>

text \<open>The largest \<open>j \<le> k\<close> with \<open>pvq_U n j \<le> i\<close>.\<close>

fun pvq_find :: "nat \<Rightarrow> int \<Rightarrow> nat \<Rightarrow> nat" where
  "pvq_find n i 0 = 0"
| "pvq_find n i (Suc k) = (if pvq_U n (Suc k) \<le> i then Suc k else pvq_find n i k)"

fun pvq_unrank :: "nat \<Rightarrow> nat \<Rightarrow> int \<Rightarrow> int list" where
  "pvq_unrank 0 k i = []"
| "pvq_unrank (Suc n) k i =
    (let s = (i \<ge> pvq_U (Suc n) (Suc k));
         i = (if s then i - pvq_U (Suc n) (Suc k) else i);
         j = pvq_find (Suc n) i k;
         v = int k - int j
     in (if s then - v else v) # pvq_unrank n j (i - pvq_U (Suc n) j))"

lemma pvq_find_unique:
  assumes "pvq_U (Suc n) j \<le> i" "i < pvq_U (Suc n) (Suc j)" "j \<le> k"
  shows "pvq_find (Suc n) i k = j"
  using assms(3)
proof (induction k)
  case (Suc k)
  show ?case
  proof (cases "j = Suc k")
    case False
    then have "pvq_U (Suc n) (Suc j) \<le> pvq_U (Suc n) (Suc k)" using Suc.prems by (intro pvq_U_mono) simp
    then show ?thesis using Suc False assms(2) by simp
  qed (use assms in simp)
qed simp

lemma pvq_find_bounds:
  assumes "0 \<le> i" "i < pvq_U (Suc n) (Suc k)"
  shows "pvq_find (Suc n) i k \<le> k" "pvq_U (Suc n) (pvq_find (Suc n) i k) \<le> i"
    "i < pvq_U (Suc n) (Suc (pvq_find (Suc n) i k))"
proof -
  have "pvq_find (Suc n) i k \<le> k \<and> pvq_U (Suc n) (pvq_find (Suc n) i k) \<le> i
      \<and> i < pvq_U (Suc n) (Suc (pvq_find (Suc n) i k))"
    using assms(2) by (induction k) (use assms(1) in \<open>auto simp: le_Suc_eq\<close>)
  then show "pvq_find (Suc n) i k \<le> k" "pvq_U (Suc n) (pvq_find (Suc n) i k) \<le> i"
    "i < pvq_U (Suc n) (Suc (pvq_find (Suc n) i k))" by simp_all
qed

theorem pvq_unrank_rank: "pvq_unrank (length y) (norm1 y) (pvq_rank y) = y"
proof (induction y)
  case (Cons v y)
  let ?n = "Suc (length y)" and ?k = "norm1 (v # y)"
  define r where "r = pvq_rank y + pvq_U ?n (norm1 y)"
  have b: "pvq_U ?n (norm1 y) \<le> r" "r < pvq_U ?n (Suc (norm1 y))"
    using pvq_rank_bounds [of y] by (simp_all only: r_def pvq_U_step) simp_all
  have j: "norm1 y \<le> ?k" by simp
  have f: "pvq_find ?n r ?k = norm1 y" by (rule pvq_find_unique [OF b j])
  have m: "pvq_U ?n (Suc (norm1 y)) \<le> pvq_U ?n (Suc ?k)" by (rule pvq_U_mono) simp
  show ?case
  proof (cases "v < 0")
    case True
    then have "pvq_rank (v # y) = r + pvq_U ?n (Suc ?k)" by (simp add: r_def)
    moreover have "0 \<le> r" using b(1) pvq_U_nonneg [of ?n "norm1 y"] by linarith
    ultimately show ?thesis using Cons True f by (simp add: Let_def r_def del: pvq_U.simps)
  next
    case False
    then have "pvq_rank (v # y) = r" by (simp add: r_def)
    moreover have "\<not> pvq_U ?n (Suc ?k) \<le> r" using b(2) m by linarith
    ultimately show ?thesis using Cons False f by (simp add: Let_def r_def del: pvq_U.simps)
  qed
qed simp

theorem pvq_rank_unrank:
  assumes "0 \<le> i" "i < pvq_V n k"
  shows "length (pvq_unrank n k i) = n \<and> norm1 (pvq_unrank n k i) = k
    \<and> pvq_rank (pvq_unrank n k i) = i"
  using assms
proof (induction n arbitrary: k i)
  case 0
  then show ?case by (cases k) (simp_all add: pvq_V_def)
next
  case (Suc n)
  define s i' j where "s \<longleftrightarrow> i \<ge> pvq_U (Suc n) (Suc k)"
    and "i' = (if s then i - pvq_U (Suc n) (Suc k) else i)" and "j = pvq_find (Suc n) i' k"
  have "pvq_U (Suc n) k \<le> pvq_U (Suc n) (Suc k)" by (rule pvq_U_mono_Suc)
  then have i': "0 \<le> i'" "i' < pvq_U (Suc n) (Suc k)" "s \<longrightarrow> i' < pvq_U (Suc n) k"
    using Suc.prems by (auto simp: i'_def s_def pvq_V_def)
  note b = pvq_find_bounds [OF i'(1,2), folded j_def]
  have jk: "s \<Longrightarrow> j < k"
  proof -
    assume s
    show "j < k"
    proof (rule ccontr)
      assume "\<not> j < k"
      then have "pvq_U (Suc n) k \<le> pvq_U (Suc n) j" by (intro pvq_U_mono) simp
      then show False using b(2) i'(3) \<open>s\<close> by linarith
    qed
  qed
  have r: "0 \<le> i' - pvq_U (Suc n) j" "i' - pvq_U (Suc n) j < pvq_V n j"
    using b(2,3) by (simp_all only: pvq_U_step)
  note IH = Suc.IH [OF r]
  define v where "v = (if s then - (int k - int j) else int k - int j)"
  have eq: "pvq_unrank (Suc n) k i = v # pvq_unrank n j (i' - pvq_U (Suc n) j)"
    by (simp add: Let_def s_def i'_def j_def v_def del: pvq_U.simps)
  have a: "nat \<bar>v\<bar> = k - j" "v < 0 \<longleftrightarrow> s" using b(1) jk by (auto simp: v_def)
  have nm: "norm1 (pvq_unrank (Suc n) k i) = k" unfolding eq using IH a b(1) by simp
  have "pvq_rank (v # pvq_unrank n j (i' - pvq_U (Suc n) j)) = i' + (if s then pvq_U (Suc n) (Suc k) else 0)"
    using IH a nm [unfolded eq] by (simp del: pvq_U.simps norm1_simps)
  then have "pvq_rank (pvq_unrank (Suc n) k i) = i" unfolding eq by (simp add: i'_def)
  moreover have "length (pvq_unrank (Suc n) k i) = Suc n" unfolding eq using IH by simp
  ultimately show ?case using nm by blast
qed

end
