(* ===== verification/Cwrs.thy ===== *)
theory Cwrs
  imports Range_Decoder Pvq
begin

text \<open>
  Pulse vectors (\<open>celt/cwrs.c\<close>): a vector of \<open>n\<close> integers whose absolute values sum to \<open>k\<close> is
  sent as its index in an enumeration of all such vectors.  The table-driven version and the
  \<open>SMALL_FOOTPRINT\<close> version are modelled side by side.
\<close>

section \<open>The table-driven version\<close>

text \<open>The table without the \<open>CUSTOM_MODES\<close> entries, row \<open>N\<close> from \<open>K = N\<close> on.\<close>

definition PVQ_U_N0 :: "int list" where
  "PVQ_U_N0 = [
   1, 0, 0, 0, 0, 0, 0, 0, 0, 0, 0, 0, 0, 0, 0, 0, 0, 0, 0, 0, 0, 0, 0, 0, 0, 0, 0, 0, 0,
   0, 0, 0, 0, 0, 0, 0, 0, 0, 0, 0, 0, 0, 0, 0, 0, 0, 0, 0, 0, 0, 0, 0, 0, 0, 0, 0, 0, 0,
   0, 0, 0, 0, 0, 0, 0, 0, 0, 0, 0, 0, 0, 0, 0, 0, 0, 0, 0, 0, 0, 0, 0, 0, 0, 0, 0, 0, 0,
   0, 0, 0, 0, 0, 0, 0, 0, 0, 0, 0, 0, 0, 0, 0, 0, 0, 0, 0, 0, 0, 0, 0, 0, 0, 0, 0, 0, 0,
   0, 0, 0, 0, 0, 0, 0, 0, 0, 0, 0, 0, 0, 0, 0, 0, 0, 0, 0, 0, 0, 0, 0, 0, 0, 0, 0, 0, 0,
   0, 0, 0, 0, 0, 0, 0, 0, 0, 0, 0, 0, 0, 0, 0, 0, 0, 0, 0, 0, 0, 0, 0, 0, 0, 0, 0, 0, 0,
   0, 0, 0]"

definition PVQ_U_N1 :: "int list" where
  "PVQ_U_N1 = [
   1, 1, 1, 1, 1, 1, 1, 1, 1, 1, 1, 1, 1, 1, 1, 1, 1, 1, 1, 1, 1, 1, 1, 1, 1, 1, 1, 1, 1,
   1, 1, 1, 1, 1, 1, 1, 1, 1, 1, 1, 1, 1, 1, 1, 1, 1, 1, 1, 1, 1, 1, 1, 1, 1, 1, 1, 1, 1,
   1, 1, 1, 1, 1, 1, 1, 1, 1, 1, 1, 1, 1, 1, 1, 1, 1, 1, 1, 1, 1, 1, 1, 1, 1, 1, 1, 1, 1,
   1, 1, 1, 1, 1, 1, 1, 1, 1, 1, 1, 1, 1, 1, 1, 1, 1, 1, 1, 1, 1, 1, 1, 1, 1, 1, 1, 1, 1,
   1, 1, 1, 1, 1, 1, 1, 1, 1, 1, 1, 1, 1, 1, 1, 1, 1, 1, 1, 1, 1, 1, 1, 1, 1, 1, 1, 1, 1,
   1, 1, 1, 1, 1, 1, 1, 1, 1, 1, 1, 1, 1, 1, 1, 1, 1, 1, 1, 1, 1, 1, 1, 1, 1, 1, 1, 1, 1,
   1, 1]"

definition PVQ_U_N2 :: "int list" where
  "PVQ_U_N2 = [
   3, 5, 7, 9, 11, 13, 15, 17, 19, 21, 23, 25, 27, 29, 31, 33, 35, 37, 39, 41, 43, 45, 47,
   49, 51, 53, 55, 57, 59, 61, 63, 65, 67, 69, 71, 73, 75, 77, 79, 81, 83, 85, 87, 89, 91,
   93, 95, 97, 99, 101, 103, 105, 107, 109, 111, 113, 115, 117, 119, 121, 123, 125, 127,
   129, 131, 133, 135, 137, 139, 141, 143, 145, 147, 149, 151, 153, 155, 157, 159, 161,
   163, 165, 167, 169, 171, 173, 175, 177, 179, 181, 183, 185, 187, 189, 191, 193, 195,
   197, 199, 201, 203, 205, 207, 209, 211, 213, 215, 217, 219, 221, 223, 225, 227, 229,
   231, 233, 235, 237, 239, 241, 243, 245, 247, 249, 251, 253, 255, 257, 259, 261, 263,
   265, 267, 269, 271, 273, 275, 277, 279, 281, 283, 285, 287, 289, 291, 293, 295, 297,
   299, 301, 303, 305, 307, 309, 311, 313, 315, 317, 319, 321, 323, 325, 327, 329, 331,
   333, 335, 337, 339, 341, 343, 345, 347, 349, 351]"

definition PVQ_U_N3 :: "int list" where
  "PVQ_U_N3 = [
   13, 25, 41, 61, 85, 113, 145, 181, 221, 265, 313, 365, 421, 481, 545, 613, 685, 761,
   841, 925, 1013, 1105, 1201, 1301, 1405, 1513, 1625, 1741, 1861, 1985, 2113, 2245, 2381,
   2521, 2665, 2813, 2965, 3121, 3281, 3445, 3613, 3785, 3961, 4141, 4325, 4513, 4705,
   4901, 5101, 5305, 5513, 5725, 5941, 6161, 6385, 6613, 6845, 7081, 7321, 7565, 7813,
   8065, 8321, 8581, 8845, 9113, 9385, 9661, 9941, 10225, 10513, 10805, 11101, 11401,
   11705, 12013, 12325, 12641, 12961, 13285, 13613, 13945, 14281, 14621, 14965, 15313,
   15665, 16021, 16381, 16745, 17113, 17485, 17861, 18241, 18625, 19013, 19405, 19801,
   20201, 20605, 21013, 21425, 21841, 22261, 22685, 23113, 23545, 23981, 24421, 24865,
   25313, 25765, 26221, 26681, 27145, 27613, 28085, 28561, 29041, 29525, 30013, 30505,
   31001, 31501, 32005, 32513, 33025, 33541, 34061, 34585, 35113, 35645, 36181, 36721,
   37265, 37813, 38365, 38921, 39481, 40045, 40613, 41185, 41761, 42341, 42925, 43513,
   44105, 44701, 45301, 45905, 46513, 47125, 47741, 48361, 48985, 49613, 50245, 50881,
   51521, 52165, 52813, 53465, 54121, 54781, 55445, 56113, 56785, 57461, 58141, 58825,
   59513, 60205, 60901, 61601]"

definition PVQ_U_N4 :: "int list" where
  "PVQ_U_N4 = [
   63, 129, 231, 377, 575, 833, 1159, 1561, 2047, 2625, 3303, 4089, 4991, 6017, 7175, 8473,
   9919, 11521, 13287, 15225, 17343, 19649, 22151, 24857, 27775, 30913, 34279, 37881,
   41727, 45825, 50183, 54809, 59711, 64897, 70375, 76153, 82239, 88641, 95367, 102425,
   109823, 117569, 125671, 134137, 142975, 152193, 161799, 171801, 182207, 193025, 204263,
   215929, 228031, 240577, 253575, 267033, 280959, 295361, 310247, 325625, 341503, 357889,
   374791, 392217, 410175, 428673, 447719, 467321, 487487, 508225, 529543, 551449, 573951,
   597057, 620775, 645113, 670079, 695681, 721927, 748825, 776383, 804609, 833511, 863097,
   893375, 924353, 956039, 988441, 1021567, 1055425, 1090023, 1125369, 1161471, 1198337,
   1235975, 1274393, 1313599, 1353601, 1394407, 1436025, 1478463, 1521729, 1565831,
   1610777, 1656575, 1703233, 1750759, 1799161, 1848447, 1898625, 1949703, 2001689,
   2054591, 2108417, 2163175, 2218873, 2275519, 2333121, 2391687, 2451225, 2511743,
   2573249, 2635751, 2699257, 2763775, 2829313, 2895879, 2963481, 3032127, 3101825,
   3172583, 3244409, 3317311, 3391297, 3466375, 3542553, 3619839, 3698241, 3777767,
   3858425, 3940223, 4023169, 4107271, 4192537, 4278975, 4366593, 4455399, 4545401,
   4636607, 4729025, 4822663, 4917529, 5013631, 5110977, 5209575, 5309433, 5410559,
   5512961, 5616647, 5721625, 5827903, 5935489, 6044391, 6154617, 6266175, 6379073,
   6493319, 6608921, 6725887, 6844225, 6963943, 7085049, 7207551]"

definition PVQ_U_N5 :: "int list" where
  "PVQ_U_N5 = [
   321, 681, 1289, 2241, 3649, 5641, 8361, 11969, 16641, 22569, 29961, 39041, 50049, 63241,
   78889, 97281, 118721, 143529, 172041, 204609, 241601, 283401, 330409, 383041, 441729,
   506921, 579081, 658689, 746241, 842249, 947241, 1061761, 1186369, 1321641, 1468169,
   1626561, 1797441, 1981449, 2179241, 2391489, 2618881, 2862121, 3121929, 3399041,
   3694209, 4008201, 4341801, 4695809, 5071041, 5468329, 5888521, 6332481, 6801089,
   7295241, 7815849, 8363841, 8940161, 9545769, 10181641, 10848769, 11548161, 12280841,
   13047849, 13850241, 14689089, 15565481, 16480521, 17435329, 18431041, 19468809,
   20549801, 21675201, 22846209, 24064041, 25329929, 26645121, 28010881, 29428489,
   30899241, 32424449, 34005441, 35643561, 37340169, 39096641, 40914369, 42794761,
   44739241, 46749249, 48826241, 50971689, 53187081, 55473921, 57833729, 60268041,
   62778409, 65366401, 68033601, 70781609, 73612041, 76526529, 79526721, 82614281,
   85790889, 89058241, 92418049, 95872041, 99421961, 103069569, 106816641, 110664969,
   114616361, 118672641, 122835649, 127107241, 131489289, 135983681, 140592321, 145317129,
   150160041, 155123009, 160208001, 165417001, 170752009, 176215041, 181808129, 187533321,
   193392681, 199388289, 205522241, 211796649, 218213641, 224775361, 231483969, 238341641,
   245350569, 252512961, 259831041, 267307049, 274943241, 282741889, 290705281, 298835721,
   307135529, 315607041, 324252609, 333074601, 342075401, 351257409, 360623041, 370174729,
   379914921, 389846081, 399970689, 410291241, 420810249, 431530241, 442453761, 453583369,
   464921641, 476471169, 488234561, 500214441, 512413449, 524834241, 537479489, 550351881,
   563454121, 576788929, 590359041, 604167209, 618216201, 632508801]"

definition PVQ_U_N6 :: "int list" where
  "PVQ_U_N6 = [
   1683, 3653, 7183, 13073, 22363, 36365, 56695, 85305, 124515, 177045, 246047, 335137,
   448427, 590557, 766727, 982729, 1244979, 1560549, 1937199, 2383409, 2908411, 3522221,
   4235671, 5060441, 6009091, 7095093, 8332863, 9737793, 11326283, 13115773, 15124775,
   17372905, 19880915, 22670725, 25765455, 29189457, 32968347, 37129037, 41699767,
   46710137, 52191139, 58175189, 64696159, 71789409, 79491819, 87841821, 96879431,
   106646281, 117185651, 128542501, 140763503, 153897073, 167993403, 183104493, 199284183,
   216588185, 235074115, 254801525, 275831935, 298228865, 322057867, 347386557, 374284647,
   402823977, 433078547, 465124549, 499040399, 534906769, 572806619, 612825229, 655050231,
   699571641, 746481891, 795875861, 847850911, 902506913, 959946283, 1020274013,
   1083597703, 1150027593, 1219676595, 1292660325, 1369097135, 1449108145, 1532817275,
   1620351277, 1711839767, 1807415257, 1907213187, 2011371957, 2120032959]"

definition PVQ_U_N7 :: "int list" where
  "PVQ_U_N7 = [
   8989, 19825, 40081, 75517, 134245, 227305, 369305, 579125, 880685, 1303777, 1884961,
   2668525, 3707509, 5064793, 6814249, 9041957, 11847485, 15345233, 19665841, 24957661,
   31388293, 39146185, 48442297, 59511829, 72616013, 88043969, 106114625, 127178701,
   151620757, 179861305, 212358985, 249612805, 292164445, 340600625, 395555537, 457713341,
   527810725, 606639529, 695049433, 793950709, 904317037, 1027188385, 1163673953,
   1314955181, 1482288821, 1667010073, 1870535785, 2094367717]"

definition PVQ_U_N8 :: "int list" where
  "PVQ_U_N8 = [
   48639, 108545, 224143, 433905, 795455, 1392065, 2340495, 3800305, 5984767, 9173505,
   13726991, 20103025, 28875327, 40754369, 56610575, 77500017, 104692735, 139703809,
   184327311, 240673265, 311207743, 398796225, 506750351, 638878193, 799538175, 993696769,
   1226990095, 1505789553, 1837271615, 2229491905]"

definition PVQ_U_N9 :: "int list" where
  "PVQ_U_N9 = [
   265729, 598417, 1256465, 2485825, 4673345, 8405905, 14546705, 24331777, 39490049,
   62390545, 96220561, 145198913, 214828609, 312193553, 446304145, 628496897, 872893441,
   1196924561, 1621925137, 2173806145]"

definition PVQ_U_N10 :: "int list" where
  "PVQ_U_N10 = [
   1462563, 3317445, 7059735, 14218905, 27298155, 50250765, 89129247, 152951073, 254831667,
   413442773, 654862247, 1014889769, 1541911931, 2300409629, 3375210671]"

definition PVQ_U_N11 :: "int list" where
  "PVQ_U_N11 = [
   8097453, 18474633, 39753273, 81270333, 158819253, 298199265, 540279585, 948062325,
   1616336765]"

definition PVQ_U_N12 :: "int list" where
  "PVQ_U_N12 = [
   45046719, 103274625, 224298231, 464387817, 921406335, 1759885185, 3248227095]"

definition PVQ_U_N13 :: "int list" where
  "PVQ_U_N13 = [
   251595969, 579168825, 1267854873, 2653649025]"

definition PVQ_U_N14 :: "int list" where
  "PVQ_U_N14 = [
   1409933619]"

definition CELT_PVQ_U_ROWS :: "int list list" where
  "CELT_PVQ_U_ROWS = [PVQ_U_N0, PVQ_U_N1, PVQ_U_N2, PVQ_U_N3, PVQ_U_N4, PVQ_U_N5, PVQ_U_N6,
     PVQ_U_N7, PVQ_U_N8, PVQ_U_N9, PVQ_U_N10, PVQ_U_N11, PVQ_U_N12,
     PVQ_U_N13, PVQ_U_N14]"

definition CELT_PVQ_U_DATA :: "int list" where
  "CELT_PVQ_U_DATA = concat CELT_PVQ_U_ROWS"

text \<open>Row pointers, as offsets into the data.\<close>

definition CELT_PVQ_U_ROW :: "nat list" where
  "CELT_PVQ_U_ROW = [
   0, 176, 351, 525, 698, 870, 1041, 1131, 1178, 1207, 1226, 1240, 1248, 1254, 1257]"

text \<open>\<open>CELT_PVQ_U_ROW[r][c]\<close>, and the macros that order the indices.\<close>

definition pvq_at :: "nat \<Rightarrow> nat \<Rightarrow> int" where
  "pvq_at r c = CELT_PVQ_U_DATA ! (CELT_PVQ_U_ROW ! r + c)"

definition CELT_PVQ_U :: "nat \<Rightarrow> nat \<Rightarrow> int" where
  "CELT_PVQ_U n k = pvq_at (min n k) (max n k)"

definition CELT_PVQ_V :: "nat \<Rightarrow> nat \<Rightarrow> int" where
  "CELT_PVQ_V n k = u32 (CELT_PVQ_U n k + CELT_PVQ_U n (k + 1))"

text \<open>The loop of \<open>icwrs\<close>, entered with the index of the last element.\<close>

fun icwrs_loop :: "nat \<Rightarrow> int list \<Rightarrow> nat \<Rightarrow> int \<Rightarrow> nat \<Rightarrow> int" where
  "icwrs_loop n y 0 i k = i"
| "icwrs_loop n y (Suc j) i k =
    (let i = u32 (i + CELT_PVQ_U (n - j) k);
         k = k + nat \<bar>y ! j\<bar>;
         i = (if y ! j < 0 then u32 (i + CELT_PVQ_U (n - j) (k + 1)) else i)
     in icwrs_loop n y j i k)"

definition icwrs :: "nat \<Rightarrow> int list \<Rightarrow> int" where
  "icwrs n y =
    (let j = n - 1
     in icwrs_loop n y j (cbool (y ! j < 0)) (nat \<bar>y ! j\<bar>))"

definition encode_pulses :: "int list \<Rightarrow> nat \<Rightarrow> nat \<Rightarrow> ec_ctx \<Rightarrow> ec_ctx" where
  "encode_pulses y n k s = ec_enc_uint (icwrs n y) (CELT_PVQ_V n k) s"

text \<open>
  \<open>do p=CELT_PVQ_U_ROW[--_k][_n]; while(p>_i);\<close> and \<open>for(p=row[_k];p>_i;p=row[_k])_k--;\<close>.  Both
  stop at the latest where the table holds 0; they return \<open>(_k, p)\<close>.
\<close>

fun pvq_search_col :: "nat \<Rightarrow> int \<Rightarrow> nat \<Rightarrow> nat \<times> int" where
  "pvq_search_col n i 0 = (0, pvq_at 0 n)"
| "pvq_search_col n i (Suc k) =
    (let p = pvq_at k n in if p > i then pvq_search_col n i k else (k, p))"

fun pvq_search_row :: "nat \<Rightarrow> int \<Rightarrow> nat \<Rightarrow> nat \<times> int" where
  "pvq_search_row n i 0 = (0, pvq_at n 0)"
| "pvq_search_row n i (Suc k) =
    (let p = pvq_at n (Suc k) in if p > i then pvq_search_row n i k else (Suc k, p))"

text \<open>\<open>val=(k0-_k+s)^s\<close>, stored in an \<open>opus_int16\<close>.\<close>

definition pvq_val :: "nat \<Rightarrow> nat \<Rightarrow> int \<Rightarrow> int" where
  "pvq_val k0 k s = i16 ((int k0 - int k + s) XOR s)"

text \<open>
  One round of the main loop of \<open>cwrsi\<close>: the element it stores, and the new \<open>_k\<close> and \<open>_i\<close>.
\<close>

definition cwrsi_step :: "nat \<Rightarrow> nat \<Rightarrow> int \<Rightarrow> int \<times> nat \<times> int" where
  "cwrsi_step n k i =
    (if k \<ge> n then
       let p = pvq_at n (k + 1);
           s = - cbool (i \<ge> p);
           i = u32 (i - (p AND s));
           k0 = k;
           q = pvq_at n n;
           (k, p) = (if q > i then pvq_search_col n i n else pvq_search_row n i k)
       in (pvq_val k0 k s, k, u32 (i - p))
     else
       let p = pvq_at k n;
           q = pvq_at (k + 1) n
       in if p \<le> i \<and> i < q then (0, k, u32 (i - p))
          else
            let s = - cbool (i \<ge> q);
                i = u32 (i - (q AND s));
                k0 = k;
                (k, p) = pvq_search_col n i k
            in (pvq_val k0 k s, k, u32 (i - p)))"

text \<open>The last two elements.\<close>

definition cwrsi_last :: "nat \<Rightarrow> int \<Rightarrow> int list" where
  "cwrsi_last k i =
    (let p = 2 * int k + 1;
         s = - cbool (i \<ge> p);
         i = u32 (i - (p AND s));
         k0 = k;
         k = nat (drop_bit 1 (u32 (i + 1)));
         i = (if k \<noteq> 0 then u32 (i - (2 * int k - 1)) else i);
         v = pvq_val k0 k s;
         s = - i
     in [v, i16 ((int k + s) XOR s)])"

fun cwrsi_loop :: "nat \<Rightarrow> nat \<Rightarrow> int \<Rightarrow> int list" where
  "cwrsi_loop n k i =
    (if n > 2 then let (v, k, i) = cwrsi_step n k i in v # cwrsi_loop (n - 1) k i
     else cwrsi_last k i)"

declare cwrsi_loop.simps [simp del]

text \<open>
  \<open>cwrsi\<close> returns the vector and its squared norm; a zero element that \<open>MAC16_16\<close> skips adds
  nothing.
\<close>

definition sum_sq :: "int list \<Rightarrow> int" where
  "sum_sq y = fold (\<lambda>v yy. yy + v * v) y 0"

definition cwrsi :: "nat \<Rightarrow> nat \<Rightarrow> int \<Rightarrow> int list \<times> int" where
  "cwrsi n k i = (let y = cwrsi_loop n k i in (y, sum_sq y))"

definition decode_pulses :: "nat \<Rightarrow> nat \<Rightarrow> ec_ctx \<Rightarrow> (int list \<times> int) \<times> ec_ctx" where
  "decode_pulses n k d = (let (i, d) = ec_dec_uint (CELT_PVQ_V n k) d in (cwrsi n k i, d))"

section \<open>The table holds the recurrence\<close>

definition pvq_max :: "nat list" where
  "pvq_max = [176, 176, 176, 176, 176, 176, 96, 54, 37, 28, 24, 19, 18, 16, 14]"

text \<open>The entries the table has.\<close>

definition in_table :: "nat \<Rightarrow> nat \<Rightarrow> bool" where
  "in_table n k \<longleftrightarrow> min n k < 15 \<and> max n k \<le> pvq_max ! min n k"

fun pvq_next :: "int \<Rightarrow> int \<Rightarrow> int list \<Rightarrow> int list" where
  "pvq_next a b [] = []"
| "pvq_next a b (c # cs) = (let d = c + b + a in d # pvq_next c d cs)"

primrec pvq_row :: "nat \<Rightarrow> nat \<Rightarrow> int list" where
  "pvq_row m 0 = 1 # replicate m 0"
| "pvq_row m (Suc n) = 0 # pvq_next (hd (pvq_row m n)) 0 (tl (pvq_row m n))"

lemma pvq_next_eq:
  "j \<le> m \<Longrightarrow> pvq_next (pvq_U n j) (pvq_U (Suc n) j) (map (pvq_U n) [Suc j..<Suc m])
    = map (pvq_U (Suc n)) [Suc j..<Suc m]"
proof (induction "m - j" arbitrary: j)
  case (Suc d)
  then have j: "j < m" by simp
  have "[Suc j..<Suc m] = Suc j # [Suc (Suc j)..<Suc m]" using j by (simp add: upt_rec)
  then show ?case using Suc(1) [of "Suc j"] Suc(2) j by (simp add: Let_def add.commute add.left_commute)
qed simp

lemma pvq_row_eq: "pvq_row m n = map (pvq_U n) [0..<Suc m]"
proof (induction n)
  case 0
  have "map (pvq_U 0) [Suc 0..<Suc m] = replicate m 0"
    by (rule nth_equalityI) (simp_all del: upt_Suc)
  then show ?case by (simp add: upt_rec del: upt_Suc)
next
  case (Suc n)
  have "[0..<Suc m] = 0 # [Suc 0..<Suc m]" by (simp add: upt_rec)
  then show ?case using Suc pvq_next_eq [of 0 m n] by (simp del: upt_Suc)
qed

text \<open>Row \<open>n\<close> of the table is the recurrence from column \<open>n\<close> on.\<close>

fun is_prefix :: "int list \<Rightarrow> int list \<Rightarrow> bool" where
  "is_prefix [] ys = True"
| "is_prefix (x # xs) [] = False"
| "is_prefix (x # xs) (y # ys) = (x = y \<and> is_prefix xs ys)"

fun table_rows_ok :: "nat \<Rightarrow> int list list \<Rightarrow> int list \<Rightarrow> bool" where
  "table_rows_ok n [] row = True"
| "table_rows_ok n (r # rs) row = (is_prefix r (drop n row)
    \<and> table_rows_ok (Suc n) rs (0 # pvq_next (hd row) 0 (tl row)))"

lemma all_table_rows_ok: "table_rows_ok 0 CELT_PVQ_U_ROWS (pvq_row 176 0)"
  by code_simp

lemma row_lengths:
  "map length CELT_PVQ_U_ROWS = [177, 176, 175, 174, 173, 172, 91, 48, 30, 20, 15, 9, 7, 4, 1]"
  by code_simp

lemma is_prefix_nth: "is_prefix xs ys \<Longrightarrow> i < length xs \<Longrightarrow> xs ! i = ys ! i \<and> i < length ys"
proof (induction xs ys arbitrary: i rule: is_prefix.induct)
  case (3 x xs y ys)
  then show ?case by (cases i) simp_all
qed simp_all

lemma table_rows_okD:
  "table_rows_ok n rs (pvq_row 176 n) \<Longrightarrow> j < length rs \<Longrightarrow> is_prefix (rs ! j) (drop (n + j) (pvq_row 176 (n + j)))"
proof (induction rs arbitrary: n j)
  case (Cons r rs)
  then show ?case using Cons.IH [of "Suc n" "j - 1"] by (cases j) simp_all
qed simp

lemma concat_nth:
  "n < length xss \<Longrightarrow> j < length (xss ! n) \<Longrightarrow>
    concat xss ! (sum_list (map length (take n xss)) + j) = xss ! n ! j"
proof (induction xss arbitrary: n)
  case (Cons xs xss)
  then show ?case by (cases n) (simp_all add: nth_append add.assoc)
qed simp

text \<open>Where each row starts, and its last column.\<close>

definition row_start_ok :: "nat \<Rightarrow> bool" where
  "row_start_ok n \<longleftrightarrow> CELT_PVQ_U_ROW ! n + n
       = sum_list (take n [177, 176, 175, 174, 173, 172, 91, 48, 30, 20, 15, 9, 7, 4, 1])
     \<and> [177, 176, 175, 174, 173, 172, 91, 48, 30, 20, 15, 9, 7, 4, 1] ! n + n = Suc (pvq_max ! n)
     \<and> pvq_max ! n \<le> 176"

lemma row_starts: "n < 15 \<Longrightarrow> row_start_ok n"
proof -
  have "list_all row_start_ok [0..<15]" by code_simp
  then show "n < 15 \<Longrightarrow> row_start_ok n" unfolding list_all_iff set_upt by auto
qed

lemma row_length: "n < 15 \<Longrightarrow> length (CELT_PVQ_U_ROWS ! n) + n = Suc (pvq_max ! n)"
proof -
  assume n: "n < 15"
  have l: "length CELT_PVQ_U_ROWS = 15" by (simp add: CELT_PVQ_U_ROWS_def)
  then have "length (CELT_PVQ_U_ROWS ! n) = map length CELT_PVQ_U_ROWS ! n" using n by simp
  then show ?thesis using row_starts [OF n] by (simp only: row_lengths row_start_ok_def)
qed

lemma pvq_at_eq:
  assumes n: "n < 15" and k: "n \<le> k" "k \<le> pvq_max ! n"
  shows "pvq_at n k = pvq_U n k"
proof -
  have l: "n < length CELT_PVQ_U_ROWS" using n by (simp add: CELT_PVQ_U_ROWS_def)
  have k': "k - n < length (CELT_PVQ_U_ROWS ! n)" using row_length [OF n] k by simp
  have "sum_list (map length (take n CELT_PVQ_U_ROWS)) = CELT_PVQ_U_ROW ! n + n"
    using row_starts [OF n] by (simp only: take_map [symmetric] row_lengths row_start_ok_def)
  then have "CELT_PVQ_U_DATA ! (CELT_PVQ_U_ROW ! n + n + (k - n)) = CELT_PVQ_U_ROWS ! n ! (k - n)"
    using concat_nth [OF l k'] by (simp add: CELT_PVQ_U_DATA_def)
  then have "pvq_at n k = CELT_PVQ_U_ROWS ! n ! (k - n)" using k by (simp add: pvq_at_def)
  moreover have "is_prefix (CELT_PVQ_U_ROWS ! n) (drop n (pvq_row 176 n))"
    using table_rows_okD [OF all_table_rows_ok l] by simp
  from is_prefix_nth [OF this k'] have "CELT_PVQ_U_ROWS ! n ! (k - n) = pvq_row 176 n ! k"
    using k by (auto simp: nth_drop)
  moreover have "k < 177" using k row_starts [OF n] by (simp add: row_start_ok_def)
  ultimately show ?thesis by (simp add: pvq_row_eq del: upt_Suc)
qed

lemma pvq_max_mono: "m \<le> n \<Longrightarrow> n < 15 \<Longrightarrow> pvq_max ! n \<le> pvq_max ! m"
proof -
  have "sorted (rev pvq_max)" "length pvq_max = 15" by code_simp+
  then show "m \<le> n \<Longrightarrow> n < 15 \<Longrightarrow> pvq_max ! n \<le> pvq_max ! m"
    using sorted_rev_nth_mono [of pvq_max m n] by simp
qed

lemma in_table_mono: "in_table n k \<Longrightarrow> m \<le> n \<Longrightarrow> j \<le> k \<Longrightarrow> in_table m j"
proof -
  assume a: "in_table n k" "m \<le> n" "j \<le> k"
  then have "min m j \<le> min n k" "max m j \<le> max n k" by auto
  moreover have "pvq_max ! min n k \<le> pvq_max ! min m j"
    using a \<open>min m j \<le> min n k\<close> by (intro pvq_max_mono) (simp_all add: in_table_def)
  ultimately show ?thesis using a(1) unfolding in_table_def by linarith
qed

lemma CELT_PVQ_U_eq: "in_table n k \<Longrightarrow> CELT_PVQ_U n k = pvq_U n k"
proof -
  assume t: "in_table n k"
  then have "CELT_PVQ_U n k = pvq_U (min n k) (max n k)"
    unfolding CELT_PVQ_U_def by (intro pvq_at_eq) (auto simp: in_table_def)
  then show ?thesis by (simp add: min_def max_def pvq_U_sym split: if_splits)
qed

text \<open>The band sizes and pulse counts the coder supports.\<close>

definition pvq_ok :: "nat \<Rightarrow> nat \<Rightarrow> bool" where
  "pvq_ok n k \<longleftrightarrow> in_table n (Suc k) \<and> CELT_PVQ_U n k + CELT_PVQ_U n (Suc k) < 4294967296"

lemma pvq_okD:
  assumes "pvq_ok n k"
  shows "in_table n (Suc k)" "in_table n k" "pvq_V n k < 4294967296" "CELT_PVQ_V n k = pvq_V n k"
    "k < 177"
proof -
  show t: "in_table n (Suc k)" using assms by (simp add: pvq_ok_def)
  then show t': "in_table n k" by (rule in_table_mono) simp_all
  then show lt: "pvq_V n k < 4294967296"
    using assms t by (simp add: pvq_ok_def pvq_V_def CELT_PVQ_U_eq del: pvq_U.simps)
  then show "CELT_PVQ_V n k = pvq_V n k"
    using t t' pvq_V_nonneg [of n k] by (simp add: CELT_PVQ_V_def pvq_V_def CELT_PVQ_U_eq del: pvq_U.simps)
  have "pvq_max ! min n (Suc k) \<le> 176" using t row_starts by (simp add: in_table_def row_start_ok_def)
  then show "k < 177" using t by (simp add: in_table_def)
qed

section \<open>Encoding computes the rank\<close>

lemma pvq_rank_drop_le: "pvq_rank (drop j y) \<le> pvq_rank y"
proof (induction y arbitrary: j)
  case (Cons v y)
  show ?case
  proof (cases j)
    case (Suc i)
    have "0 \<le> pvq_U (Suc (length y)) (norm1 y)" "0 \<le> pvq_U (Suc (length y)) (Suc (norm1 (v # y)))"
      by (rule pvq_U_nonneg)+
    then have "pvq_rank y \<le> pvq_rank (v # y)" by (simp del: pvq_U.simps norm1_simps)
    then show ?thesis using Cons [of i] Suc by simp
  qed simp
qed simp

lemma norm1_drop_le: "norm1 (drop j y) \<le> norm1 y"
proof (induction y arbitrary: j)
  case (Cons v y)
  then show ?case by (cases j) (simp_all add: trans_le_add2)
qed simp

lemma icwrs_loop_rank:
  assumes y: "length y = n" "in_table n (Suc (norm1 y))" "pvq_rank y < 4294967296"
  shows "j \<le> n \<Longrightarrow> icwrs_loop n y j (pvq_rank (drop j y)) (norm1 (drop j y)) = pvq_rank y"
proof (induction j)
  case (Suc j)
  let ?z = "drop (Suc j) y" and ?m = "n - j"
  have d: "drop j y = y ! j # ?z" using Suc.prems y(1) by (simp add: Cons_nth_drop_Suc)
  have m: "Suc (length ?z) = ?m" using Suc.prems y(1) by simp
  have k: "norm1 (drop j y) = norm1 ?z + nat \<bar>y ! j\<bar>" by (simp add: d)
  have t: "CELT_PVQ_U ?m (norm1 ?z) = pvq_U ?m (norm1 ?z)"
    "CELT_PVQ_U ?m (Suc (norm1 (drop j y))) = pvq_U ?m (Suc (norm1 (drop j y)))"
    using norm1_drop_le [of "Suc j" y] norm1_drop_le [of j y]
    by (auto intro!: CELT_PVQ_U_eq in_table_mono [OF y(2)])
  have r: "pvq_rank (drop j y) = pvq_rank ?z + pvq_U ?m (norm1 ?z)
      + (if y ! j < 0 then pvq_U ?m (Suc (norm1 (drop j y))) else 0)"
    unfolding d pvq_rank.simps m by simp
  have nn: "0 \<le> pvq_rank ?z" "0 \<le> pvq_U ?m (norm1 ?z)" "0 \<le> pvq_U ?m (Suc (norm1 (drop j y)))"
    using pvq_rank_bounds pvq_U_nonneg by blast+
  have "pvq_rank (drop j y) < 4294967296" using pvq_rank_drop_le [of j y] y(3) by linarith
  then have "u32 (pvq_rank ?z + pvq_U ?m (norm1 ?z)) = pvq_rank ?z + pvq_U ?m (norm1 ?z)"
    "y ! j < 0 \<Longrightarrow> u32 (pvq_rank ?z + pvq_U ?m (norm1 ?z) + pvq_U ?m (Suc (norm1 (drop j y)))) = pvq_rank (drop j y)"
    using r nn by (simp_all split: if_splits)
  then show ?case using Suc t k r by (cases "y ! j < 0") (simp_all add: Let_def)
qed simp

lemma icwrs_rank:
  assumes "length y = n" "2 \<le> n" "pvq_ok n (norm1 y)"
  shows "icwrs n y = pvq_rank y" "0 \<le> pvq_rank y" "pvq_rank y < CELT_PVQ_V n (norm1 y)"
proof -
  note ok = pvq_okD [OF assms(3)]
  have b: "0 \<le> pvq_rank y" "pvq_rank y < pvq_V n (norm1 y)" using pvq_rank_bounds [of y] assms(1) by simp_all
  then show "0 \<le> pvq_rank y" "pvq_rank y < CELT_PVQ_V n (norm1 y)" using ok by simp_all
  let ?j = "n - 1"
  have d: "drop ?j y = [y ! ?j]"
  proof -
    have "drop ?j y = y ! ?j # drop (Suc ?j) y" using assms by (intro Cons_nth_drop_Suc [symmetric]) simp
    then show ?thesis using assms by simp
  qed
  have "pvq_rank (drop ?j y) = cbool (y ! ?j < 0)"
    unfolding d by (simp add: cbool_def pvq_U_1 [unfolded One_nat_def] del: pvq_U.simps)
  moreover have "norm1 (drop ?j y) = nat \<bar>y ! ?j\<bar>" unfolding d by simp
  ultimately show "icwrs n y = pvq_rank y"
    using icwrs_loop_rank [OF assms(1) ok(1), of ?j] b ok(3) by (simp add: icwrs_def Let_def)
qed

section \<open>Decoding inverts the rank\<close>

lemma pvq_val_eq:
  assumes "j \<le> k" "k < 32768"
  shows "pvq_val k j 0 = int k - int j" "pvq_val k j (- 1) = - (int k - int j)"
proof -
  show "pvq_val k j 0 = int k - int j" using assms by (simp add: pvq_val_def)
  have "(int k - int j + - 1) XOR - 1 = NOT (int k - int j - 1)" by (simp add: xor.commute)
  also have "\<dots> = - (int k - int j)" by (simp add: not_int_def)
  finally show "pvq_val k j (- 1) = - (int k - int j)" using assms by (simp add: pvq_val_def)
qed

text \<open>What one round has to deliver.\<close>

definition unrank_step :: "nat \<Rightarrow> nat \<Rightarrow> int \<Rightarrow> int \<times> nat \<times> int" where
  "unrank_step n k i =
    (let s = (i \<ge> pvq_U n (Suc k));
         i = (if s then i - pvq_U n (Suc k) else i);
         j = pvq_find n i k;
         v = int k - int j
     in (if s then - v else v, j, i - pvq_U n j))"

lemma pvq_unrank_step:
  "pvq_unrank (Suc n) k i = (case unrank_step (Suc n) k i of (v, k, i) \<Rightarrow> v # pvq_unrank n k i)"
  by (simp add: unrank_step_def Let_def del: pvq_U.simps)

lemma search_col:
  assumes j: "pvq_U n j \<le> i" "i < pvq_U n (Suc j)" "0 < n"
  shows "j < k \<Longrightarrow> k \<le> n \<Longrightarrow> in_table n k \<Longrightarrow> pvq_search_col n i k = (j, pvq_U n j)"
proof (induction k)
  case (Suc k)
  obtain m where m: "n = Suc m" using j(3) by (cases n) auto
  have t: "in_table n k" using Suc.prems(3) by (rule in_table_mono) simp_all
  have at: "pvq_at k n = pvq_U n k" using CELT_PVQ_U_eq [OF t] Suc.prems
    by (simp add: CELT_PVQ_U_def min_absorb2 max_absorb1)
  show ?case
  proof (cases "j = k")
    case False
    then have "pvq_U n (Suc j) \<le> pvq_U n k" unfolding m using Suc.prems by (intro pvq_U_mono) simp
    then show ?thesis using Suc False at j t by (simp add: Let_def)
  qed (use at j in \<open>simp add: Let_def\<close>)
qed simp

lemma search_row:
  assumes t: "in_table n (Suc k)" and j: "pvq_U n j \<le> i" "i < pvq_U n (Suc j)" "0 < n" "n \<le> j"
  shows "j \<le> k \<Longrightarrow> pvq_search_row n i k = (j, pvq_U n j)"
  using t
proof (induction k)
  case (Suc k)
  obtain m where m: "n = Suc m" using j(3) by (cases n) auto
  have "in_table n (Suc k)" using Suc.prems(2) by (rule in_table_mono) simp_all
  then have at: "pvq_at n (Suc k) = pvq_U n (Suc k)" and t: "in_table n (Suc k)"
    using CELT_PVQ_U_eq [of n "Suc k"] Suc.prems j(4) by (simp_all add: CELT_PVQ_U_def min_def max_def)
  show ?case
  proof (cases "j = Suc k")
    case False
    then have "pvq_U n (Suc j) \<le> pvq_U n (Suc k)" unfolding m using Suc.prems by (intro pvq_U_mono) simp
    then show ?thesis using Suc.IH False at j t Suc.prems(1) by (simp add: Let_def)
  qed (use at j in \<open>simp add: Let_def\<close>)
qed (use j in simp)

lemma and_minus_cbool: "p AND - cbool b = (if b then p else 0)"
  by (simp add: cbool_def)

lemma pvq_val_cbool:
  assumes "j \<le> k" "k < 32768"
  shows "pvq_val k j (- cbool b) = (if b then - (int k - int j) else int k - int j)"
  using pvq_val_eq [OF assms] by (cases b) (simp_all add: cbool_def)

lemma pvq_at_eq_U: "in_table m k \<Longrightarrow> m \<le> k \<Longrightarrow> pvq_at m k = pvq_U m k"
  using CELT_PVQ_U_eq [of m k] by (simp add: CELT_PVQ_U_def min_def max_def)

lemma pvq_at_eq_col: "in_table n k \<Longrightarrow> k \<le> n \<Longrightarrow> pvq_at k n = pvq_U n k"
  using CELT_PVQ_U_eq [of n k] by (simp add: CELT_PVQ_U_def min_absorb2 max_absorb1)

lemma cwrsi_step_ge:
  assumes n: "n = Suc m" and k: "n \<le> k" and t: "in_table n (Suc k)" "k < 32768"
    and i: "0 \<le> i" "i < pvq_V n k" "pvq_V n k < 4294967296"
  shows "cwrsi_step n k i = unrank_step n k i"
proof -
  define s where "s = (i \<ge> pvq_U n (Suc k))"
  define i' where "i' = (if s then i - pvq_U n (Suc k) else i)"
  define j where "j = pvq_find n i' k"
  have up: "pvq_U n k \<le> pvq_U n (Suc k)" unfolding n by (rule pvq_U_mono_Suc)
  have i': "0 \<le> i'" "i' < pvq_U n (Suc k)" "i' \<le> i"
    using i up pvq_U_nonneg [of n "Suc k"] by (auto simp: i'_def s_def pvq_V_def simp del: pvq_U.simps)
  have j: "j \<le> k" "pvq_U n j \<le> i'" "i' < pvq_U n (Suc j)"
    using pvq_find_bounds [of i' m k] i' unfolding n j_def by simp_all
  have at: "pvq_at n (Suc k) = pvq_U n (Suc k)" "pvq_at n n = pvq_U n n"
    using pvq_at_eq_U [OF t(1)] pvq_at_eq_U [OF in_table_mono [OF t(1), of n n]] k by simp_all
  have eq: "i - (if s then pvq_U n (Suc k) else 0) = i'" by (simp add: i'_def)
  have u: "u32 (i - (if s then pvq_U n (Suc k) else 0)) = i'" "u32 (i' - pvq_U n j) = i' - pvq_U n j"
    unfolding eq using i' i j pvq_U_nonneg [of n j] by simp_all
  have srch: "(if pvq_U n n > i' then pvq_search_col n i' n else pvq_search_row n i' k) = (j, pvq_U n j)"
  proof (cases "pvq_U n n > i'")
    case True
    have "\<not> n \<le> j" using pvq_U_mono [of n j m] j True unfolding n by linarith
    then show ?thesis using True search_col [of n j i' n] j n in_table_mono [OF t(1), of n n] k by simp
  next
    case False
    have "\<not> Suc j \<le> n" using pvq_U_mono [of "Suc j" n m] j False unfolding n by linarith
    then show ?thesis using False search_row [OF t(1) j(2,3)] j n by simp
  qed
  have "cwrsi_step n k i = (pvq_val k j (- cbool s), j, i' - pvq_U n j)"
    using k by (simp add: cwrsi_step_def at and_minus_cbool s_def [symmetric] u srch)
  moreover have "unrank_step n k i = (if s then - (int k - int j) else int k - int j, j, i' - pvq_U n j)"
    unfolding unrank_step_def Let_def s_def [symmetric] i'_def [symmetric] j_def [symmetric] by (rule refl)
  ultimately show ?thesis using pvq_val_cbool [OF j(1) t(2), of s] by simp
qed

lemma cwrsi_step_lt:
  assumes n: "n = Suc m" and k: "k < n" and t: "in_table n (Suc k)" "k < 32768"
    and i: "0 \<le> i" "i < pvq_V n k" "pvq_V n k < 4294967296"
  shows "cwrsi_step n k i = unrank_step n k i"
proof -
  have up: "pvq_U n k \<le> pvq_U n (Suc k)" unfolding n by (rule pvq_U_mono_Suc)
  have at: "pvq_at k n = pvq_U n k" "pvq_at (Suc k) n = pvq_U n (Suc k)"
    using pvq_at_eq_col [OF t(1)] pvq_at_eq_col [OF in_table_mono [OF t(1), of n k]] k by simp_all
  show ?thesis
  proof (cases "pvq_U n k \<le> i \<and> i < pvq_U n (Suc k)")
    case True
    have "pvq_find n i k = k" using pvq_find_unique [of m k i k] True unfolding n by simp
    moreover have "u32 (i - pvq_U n k) = i - pvq_U n k" using True i pvq_U_nonneg [of n k] by simp
    ultimately show ?thesis using True k
      by (simp add: cwrsi_step_def unrank_step_def at Let_def)
  next
    case mid: False
    define s where "s = (i \<ge> pvq_U n (Suc k))"
    define i' where "i' = (if s then i - pvq_U n (Suc k) else i)"
    define j where "j = pvq_find n i' k"
    have i': "0 \<le> i'" "i' < pvq_U n k" "i' \<le> i"
      using i up mid pvq_U_nonneg [of n "Suc k"]
      by (auto simp: i'_def s_def pvq_V_def simp del: pvq_U.simps)
    have j: "j \<le> k" "pvq_U n j \<le> i'" "i' < pvq_U n (Suc j)"
      using pvq_find_bounds [of i' m k] i' up unfolding n j_def by simp_all
    have lt: "j < k" using j i' by (cases "j = k") auto
    have eq: "i - (if s then pvq_U n (Suc k) else 0) = i'" by (simp add: i'_def)
    have u: "u32 (i - (if s then pvq_U n (Suc k) else 0)) = i'" "u32 (i' - pvq_U n j) = i' - pvq_U n j"
      unfolding eq using i' i j pvq_U_nonneg [of n j] by simp_all
    have srch: "pvq_search_col n i' k = (j, pvq_U n j)"
      using search_col [of n j i' k] lt in_table_mono [OF t(1), of n k] j n k by simp
    have "cwrsi_step n k i = (pvq_val k j (- cbool s), j, i' - pvq_U n j)"
      using k mid by (auto simp: cwrsi_step_def at and_minus_cbool s_def [symmetric] u srch Let_def)
    moreover have "unrank_step n k i = (if s then - (int k - int j) else int k - int j, j, i' - pvq_U n j)"
      unfolding unrank_step_def Let_def s_def [symmetric] i'_def [symmetric] j_def [symmetric] by (rule refl)
    ultimately show ?thesis using pvq_val_cbool [OF j(1) t(2), of s] by simp
  qed
qed

lemma pvq_unrank_1:
  assumes "i = 0 \<or> (i = 1 \<and> 0 < k)"
  shows "pvq_unrank 1 k i = [if i = 1 then - int k else int k]"
proof -
  have f: "pvq_find 1 0 k = 0" using pvq_find_unique [of 0 0 0 k] by simp
  have u: "pvq_U 1 0 = 0" "pvq_U 1 (Suc k) = 1" by (simp_all only: pvq_U_1) simp_all
  show ?thesis using assms f u by (auto simp: Let_def simp del: pvq_U.simps)
qed

lemma cwrsi_last_eq:
  assumes k: "k < 32768" and i: "0 \<le> i" "i < pvq_V 2 k"
  shows "cwrsi_last k i = pvq_unrank 2 k i"
proof -
  define s where "s = (i \<ge> 2 * int k + 1)"
  define i' where "i' = (if s then i - (2 * int k + 1) else i)"
  define j where "j = nat ((i' + 1) div 2)"
  define r where "r = (if j \<noteq> 0 then i' - (2 * int j - 1) else i')"
  have i': "0 \<le> i'" "i' < 2 * int k + 1"
    using i by (auto simp: i'_def s_def pvq_V_def pvq_U_2 split: if_splits)
  have j: "j \<le> k" "int j = (i' + 1) div 2" using i' by (simp_all add: j_def)
  have r: "r = i' - pvq_U 2 j" "r = 0 \<or> (r = 1 \<and> 0 < j)"
    using i' j(2) by (auto simp: r_def pvq_U_2)
  have f: "pvq_find 2 i' k = j"
  proof -
    have "pvq_U 2 j \<le> i'" "i' < pvq_U 2 (Suc j)" using i' j(2) by (auto simp: pvq_U_2)
    then show ?thesis using pvq_find_unique [of 1 j i' k] j(1) by (simp add: numeral_2_eq_2 del: pvq_U.simps)
  qed
  have u2: "pvq_U 2 (Suc k) = 2 * int k + 1" by (simp add: pvq_U_2)
  have eq: "i - (if s then 2 * int k + 1 else 0) = i'" by (simp add: i'_def)
  have u: "u32 i' = i'" "nat (drop_bit 1 (u32 (i' + 1))) = j" using i' k
    by (simp_all add: j_def drop_bit_eq_div)
  have "u32 r = r" using r(2) by auto
  then have ur: "(if j \<noteq> 0 then u32 (i' - (2 * int j - 1)) else i') = r" by (simp add: r_def split: if_splits)
  have v2: "i16 ((int j + - r) XOR - r) = (if r = 1 then - int j else int j)"
    using pvq_val_cbool [of 0 j "r = 1"] j k r(2) by (auto simp: pvq_val_def cbool_def)
  have "cwrsi_last k i = [if s then - (int k - int j) else int k - int j, if r = 1 then - int j else int j]"
    unfolding cwrsi_last_def Let_def s_def [symmetric] and_minus_cbool eq u ur v2
      pvq_val_cbool [OF j(1) k] by (rule refl)
  also have "\<dots> = pvq_unrank 2 k i"
  proof -
    have "pvq_unrank 2 k i = (case unrank_step 2 k i of (v, k, i) \<Rightarrow> v # pvq_unrank 1 k i)"
      using pvq_unrank_step [of 1 k i] by (simp add: numeral_2_eq_2)
    moreover have "unrank_step 2 k i = (if s then - (int k - int j) else int k - int j, j, r)"
      unfolding unrank_step_def Let_def u2 s_def [symmetric] i'_def [symmetric] f r(1) by (rule refl)
    ultimately show ?thesis using pvq_unrank_1 [OF r(2)] by simp
  qed
  finally show ?thesis .
qed

lemma unrank_step_next:
  assumes "0 \<le> i" "i < pvq_V (Suc n) k"
  shows "case unrank_step (Suc n) k i of (v, k', i') \<Rightarrow> k' \<le> k \<and> 0 \<le> i' \<and> i' < pvq_V n k' \<and> i' \<le> i"
proof -
  define s where "s = (i \<ge> pvq_U (Suc n) (Suc k))"
  define i' where "i' = (if s then i - pvq_U (Suc n) (Suc k) else i)"
  define j where "j = pvq_find (Suc n) i' k"
  have i': "0 \<le> i'" "i' < pvq_U (Suc n) (Suc k)" "i' \<le> i"
    using assms pvq_U_mono_Suc [of n k] pvq_U_nonneg [of "Suc n" "Suc k"]
    by (auto simp: i'_def s_def pvq_V_def simp del: pvq_U.simps)
  have j: "j \<le> k" "pvq_U (Suc n) j \<le> i'" "i' < pvq_U (Suc n) (Suc j)"
    using pvq_find_bounds [OF i'(1,2)] unfolding j_def by simp_all
  have "unrank_step (Suc n) k i = (if s then - (int k - int j) else int k - int j, j, i' - pvq_U (Suc n) j)"
    unfolding unrank_step_def Let_def s_def [symmetric] i'_def [symmetric] j_def [symmetric] by (rule refl)
  then show ?thesis
    using j i' pvq_U_nonneg [of "Suc n" j] pvq_U_step [of n j] by (simp del: pvq_U.simps)
qed

lemma cwrsi_step_eq:
  assumes "in_table (Suc n) (Suc k)" "k < 32768" "0 \<le> i" "i < pvq_V (Suc n) k" "pvq_V (Suc n) k < 4294967296"
  shows "cwrsi_step (Suc n) k i = unrank_step (Suc n) k i"
  using cwrsi_step_ge [OF refl _ assms] cwrsi_step_lt [OF refl _ assms] by (cases "Suc n \<le> k") simp_all

lemma pvq_V_mono: "j \<le> k \<Longrightarrow> pvq_V (Suc n) j \<le> pvq_V (Suc (Suc n)) k"
proof -
  assume "j \<le> k"
  have "pvq_U (Suc (Suc n)) (Suc j) = pvq_U (Suc (Suc n)) j + pvq_V (Suc n) j" by (rule pvq_U_step)
  moreover have "pvq_U (Suc (Suc n)) (Suc j) \<le> pvq_U (Suc (Suc n)) (Suc k)"
    using \<open>j \<le> k\<close> by (intro pvq_U_mono) simp
  ultimately show ?thesis
    using pvq_U_nonneg [of "Suc (Suc n)" j] pvq_U_nonneg [of "Suc (Suc n)" k] unfolding pvq_V_def by linarith
qed

lemma cwrsi_loop_unrank:
  assumes "in_table (Suc (Suc n)) (Suc k)" "k < 32768" "0 \<le> i" "i < pvq_V (Suc (Suc n)) k"
    "pvq_V (Suc (Suc n)) k < 4294967296"
  shows "cwrsi_loop (Suc (Suc n)) k i = pvq_unrank (Suc (Suc n)) k i"
  using assms
proof (induction n arbitrary: k i)
  case 0
  then show ?case using cwrsi_last_eq [of k i]
    by (simp add: cwrsi_loop.simps numeral_2_eq_2 [symmetric])
next
  case (Suc n)
  let ?m = "Suc (Suc n)"
  obtain v k' i' where st: "unrank_step (Suc ?m) k i = (v, k', i')" by (cases "unrank_step (Suc ?m) k i")
  have nx: "k' \<le> k" "0 \<le> i'" "i' < pvq_V ?m k'" "i' \<le> i"
    using unrank_step_next [OF Suc.prems(3,4)] by (simp_all add: st)
  have "cwrsi_loop ?m k' i' = pvq_unrank ?m k' i'"
  proof (rule Suc.IH)
    show "in_table ?m (Suc k')" using Suc.prems(1) nx by (elim in_table_mono) simp_all
    show "k' < 32768" "0 \<le> i'" "i' < pvq_V ?m k'" using nx Suc.prems(2) by simp_all
    show "pvq_V ?m k' < 4294967296" using pvq_V_mono [OF nx(1), of "Suc n"] Suc.prems(5) by linarith
  qed
  moreover have "cwrsi_loop (Suc ?m) k i = v # cwrsi_loop ?m k' i'"
    using cwrsi_step_eq [OF Suc.prems] by (subst cwrsi_loop.simps) (simp add: st)
  ultimately show ?case unfolding pvq_unrank_step st by simp
qed

lemma cwrsi_unrank:
  assumes "2 \<le> n" "pvq_ok n k" "0 \<le> i" "i < CELT_PVQ_V n k"
  shows "cwrsi n k i = (pvq_unrank n k i, sum_sq (pvq_unrank n k i))"
proof -
  obtain m where m: "n = Suc (Suc m)" using assms(1) by (metis add_2_eq_Suc le_Suc_ex)
  have "cwrsi_loop n k i = pvq_unrank n k i" using pvq_okD [OF assms(2)] assms(3,4)
    unfolding m by (intro cwrsi_loop_unrank) simp_all
  then show ?thesis by (simp add: cwrsi_def Let_def)
qed

lemma sum_sq_eq: "sum_sq y = (\<Sum>v\<leftarrow>y. v * v)"
proof -
  have "fold (\<lambda>v yy. yy + v * v) y a = a + (\<Sum>v\<leftarrow>y. v * v)" for a :: int
    by (induction y arbitrary: a) simp_all
  then show ?thesis by (simp add: sum_sq_def)
qed

section \<open>Pulse vectors through the range coder\<close>

definition valid_pulses :: "int list \<times> int \<Rightarrow> bool" where
  "valid_pulses x \<longleftrightarrow> 2 \<le> length (fst x) \<and> 0 < norm1 (fst x) \<and> pvq_ok (length (fst x)) (norm1 (fst x))
    \<and> snd x = sum_sq (fst x)"

lemma pvq_V_gt_1: "0 < k \<Longrightarrow> 1 < pvq_V (Suc n) k"
proof -
  assume "0 < k"
  have "pvq_U (Suc n) (Suc 0) = 1" using pvq_U_1 [of "Suc n"] by (simp add: pvq_U_sym del: pvq_U.simps)
  then show ?thesis using \<open>0 < k\<close> pvq_U_mono [of "Suc 0" k n] pvq_U_mono [of "Suc 0" "Suc k" n]
    by (simp add: pvq_V_def del: pvq_U.simps)
qed

lemma transmits_pulses:
  assumes "valid_pulses (y, yy)"
  shows "transmits (encode_pulses y (length y) (norm1 y)) (decode_pulses (length y) (norm1 y)) (y, yy)"
proof -
  let ?n = "length y" and ?k = "norm1 y"
  have v: "2 \<le> ?n" "0 < ?k" "pvq_ok ?n ?k" "yy = sum_sq y" using assms by (simp_all add: valid_pulses_def)
  note ok = pvq_okD [OF v(3)] and ic = icwrs_rank [OF refl v(1,3)]
  obtain m where m: "?n = Suc m" using v(1) by (cases ?n) auto
  have "transmits (ec_enc_uint (pvq_rank y) (CELT_PVQ_V ?n ?k)) (ec_dec_uint (CELT_PVQ_V ?n ?k)) (pvq_rank y)"
    using ic ok pvq_V_gt_1 [OF v(2), of m] by (intro transmits_uint) (simp_all add: m)
  then have "transmits (ec_enc_uint (pvq_rank y) (CELT_PVQ_V ?n ?k))
      (\<lambda>d. case ec_dec_uint (CELT_PVQ_V ?n ?k) d of (i, d) \<Rightarrow> (cwrsi ?n ?k i, d)) (y, yy)"
    by (rule transmits_map) (simp add: cwrsi_unrank [OF v(1,3) ic(2,3)] pvq_unrank_rank v(4))
  then show ?thesis by (rule transmits_cong) (simp_all add: encode_pulses_def decode_pulses_def ic(1) Let_def)
qed

interpretation pvq: symbol_code
  "\<lambda>x. encode_pulses (fst x) (length (fst x)) (norm1 (fst x))" "\<lambda>(n, k). decode_pulses n k"
  "\<lambda>x. (length (fst x), norm1 (fst x))" valid_pulses
  by unfold_locales (use transmits_pulses in \<open>auto simp: case_prod_beta\<close>)

end
