(* ===== verification/Pulse_Coding.thy ===== *)
theory Pulse_Coding
  imports Cwrs
begin

text \<open>
  The small-footprint variant of \<open>celt/cwrs.c\<close>, its equivalence with the table variant of theory
  \<open>Cwrs\<close>, and the properties of the pulse-vector coder.
\<close>

section \<open>The small-footprint coder\<close>

text \<open>
  The small-footprint variant of \<open>cwrs.c\<close> keeps one row of \<open>U(n,k)\<close> in a work array and steps it up
  and down in place.  Each pass reads an entry before it overwrites it.
\<close>

fun unext_loop :: "int \<Rightarrow> int list \<Rightarrow> int list" where
  "unext_loop ui0 (a # b # us) = ui0 # unext_loop (u32 (u32 (b + a) + ui0)) (b # us)"
| "unext_loop ui0 us = [ui0]"

definition unext :: "int list \<Rightarrow> nat \<Rightarrow> int \<Rightarrow> int list" where
  "unext ui len ui0 = unext_loop ui0 (take len ui) @ drop len ui"

fun uprev_loop :: "int \<Rightarrow> int list \<Rightarrow> int list" where
  "uprev_loop ui0 (a # b # us) = ui0 # uprev_loop (u32 (u32 (b - a) - ui0)) (b # us)"
| "uprev_loop ui0 us = [ui0]"

definition uprev :: "int list \<Rightarrow> nat \<Rightarrow> int \<Rightarrow> int list" where
  "uprev ui n ui0 = uprev_loop ui0 (take n ui) @ drop n ui"

definition ncwrs_urow :: "nat \<Rightarrow> nat \<Rightarrow> int \<times> int list" where
  "ncwrs_urow n k =
    (let u = 0 # 1 # map (\<lambda>k. 2 * int k - 1) [2..<k + 2];
         u = ((\<lambda>u. hd u # unext (tl u) (k + 1) 1) ^^ (n - 2)) u
     in (u32 (u ! k + u ! (k + 1)), u))"

text \<open>\<open>while(p>_i)p=_u[--_k];\<close> from \<open>p=_u[_k]\<close>.\<close>

fun urow_search :: "int list \<Rightarrow> int \<Rightarrow> nat \<Rightarrow> nat \<times> int" where
  "urow_search u i 0 = (0, u ! 0)"
| "urow_search u i (Suc k) = (let p = u ! Suc k in if p > i then urow_search u i k else (Suc k, p))"

fun cwrsi_small_loop :: "nat \<Rightarrow> nat \<Rightarrow> int \<Rightarrow> int list \<Rightarrow> int list" where
  "cwrsi_small_loop 0 k i u = []"
| "cwrsi_small_loop (Suc n) k i u =
    (let p = u ! (k + 1);
         s = - cbool (i \<ge> p);
         i = u32 (i - (p AND s));
         yj = k;
         (k, p) = urow_search u i k;
         i = u32 (i - p)
     in pvq_val yj k s # cwrsi_small_loop n k i (uprev u (k + 2) 0))"

definition cwrsi_small :: "nat \<Rightarrow> nat \<Rightarrow> int \<Rightarrow> int list \<Rightarrow> int list \<times> int" where
  "cwrsi_small n k i u = (let y = cwrsi_small_loop n k i u in (y, sum_sq y))"

definition icwrs1 :: "int \<Rightarrow> int \<times> nat" where
  "icwrs1 y = (cbool (y < 0), nat \<bar>y\<bar>)"

definition icwrs_small_step :: "int list \<Rightarrow> int \<Rightarrow> int \<times> nat \<Rightarrow> int \<times> nat" where
  "icwrs_small_step u yj = (\<lambda>(i, k).
    let i = u32 (i + u ! k);
        k = k + nat \<bar>yj\<bar>;
        i = (if yj < 0 then u32 (i + u ! (k + 1)) else i)
    in (i, k))"

fun icwrs_small_loop :: "nat \<Rightarrow> int list \<Rightarrow> nat \<Rightarrow> int \<times> nat \<Rightarrow> int list \<Rightarrow> (int \<times> nat) \<times> int list" where
  "icwrs_small_loop K y 0 ik u = (ik, u)"
| "icwrs_small_loop K y (Suc j) ik u =
    (let u = unext u (K + 2) 0 in icwrs_small_loop K y j (icwrs_small_step u (y ! j) ik) u)"

definition icwrs_small :: "nat \<Rightarrow> nat \<Rightarrow> int list \<Rightarrow> int \<times> int" where
  "icwrs_small n K y =
    (let u = 0 # map (\<lambda>k. 2 * int k - 1) [1..<K + 2];
         ik = icwrs1 (y ! (n - 1));
         ik = icwrs_small_step u (y ! (n - 2)) ik;
         ((i, k), u) = icwrs_small_loop K y (n - 2) ik u
     in (i, u32 (u ! k + u ! (k + 1))))"

definition encode_pulses_small :: "int list \<Rightarrow> nat \<Rightarrow> nat \<Rightarrow> ec_ctx \<Rightarrow> ec_ctx" where
  "encode_pulses_small y n k s = (let (i, nc) = icwrs_small n k y in ec_enc_uint i nc s)"

definition decode_pulses_small :: "nat \<Rightarrow> nat \<Rightarrow> ec_ctx \<Rightarrow> (int list \<times> int) \<times> ec_ctx" where
  "decode_pulses_small n k d =
    (let (nc, u) = ncwrs_urow n k; (i, d) = ec_dec_uint nc d in (cwrsi_small n k i u, d))"

section \<open>Rows of U\<close>

text \<open>A row of \<open>U\<close>, as the 32-bit array holds it.\<close>

definition urow :: "nat \<Rightarrow> nat \<Rightarrow> nat \<Rightarrow> int list" where
  "urow n j l = map (\<lambda>k. u32 (pvq_U n k)) [j..<j + l]"

lemma urow_Suc: "urow n j (Suc l) = u32 (pvq_U n j) # urow n (Suc j) l"
  by (simp add: urow_def upt_conv_Cons del: upt_Suc pvq_U.simps)

lemma urow_simps [simp]: "length (urow n j l) = l" "i < l \<Longrightarrow> urow n j l ! i = u32 (pvq_U n (j + i))"
  "urow n j 0 = []"
  by (simp_all add: urow_def)

lemma unext_loop_urow: "unext_loop (u32 (pvq_U (Suc n) j)) (urow n j (Suc l)) = urow (Suc n) j (Suc l)"
proof (induction l arbitrary: j)
  case (Suc l)
  have "u32 (u32 (u32 (pvq_U n (Suc j)) + u32 (pvq_U n j)) + u32 (pvq_U (Suc n) j)) = u32 (pvq_U (Suc n) (Suc j))"
    by (simp add: u32_def mod_simps) (simp add: algebra_simps)
  then show ?case using Suc [of "Suc j"] by (simp add: urow_Suc del: pvq_U.simps)
qed (simp add: urow_Suc del: pvq_U.simps)

lemma unext_urow:
  "0 < l \<Longrightarrow> unext (urow n j l) l (u32 (pvq_U (Suc n) j)) = urow (Suc n) j l"
  using unext_loop_urow [of n j "l - 1"] by (simp add: unext_def del: pvq_U.simps)

lemma uprev_loop_urow: "uprev_loop (u32 (pvq_U n j)) (urow (Suc n) j (Suc l)) = urow n j (Suc l)"
proof (induction l arbitrary: j)
  case (Suc l)
  have "u32 (u32 (u32 (pvq_U (Suc n) (Suc j)) - u32 (pvq_U (Suc n) j)) - u32 (pvq_U n j)) = u32 (pvq_U n (Suc j))"
    by (simp add: u32_def mod_simps algebra_simps)
  then show ?case using Suc [of "Suc j"] by (simp add: urow_Suc del: pvq_U.simps)
qed (simp add: urow_Suc del: pvq_U.simps)

lemma uprev_urow:
  assumes "take l u = urow (Suc n) j l" "0 < l"
  shows "take l (uprev u l (u32 (pvq_U n j))) = urow n j l"
  using uprev_loop_urow [of n j "l - 1"] assms
  by (simp add: uprev_def del: pvq_U.simps)

lemma pvq_U_col1: "pvq_U (Suc n) (Suc 0) = 1"
  using pvq_U_1 [of "Suc n"] by (simp add: pvq_U_sym [of "Suc n"] del: pvq_U.simps)

lemma urow_2: "k < 32768 \<Longrightarrow> 0 # map (\<lambda>k. 2 * int k - 1) [1..<k + 2] = urow 2 0 (k + 2)"
proof -
  assume k: "k < 32768"
  have "urow 2 0 (k + 2) = 0 # urow 2 (Suc 0) (k + 1)" using urow_Suc [of 2 0 "k + 1"] by (simp add: pvq_U_2)
  also have "urow 2 (Suc 0) (k + 1) = map (\<lambda>k. 2 * int k - 1) [1..<k + 2]"
    unfolding urow_def using k by (auto simp: pvq_U_2 simp del: upt_Suc)
  finally show ?thesis by simp
qed

lemma ncwrs_urow_eq:
  assumes "2 \<le> n" "0 < k" "k < 32768" "pvq_V n k < 4294967296"
  shows "ncwrs_urow n k = (pvq_V n k, urow n 0 (k + 2))"
proof -
  have i: "((\<lambda>u. hd u # unext (tl u) (k + 1) 1) ^^ m) (urow 2 0 (k + 2)) = urow (m + 2) 0 (k + 2)" for m
  proof (induction m)
    case (Suc m)
    have "unext (urow (m + 2) (Suc 0) (k + 1)) (k + 1) 1 = urow (Suc m + 2) (Suc 0) (k + 1)"
      using unext_urow [of "k + 1" "m + 2" "Suc 0"] pvq_U_col1 [of "m + 2"] by (simp del: pvq_U.simps)
    then show ?case using Suc urow_Suc [of "m + 2" 0 "k + 1"] urow_Suc [of "Suc m + 2" 0 "k + 1"] by simp
  qed (simp add: numeral_2_eq_2)
  have u0: "0 # 1 # map (\<lambda>k. 2 * int k - 1) [2..<k + 2] = urow 2 0 (k + 2)"
    unfolding urow_2 [OF assms(3), symmetric] by (simp add: upt_conv_Cons numeral_2_eq_2 del: upt_Suc)
  have "u32 (pvq_U n k + pvq_U n (Suc k)) = pvq_V n k"
    using assms(4) pvq_V_nonneg [of n k] by (simp add: pvq_V_def)
  then have "u32 (urow n 0 (k + 2) ! k + urow n 0 (k + 2) ! (k + 1)) = pvq_V n k"
    by (simp add: u32_def mod_simps)
  moreover have "((\<lambda>u. hd u # unext (tl u) (k + 1) 1) ^^ (n - 2)) (urow 2 0 (k + 2)) = urow n 0 (k + 2)"
    using i [of "n - 2"] assms(1) by (simp only: le_add_diff_inverse2)
  ultimately show ?thesis unfolding ncwrs_urow_def Let_def u0 by simp
qed

lemma urow_search_eq:
  assumes j: "pvq_U (Suc n) j \<le> i" "i < pvq_U (Suc n) (Suc j)"
    and u: "\<And>m. m \<le> k \<Longrightarrow> u ! m = pvq_U (Suc n) m"
  shows "j \<le> k \<Longrightarrow> urow_search u i k = (j, pvq_U (Suc n) j)"
  using u
proof (induction k)
  case (Suc k)
  show ?case
  proof (cases "j = Suc k")
    case False
    then have "pvq_U (Suc n) (Suc j) \<le> pvq_U (Suc n) (Suc k)" using Suc.prems by (intro pvq_U_mono) simp
    then show ?thesis using Suc False j by (simp add: Let_def del: pvq_U.simps)
  qed (use Suc.prems j in \<open>simp add: Let_def del: pvq_U.simps\<close>)
qed (use j in \<open>simp del: pvq_U.simps\<close>)

lemma cwrsi_small_loop_unrank:
  assumes "take (k + 2) u = urow n 0 (k + 2)" "k < 32768" "0 \<le> i" "i < pvq_V n k"
    "pvq_V n k < 4294967296"
  shows "cwrsi_small_loop n k i u = pvq_unrank n k i"
  using assms
proof (induction n arbitrary: k i u)
  case (Suc n)
  define s where "s = (i \<ge> pvq_U (Suc n) (Suc k))"
  define i' where "i' = (if s then i - pvq_U (Suc n) (Suc k) else i)"
  define j where "j = pvq_find (Suc n) i' k"
  define r where "r = i' - pvq_U (Suc n) j"
  have us: "unrank_step (Suc n) k i = (if s then - (int k - int j) else int k - int j, j, r)"
    unfolding unrank_step_def Let_def s_def [symmetric] i'_def [symmetric] j_def [symmetric] r_def by (rule refl)
  have nx: "j \<le> k" "0 \<le> r" "r < pvq_V n j" "r \<le> i"
    using unrank_step_next [OF Suc.prems(3,4)] by (simp_all add: us)
  have j: "pvq_U (Suc n) j \<le> i'" "i' < pvq_U (Suc n) (Suc j)"
    using nx pvq_U_step [of n j] by (simp_all add: r_def del: pvq_U.simps)
  have lt: "pvq_U (Suc n) m < 4294967296" if "m \<le> Suc k" for m
    using pvq_U_mono [OF that, of n] Suc.prems(5) pvq_U_nonneg [of "Suc n" k] unfolding pvq_V_def by linarith
  have at: "u ! m = pvq_U (Suc n) m" if "m \<le> Suc k" for m
  proof -
    have "u ! m = take (k + 2) u ! m" using that by simp
    also have "\<dots> = u32 (pvq_U (Suc n) m)" unfolding Suc.prems(1) using that by (simp del: pvq_U.simps)
    finally show ?thesis using lt [OF that] pvq_U_nonneg [of "Suc n" m] by (simp del: pvq_U.simps)
  qed
  have eq: "i - (if s then pvq_U (Suc n) (Suc k) else 0) = i'" by (simp add: i'_def)
  have i': "0 \<le> i'" "i' \<le> i" using j(1) pvq_U_nonneg [of "Suc n" j] pvq_U_nonneg [of "Suc n" "Suc k"]
    by (simp_all add: i'_def del: pvq_U.simps)
  have u: "u32 i' = i'" "u32 r = r" using i' nx Suc.prems(4,5) by simp_all
  have srch: "urow_search u i' k = (j, pvq_U (Suc n) j)"
    using at nx(1) by (intro urow_search_eq j) simp_all
  have step: "cwrsi_small_loop (Suc n) k i u
      = (if s then - (int k - int j) else int k - int j) # cwrsi_small_loop n j r (uprev u (j + 2) 0)"
    using pvq_val_cbool [OF nx(1) Suc.prems(2), of s] at [of "Suc k"]
    by (simp add: and_minus_cbool s_def [symmetric] eq u srch r_def [symmetric] Let_def del: pvq_U.simps)
  show ?case
  proof (cases n)
    case (Suc m)
    have "take (j + 2) u = take (j + 2) (take (k + 2) u)" using nx(1) by simp
    also have "\<dots> = urow (Suc n) 0 (j + 2)"
      using nx(1) unfolding Suc.prems(1) by (simp add: urow_def take_map del: upt_Suc pvq_U.simps)
    finally have "take (j + 2) (uprev u (j + 2) (u32 (pvq_U n 0))) = urow n 0 (j + 2)"
      by (rule uprev_urow) simp
    moreover have "pvq_V n j < 4294967296"
      using pvq_V_mono [OF nx(1), of m] Suc.prems(5) Suc by simp
    ultimately have "cwrsi_small_loop n j r (uprev u (j + 2) 0) = pvq_unrank n j r"
      using nx Suc.prems(2) Suc by (intro Suc.IH) simp_all
    then show ?thesis unfolding step pvq_unrank_step us by simp
  qed (unfold step pvq_unrank_step us, simp)
qed simp

lemma icwrs_small_step_eq:
  assumes "pvq_rank (v # y) < 4294967296" "length y = n" "norm1 (v # y) \<le> K"
  shows "icwrs_small_step (urow (Suc n) 0 (K + 2)) v (pvq_rank y, norm1 y) = (pvq_rank (v # y), norm1 (v # y))"
proof -
  have r: "pvq_rank (v # y) = pvq_rank y + pvq_U (Suc n) (norm1 y)
      + (if v < 0 then pvq_U (Suc n) (Suc (norm1 y + nat \<bar>v\<bar>)) else 0)"
    using assms(2) by (simp add: add.commute del: pvq_U.simps)
  have nn: "0 \<le> pvq_rank y" "0 \<le> pvq_U (Suc n) (norm1 y)" "0 \<le> pvq_U (Suc n) (Suc (norm1 y + nat \<bar>v\<bar>))"
    using pvq_rank_bounds pvq_U_nonneg by blast+
  have "u32 (pvq_rank y + pvq_U (Suc n) (norm1 y)) = pvq_rank y + pvq_U (Suc n) (norm1 y)"
    "u32 (pvq_U (Suc n) (norm1 y)) = pvq_U (Suc n) (norm1 y)"
    "v < 0 \<Longrightarrow> u32 (pvq_U (Suc n) (Suc (norm1 y + nat \<bar>v\<bar>))) = pvq_U (Suc n) (Suc (norm1 y + nat \<bar>v\<bar>))"
    "v < 0 \<Longrightarrow> u32 (pvq_rank (v # y)) = pvq_rank (v # y)"
    using assms(1) nn unfolding r by (simp_all split: if_splits del: pvq_U.simps)
  then show ?thesis using assms(3) r
    by (simp add: icwrs_small_step_def Let_def del: pvq_U.simps pvq_rank.simps)
qed

lemma icwrs_small_loop_rank:
  assumes y: "length y = n" "pvq_rank y < 4294967296" "norm1 y \<le> K"
  shows "j < n \<Longrightarrow> icwrs_small_loop K y j (pvq_rank (drop j y), norm1 (drop j y)) (urow (n - j) 0 (K + 2))
    = ((pvq_rank y, norm1 y), urow n 0 (K + 2))"
proof (induction j)
  case (Suc j)
  let ?z = "drop (Suc j) y"
  have d: "drop j y = y ! j # ?z" using Suc.prems y(1) by (simp add: Cons_nth_drop_Suc)
  have n: "n - j = Suc (n - Suc j)" "length ?z = n - Suc j" using Suc.prems y(1) by simp_all
  obtain m where m: "n - Suc j = Suc m" using Suc.prems by (cases "n - Suc j") auto
  have "unext (urow (n - Suc j) 0 (K + 2)) (K + 2) 0 = urow (n - j) 0 (K + 2)"
    using unext_urow [of "K + 2" "n - Suc j" 0] unfolding n(1) m by simp
  moreover have "icwrs_small_step (urow (n - j) 0 (K + 2)) (y ! j) (pvq_rank ?z, norm1 ?z)
      = (pvq_rank (drop j y), norm1 (drop j y))"
    unfolding d n(1) using pvq_rank_drop_le [of j y] norm1_drop_le [of j y] y n(2)
    by (intro icwrs_small_step_eq) (simp_all add: d del: pvq_rank.simps norm1_simps)
  ultimately show ?case using Suc.IH Suc.prems unfolding icwrs_small_loop.simps Let_def by simp
qed (use y in simp)

lemma icwrs_small_eq:
  assumes y: "length y = n" "2 \<le> n" "norm1 y < 32768" "pvq_V n (norm1 y) < 4294967296"
  shows "icwrs_small n (norm1 y) y = (pvq_rank y, pvq_V n (norm1 y))"
proof -
  let ?K = "norm1 y"
  have r: "pvq_rank y < 4294967296" using pvq_rank_bounds [of y] y by simp
  have d: "drop (n - 2) y = [y ! (n - 2), y ! (n - 1)]"
  proof -
    have "drop (n - 2) y = y ! (n - 2) # drop (Suc (n - 2)) y"
      using y by (intro Cons_nth_drop_Suc [symmetric]) simp
    also have "drop (Suc (n - 2)) y = y ! (n - 1) # drop (Suc (n - 1)) y"
      using y Cons_nth_drop_Suc [of "n - 1" y] Suc_diff_le [of 2 n] by (simp add: Suc_diff_Suc [symmetric])
    finally show ?thesis using y by simp
  qed
  have one: "icwrs1 (y ! (n - 1)) = (pvq_rank [y ! (n - 1)], norm1 [y ! (n - 1)])"
    by (simp add: icwrs1_def cbool_def pvq_U_1 [unfolded One_nat_def] del: pvq_U.simps)
  have "icwrs_small_step (urow (Suc 1) 0 (?K + 2)) (y ! (n - 2)) (pvq_rank [y ! (n - 1)], norm1 [y ! (n - 1)])
      = (pvq_rank (drop (n - 2) y), norm1 (drop (n - 2) y))"
    unfolding d using pvq_rank_drop_le [of "n - 2" y] norm1_drop_le [of "n - 2" y] r
    by (intro icwrs_small_step_eq) (simp_all add: d del: pvq_rank.simps norm1_simps)
  then have two: "icwrs_small_step (urow 2 0 (?K + 2)) (y ! (n - 2)) (icwrs1 (y ! (n - 1)))
      = (pvq_rank (drop (n - 2) y), norm1 (drop (n - 2) y))" by (simp only: one Suc_1)
  have "n - (n - 2) = 2" using y(2) by simp
  then have lp: "icwrs_small_loop ?K y (n - 2) (pvq_rank (drop (n - 2) y), norm1 (drop (n - 2) y)) (urow 2 0 (?K + 2))
      = ((pvq_rank y, ?K), urow n 0 (?K + 2))"
    using icwrs_small_loop_rank [OF y(1) r order_refl, of "n - 2"] y(2) by simp
  have "u32 (pvq_U n ?K + pvq_U n (Suc ?K)) = pvq_V n ?K"
    using y(4) pvq_V_nonneg [of n ?K] by (simp add: pvq_V_def)
  then have "u32 (urow n 0 (?K + 2) ! ?K + urow n 0 (?K + 2) ! (?K + 1)) = pvq_V n ?K"
    by (simp add: u32_def mod_simps)
  then show ?thesis unfolding icwrs_small_def Let_def urow_2 [OF y(3)] two lp by simp
qed

lemma decode_pulses_ok:
  assumes "2 \<le> n" "pvq_ok n k" "0 < k" "dec_ok d"
  shows "decode_pulses_small n k d = decode_pulses n k d"
    "length (fst (fst (decode_pulses n k d))) = n" "norm1 (fst (fst (decode_pulses n k d))) = k"
    "dec_ok (snd (decode_pulses n k d))"
proof -
  note ok = pvq_okD [OF assms(2)]
  obtain j d' where e: "ec_dec_uint (pvq_V n k) d = (j, d')" by (cases "ec_dec_uint (pvq_V n k) d")
  obtain m where m: "n = Suc m" using assms(1) by (cases n) auto
  have j: "0 \<le> j" "j < pvq_V n k" "dec_ok d'"
    using dec_uint_ok [OF assms(4), of "pvq_V n k"] pvq_V_gt_1 [OF assms(3), of m] ok(3)
    by (simp_all add: m [symmetric] e)
  have c: "cwrsi n k j = (pvq_unrank n k j, sum_sq (pvq_unrank n k j))"
    using j ok by (intro cwrsi_unrank assms) simp_all
  have "cwrsi_small_loop n k j (urow n 0 (k + 2)) = pvq_unrank n k j"
    using ok j by (intro cwrsi_small_loop_unrank) simp_all
  then show "decode_pulses_small n k d = decode_pulses n k d" using c ok e assms ncwrs_urow_eq [of n k]
    by (simp add: decode_pulses_small_def decode_pulses_def cwrsi_small_def Let_def)
  show "length (fst (fst (decode_pulses n k d))) = n" "norm1 (fst (fst (decode_pulses n k d))) = k"
    "dec_ok (snd (decode_pulses n k d))"
    using pvq_rank_unrank [OF j(1,2)] c e j(3) ok(4) by (simp_all add: decode_pulses_def)
qed

lemma card_pvq_codebook: "int (card {y. length y = n \<and> norm1 y = k}) = pvq_V n k"
proof -
  have "bij_betw pvq_rank {y. length y = n \<and> norm1 y = k} {0..<pvq_V n k}"
  proof (rule bij_betw_byWitness [where f' = "pvq_unrank n k"])
    show "\<forall>y\<in>{y. length y = n \<and> norm1 y = k}. pvq_unrank n k (pvq_rank y) = y"
      using pvq_unrank_rank by blast
    show "\<forall>i\<in>{0..<pvq_V n k}. pvq_rank (pvq_unrank n k i) = i"
      "pvq_unrank n k ` {0..<pvq_V n k} \<subseteq> {y. length y = n \<and> norm1 y = k}"
      using pvq_rank_unrank [of _ n k] by auto
    show "pvq_rank ` {y. length y = n \<and> norm1 y = k} \<subseteq> {0..<pvq_V n k}" using pvq_rank_bounds by auto
  qed
  then have "card {y. length y = n \<and> norm1 y = k} = card {0..<pvq_V n k}" by (rule bij_betw_same_card)
  then show ?thesis using pvq_V_nonneg [of n k] by simp
qed

section \<open>Properties\<close>

text \<open>
  C3. The pulse-vector indexing is a bijection.  For every size and pulse count that the table
  serves, \<open>icwrs\<close> numbers the integer vectors of that size and absolute sum with the indices below
  \<open>CELT_PVQ_V\<close>, \<open>cwrsi\<close> is its inverse from both sides, and the norm \<open>cwrsi\<close> returns is the sum
  of the squares.
\<close>

theorem pulse_index_bijection:
  assumes "2 \<le> n" "pvq_ok n k"
  shows "(\<forall>y. length y = n \<and> norm1 y = k \<longrightarrow> 0 \<le> icwrs n y \<and> icwrs n y < CELT_PVQ_V n k
      \<and> cwrsi n k (icwrs n y) = (y, \<Sum>v\<leftarrow>y. v * v))
    \<and> (\<forall>i. 0 \<le> i \<and> i < CELT_PVQ_V n k \<longrightarrow> length (fst (cwrsi n k i)) = n \<and> norm1 (fst (cwrsi n k i)) = k
      \<and> icwrs n (fst (cwrsi n k i)) = i)"
proof (intro conjI allI impI)
  fix y :: "int list" assume y: "length y = n \<and> norm1 y = k"
  note ic = icwrs_rank [of y n, OF _ assms(1)]
  show "0 \<le> icwrs n y" "icwrs n y < CELT_PVQ_V n k" using ic y assms by simp_all
  show "cwrsi n k (icwrs n y) = (y, \<Sum>v\<leftarrow>y. v * v)"
    using ic y assms cwrsi_unrank [OF assms, of "pvq_rank y"] pvq_unrank_rank [of y] by (simp add: sum_sq_eq)
next
  fix i assume i: "0 \<le> i \<and> i < CELT_PVQ_V n k"
  have c: "fst (cwrsi n k i) = pvq_unrank n k i" using cwrsi_unrank [OF assms, of i] i by simp
  have u: "length (pvq_unrank n k i) = n" "norm1 (pvq_unrank n k i) = k" "pvq_rank (pvq_unrank n k i) = i"
    using pvq_rank_unrank [of i n k] i pvq_okD(4) [OF assms(2)] by simp_all
  then show "length (fst (cwrsi n k i)) = n" "norm1 (fst (cwrsi n k i)) = k" by (simp_all add: c)
  show "icwrs n (fst (cwrsi n k i)) = i" using icwrs_rank(1) [OF u(1) assms(1)] u assms(2) by (simp add: c)
qed

theorem pulse_index_bijection_witness:
  "cwrsi 4 5 (icwrs 4 [2, -1, 0, -2]) = ([2, -1, 0, -2], 9) \<and> icwrs 4 (fst (cwrsi 4 5 100)) = 100"
proof -
  have "pvq_ok 4 5" "norm1 [2, -1, 0, -2] = 5" "100 < CELT_PVQ_V 4 5" by code_simp+
  then show ?thesis using pulse_index_bijection [of 4 5] by simp
qed

text \<open>
  C2. Pulse vectors survive the range coder.  Encode any list of pulse vectors with
  \<open>encode_pulses\<close> and finish without an error: then \<open>decode_pulses\<close>, told the sizes and pulse
  counts, returns the vectors together with their squared norms.
\<close>

theorem pulse_stream_roundtrip:
  assumes "list_all valid_pulses xs" "bytes b" "int (length b) = sz" "sz < 4294967296"
  defines "s \<equiv> fold (\<lambda>x. encode_pulses (fst x) (length (fst x)) (norm1 (fst x))) xs (ec_enc_init b sz)"
  assumes "nbits_total s < 2147483648" "error (ec_enc_done s) = 0"
  shows "fst (dec_seq (\<lambda>(n, k). decode_pulses n k) (map (\<lambda>x. (length (fst x), norm1 (fst x))) xs)
      (ec_dec_init (buf (ec_enc_done s)) sz)) = xs"
  using pvq.stream_seq(1) [OF assms(1-4)] assms(6,7) unfolding s_def by simp

theorem pulse_stream_roundtrip_witness:
  "fst (dec_seq (\<lambda>(n, k). decode_pulses n k) [(4, 5), (2, 1)] (ec_dec_init (buf (ec_enc_done
      (encode_pulses [0, -1] 2 1 (encode_pulses [2, -1, 0, -2] 4 5 (ec_enc_init (replicate 4 0) 4))))) 4))
    = [([2, -1, 0, -2], 9), ([0, -1], 1)]"
proof -
  let ?xs = "[([2, -1, 0, -2], 9), ([0, -1], 1)] :: (int list \<times> int) list"
  let ?s = "fold (\<lambda>x. encode_pulses (fst x) (length (fst x)) (norm1 (fst x))) ?xs (ec_enc_init (replicate 4 0) 4)"
  have "list_all valid_pulses ?xs" by code_simp
  moreover have "nbits_total ?s < 2147483648" "error (ec_enc_done ?s) = 0" by code_simp+
  ultimately show ?thesis using pulse_stream_roundtrip [of ?xs "replicate 4 0" 4]
    by (simp add: eval_nat_numeral del: replicate.simps)
qed

text \<open>
  C24. The table counts the codebook.  \<open>CELT_PVQ_V\<close>, computed from the precomputed table, is the
  number of integer vectors of \<open>n\<close> elements whose absolute values sum to \<open>k\<close>.
\<close>

theorem CELT_PVQ_V_counts:
  "pvq_ok n k \<Longrightarrow> CELT_PVQ_V n k = int (card {y :: int list. length y = n \<and> norm1 y = k})"
  using card_pvq_codebook pvq_okD(4) by simp

theorem CELT_PVQ_V_counts_witness:
  "int (card {y :: int list. length y = 4 \<and> norm1 y = 5}) = 360"
proof -
  have "pvq_ok 4 5" "CELT_PVQ_V 4 5 = 360" by code_simp+
  then show ?thesis using CELT_PVQ_V_counts [of 4 5] by simp
qed

text \<open>
  C23. The small-footprint build and the table build of the pulse coder are the same function, on
  every vector size and pulse count that the table serves: both encode a pulse vector by the same
  call of the range coder, and from every decoder state, hence from arbitrary input bytes, both decode
  the same vector, which has the requested size and pulse count.
\<close>

theorem pulses_small_footprint_eq:
  assumes "2 \<le> n" "pvq_ok n k" "0 < k"
  shows "(\<forall>y s. length y = n \<and> norm1 y = k \<longrightarrow> encode_pulses_small y n k s = encode_pulses y n k s)
    \<and> (\<forall>d. dec_ok d \<longrightarrow> decode_pulses_small n k d = decode_pulses n k d
        \<and> length (fst (fst (decode_pulses n k d))) = n \<and> norm1 (fst (fst (decode_pulses n k d))) = k)"
  using icwrs_small_eq [of _ n] icwrs_rank [of _ n] pvq_okD [OF assms(2)] assms decode_pulses_ok [OF assms]
  by (auto simp: encode_pulses_small_def encode_pulses_def)

theorem pulses_small_footprint_eq_witness:
  "decode_pulses_small 4 5 (ec_dec_init [100, 200] 2) = decode_pulses 4 5 (ec_dec_init [100, 200] 2)
   \<and> encode_pulses_small [2, -1, 0, -2] 4 5 (ec_enc_init [0, 0] 2) = encode_pulses [2, -1, 0, -2] 4 5 (ec_enc_init [0, 0] 2)"
proof -
  have "pvq_ok 4 5" "norm1 [2, -1, 0, -2] = 5" "dec_ok (ec_dec_init [100, 200] 2)" by code_simp+
  then show ?thesis using pulses_small_footprint_eq [of 4 5] by simp
qed

end
