(* ===== verification/Ec_Sync.thy ===== *)
theory Ec_Sync
  imports Range_Decoder
begin

text \<open>
  Coding procedures that consult the coder.  \<open>transmits\<close> is about a symbol fixed in advance; here
  the encoding procedure returns a result of its own that may depend on the state of the coder, such
  as the number of bits used so far, and the decoding procedure has to arrive at the part of the
  result that it needs, given by \<open>g\<close>.  The predicate \<open>P\<close> restricts the states the encoder starts from.
\<close>

definition codes :: "(ec_ctx \<Rightarrow> bool) \<Rightarrow> ('a \<Rightarrow> 'b) \<Rightarrow> (ec_ctx \<Rightarrow> 'a \<times> ec_ctx) \<Rightarrow> (ec_ctx \<Rightarrow> 'b \<times> ec_ctx) \<Rightarrow> bool" where
  "codes P g enc dec \<longleftrightarrow> enc_step (\<lambda>s. snd (enc s)) \<and>
     (\<forall>B s d. P s \<longrightarrow> enc_inv s \<longrightarrow> storage s = int (length B) \<longrightarrow> coupled B s d \<longrightarrow> fin B (snd (enc s)) \<longrightarrow>
        fst (dec d) = g (fst (enc s)) \<and> coupled B (snd (enc s)) (snd (dec d)))"

abbreviation sends :: "('a \<Rightarrow> 'b) \<Rightarrow> (ec_ctx \<Rightarrow> 'a \<times> ec_ctx) \<Rightarrow> (ec_ctx \<Rightarrow> 'b \<times> ec_ctx) \<Rightarrow> bool" where
  "sends \<equiv> codes (\<lambda>_. True)"

lemma sends_transmits: "transmits enc dec y \<Longrightarrow> y = g x \<Longrightarrow> sends g (\<lambda>s. (x, enc s)) dec"
  by (simp add: codes_def transmits_def)

lemma codes_cong: "codes P g enc dec \<Longrightarrow> (\<And>s. enc' s = enc s) \<Longrightarrow> (\<And>d. dec' d = dec d) \<Longrightarrow> codes P g enc' dec'"
  by (simp add: codes_def enc_step_def)

lemma codes_weaken: "sends g enc dec \<Longrightarrow> codes P g enc dec"
  by (simp add: codes_def)

lemma codes_pre: "codes P g enc dec \<Longrightarrow> (\<And>s. P' s \<Longrightarrow> P s) \<Longrightarrow> codes P' g enc dec"
  unfolding codes_def by blast

lemma codes_never: "codes P g enc dec \<Longrightarrow> (\<And>s. \<not> P' s) \<Longrightarrow> codes P' g enc dec'"
  by (simp add: codes_def)

lemma sends_return: "y = g x \<Longrightarrow> sends g (\<lambda>s. (x, s)) (\<lambda>d. (y, d))"
  by (rule sends_transmits [OF transmits_return])

lemma codes_step: "codes P g enc dec \<Longrightarrow> enc_step (\<lambda>s. snd (enc s))"
  by (simp add: codes_def)

text \<open>In sequence: what is coded second may depend on the first result.\<close>

lemma codes_bind_on:
  assumes f: "codes P g enc1 dec1" and h: "\<And>s. codes (Q (fst (enc1 s))) h (enc2 (fst (enc1 s))) (dec2 (g (fst (enc1 s))))"
  shows "codes (\<lambda>s. P s \<and> Q (fst (enc1 s)) (snd (enc1 s))) h (\<lambda>s. case enc1 s of (x, s) \<Rightarrow> enc2 x s) (\<lambda>d. case dec1 d of (x, d) \<Rightarrow> dec2 x d)"
proof -
  have e1: "enc_step (\<lambda>s. snd (enc1 s))" and e2: "enc_step (\<lambda>t. snd (enc2 (fst (enc1 s)) t))" for s
    using f h by (simp_all add: codes_def)
  have step: "enc_step (\<lambda>s. snd (case enc1 s of (x, s) \<Rightarrow> enc2 x s))"
    unfolding enc_step_def
  proof (intro conjI allI impI)
    fix s B
    let ?u = "snd (enc2 (fst (enc1 s)) (snd (enc1 s)))"
    have u: "snd (case enc1 s of (x, s) \<Rightarrow> enc2 x s) = ?u" by (simp add: case_prod_beta)
    show "ec_ok s" if "ec_ok (snd (case enc1 s of (x, s) \<Rightarrow> enc2 x s))"
      using that e1 e2 [of s] unfolding u enc_step_def by blast
    show "enc_inv (snd (case enc1 s of (x, s) \<Rightarrow> enc2 x s))" "storage (snd (case enc1 s of (x, s) \<Rightarrow> enc2 x s)) = storage s"
      if "enc_inv s" "ec_ok (snd (case enc1 s of (x, s) \<Rightarrow> enc2 x s))"
      using that e1 e2 [of s] unfolding u enc_step_def by metis+
    show "fin B s" if "enc_inv s" "fin B (snd (case enc1 s of (x, s) \<Rightarrow> enc2 x s))"
      using that e1 e2 [of s] unfolding u enc_step_def fin_def by metis
  qed
  show ?thesis
    unfolding codes_def
  proof (intro conjI allI impI step)
    fix B s d
    let ?t = "snd (enc1 s)" and ?x = "fst (enc1 s)"
    assume P: "P s \<and> Q ?x ?t" and s: "enc_inv s" and z: "storage s = int (length B)"
      and c: "coupled B s d" and n: "fin B (snd (case enc1 s of (x, s) \<Rightarrow> enc2 x s))"
    have n2: "fin B (snd (enc2 ?x ?t))" using n by (simp add: case_prod_beta)
    have ok: "ec_ok ?t" using n2 e2 [of s] unfolding enc_step_def fin_def by blast
    have t: "enc_inv ?t" "storage ?t = int (length B)" using e1 s z ok unfolding enc_step_def by simp_all
    have n1: "fin B ?t" using e2 [of s] t(1) n2 unfolding enc_step_def by blast
    have 1: "fst (dec1 d) = g ?x" "coupled B ?t (snd (dec1 d))" using f P s z c n1 unfolding codes_def by blast+
    have 2: "fst (dec2 (g ?x) (snd (dec1 d))) = h (fst (enc2 ?x ?t))"
      "coupled B (snd (enc2 ?x ?t)) (snd (dec2 (g ?x) (snd (dec1 d))))"
      using h [of s] P t 1(2) n2 unfolding codes_def by blast+
    show "fst (case dec1 d of (x, d) \<Rightarrow> dec2 x d) = h (fst (case enc1 s of (x, s) \<Rightarrow> enc2 x s))"
      "coupled B (snd (case enc1 s of (x, s) \<Rightarrow> enc2 x s)) (snd (case dec1 d of (x, d) \<Rightarrow> dec2 x d))"
      using 1 2 by (simp_all add: case_prod_beta)
  qed
qed

lemma codes_bind:
  assumes "codes P g enc1 dec1" "\<And>s. sends h (enc2 (fst (enc1 s))) (dec2 (g (fst (enc1 s))))"
  shows "codes P h (\<lambda>s. case enc1 s of (x, s) \<Rightarrow> enc2 x s) (\<lambda>d. case dec1 d of (x, d) \<Rightarrow> dec2 x d)"
  using codes_bind_on [OF assms(1), where Q = "\<lambda>_ _. True" and h = h and ?enc2.0 = enc2 and ?dec2.0 = dec2] assms(2) by simp

lemma codes_map:
  assumes "codes P g enc dec" "\<And>x. h (f x) = k (g x)"
  shows "codes P h (\<lambda>s. case enc s of (x, s) \<Rightarrow> (f x, s)) (\<lambda>d. case dec d of (y, d) \<Rightarrow> (k y, d))"
  by (rule codes_bind [OF assms(1)], rule sends_return) (simp add: assms(2))

text \<open>Both sides may look at the number of bits used.\<close>

lemma enc_step_dep: "(\<And>t. enc_step (\<lambda>s. f t s)) \<Longrightarrow> enc_step (\<lambda>s. f (h s) s)"
  unfolding enc_step_def by simp

lemma codes_look:
  assumes c: "\<And>t. codes (\<lambda>s. P s \<and> h s = t) g (enc t) (dec t)"
    and h: "\<And>B s d. coupled B s d \<Longrightarrow> storage s = int (length B) \<Longrightarrow> h d = h s"
  shows "codes P g (\<lambda>s. enc (h s) s) (\<lambda>d. dec (h d) d)"
  unfolding codes_def
proof (intro conjI allI impI)
  show "enc_step (\<lambda>s. snd (enc (h s) s))" using codes_step [OF c] by (rule enc_step_dep)
  fix B s d
  assume a: "P s" "enc_inv s" "storage s = int (length B)" "coupled B s d" "fin B (snd (enc (h s) s))"
  have e: "h d = h s" using a(4,3) by (rule h)
  show "fst (dec (h d) d) = g (fst (enc (h s) s))" "coupled B (snd (enc (h s) s)) (snd (dec (h d) d))"
    using c [of "h s"] a unfolding e codes_def by blast+
qed

lemma coupled_looks:
  assumes "coupled B s d" "storage s = int (length B)"
  shows "ec_tell d = ec_tell s" "ec_tell_frac d = ec_tell_frac s" "storage d = storage s"
  using coupled_tell [OF assms(1)] assms by (simp_all add: coupled_def dec_at_def)

lemmas codes_tell = codes_look [where h = ec_tell, OF _ coupled_looks(1)]
  and codes_tell_frac = codes_look [where h = ec_tell_frac, OF _ coupled_looks(2)]
  and codes_storage = codes_look [where h = storage, OF _ coupled_looks(3)]

text \<open>A loop over a list, with a state that both sides maintain.\<close>

fun code_fold :: "('b \<Rightarrow> 'a \<Rightarrow> ec_ctx \<Rightarrow> 'a \<times> ec_ctx) \<Rightarrow> 'b list \<Rightarrow> 'a \<Rightarrow> ec_ctx \<Rightarrow> 'a \<times> ec_ctx" where
  "code_fold f [] a s = (a, s)"
| "code_fold f (b # bs) a s = (case f b a s of (a, s) \<Rightarrow> code_fold f bs a s)"

fun visits :: "('b \<Rightarrow> 'a \<Rightarrow> ec_ctx \<Rightarrow> 'a \<times> ec_ctx) \<Rightarrow> ('b \<Rightarrow> ec_ctx \<Rightarrow> bool) \<Rightarrow> 'b list \<Rightarrow> 'a \<Rightarrow> ec_ctx \<Rightarrow> bool" where
  "visits f P [] a s \<longleftrightarrow> True"
| "visits f P (b # bs) a s \<longleftrightarrow> P b s \<and> visits f P bs (fst (f b a s)) (snd (f b a s))"

lemma codes_fold:
  assumes "\<And>b a. b \<in> set bs \<Longrightarrow> Q a \<Longrightarrow> codes (P b) g (enc b a) (dec b (g a))"
    and "\<And>b a s. b \<in> set bs \<Longrightarrow> Q a \<Longrightarrow> Q (fst (enc b a s))"
  shows "Q a \<Longrightarrow> codes (visits enc P bs a) g (code_fold enc bs a) (code_fold dec bs (g a))"
  using assms
proof (induction bs arbitrary: a)
  case Nil
  have "sends g (\<lambda>s. (a, s)) (\<lambda>d. (g a, d))" by (rule sends_return) simp
  then have "codes (visits enc P [] a) g (\<lambda>s. (a, s)) (\<lambda>d. (g a, d))" by (rule codes_weaken)
  then show ?case by (rule codes_cong) simp_all
next
  case (Cons b bs)
  have 1: "codes (P b) g (enc b a) (dec b (g a))" using Cons.prems by simp
  have 2: "codes (visits enc P bs (fst (enc b a s))) g (code_fold enc bs (fst (enc b a s))) (code_fold dec bs (g (fst (enc b a s))))" for s
    using Cons.prems by (intro Cons.IH) auto
  have eq: "visits enc P (b # bs) a = (\<lambda>s. P b s \<and> visits enc P bs (fst (enc b a s)) (snd (enc b a s)))" by (rule ext) simp
  from codes_bind_on [where Q = "visits enc P bs", where ?enc2.0 = "code_fold enc bs" and ?dec2.0 = "code_fold dec bs", OF 1 2]
  show ?case unfolding eq by (rule codes_cong) simp_all
qed

lemma sends_fold:
  assumes "\<And>b a. b \<in> set bs \<Longrightarrow> Q a \<Longrightarrow> sends g (enc b a) (dec b (g a))"
    and "\<And>b a s. b \<in> set bs \<Longrightarrow> Q a \<Longrightarrow> Q (fst (enc b a s))" "Q a"
  shows "sends g (code_fold enc bs a) (code_fold dec bs (g a))"
proof -
  have "visits enc (\<lambda>_ _. True) bs a s" for s by (induction bs arbitrary: a s) simp_all
  moreover have "codes (visits enc (\<lambda>_ _. True) bs a) g (code_fold enc bs a) (code_fold dec bs (g a))"
    by (rule codes_fold [where Q = Q]) (use assms in auto)
  ultimately show ?thesis by (simp add: codes_def)
qed

text \<open>From the initial state of a fresh encoder to the state of a fresh decoder on the finished buffer.\<close>

lemma stream_start:
  assumes e: "enc_step enc" and b: "bytes b" "int (length b) = sz" "sz < 4294967296"
  defines "s \<equiv> enc (ec_enc_init b sz)"
  assumes n: "nbits_total s < 2147483648" and err: "error (ec_enc_done s) = 0"
  shows "enc_inv (ec_enc_init b sz)" "fin (buf (ec_enc_done s)) s"
    "coupled (buf (ec_enc_done s)) (ec_enc_init b sz) (ec_dec_init (buf (ec_enc_done s)) sz)"
    "length (buf (ec_enc_done s)) = length b"
proof -
  have ok: "ec_ok s" using n ec_enc_done_error_mono [OF err] by (simp add: ec_ok_def)
  show i: "enc_inv (ec_enc_init b sz)" using b by (intro ec_enc_init_inv) auto
  have s: "enc_inv s" "storage s = sz"
    using e i ok unfolding enc_step_def s_def by (auto simp: ec_enc_init_def)
  show f: "fin (buf (ec_enc_done s)) s" by (rule ec_enc_done_fin(1) [OF s(1) ok err])
  have len: "int (length (buf (ec_enc_done s))) = sz" using ec_enc_done_fin(2) [OF s(1) ok err] s(2) b(2) by simp
  then show "length (buf (ec_enc_done s)) = length b" using b by simp
  have "bytes (buf (ec_enc_done s))" using f by (simp add: fin_def)
  then show "coupled (buf (ec_enc_done s)) (ec_enc_init b sz) (ec_dec_init (buf (ec_enc_done s)) sz)"
    using coupled_init [of "buf (ec_enc_done s)" b sz] len by simp
qed

lemma codes_stream:
  assumes t: "codes P g enc dec" and b: "bytes b" "int (length b) = sz" "sz < 4294967296"
    and P: "P (ec_enc_init b sz)"
  defines "s \<equiv> snd (enc (ec_enc_init b sz))"
  assumes n: "nbits_total s < 2147483648" and err: "error (ec_enc_done s) = 0"
  shows "fst (dec (ec_dec_init (buf (ec_enc_done s)) sz)) = g (fst (enc (ec_enc_init b sz)))"
    "coupled (buf (ec_enc_done s)) s (snd (dec (ec_dec_init (buf (ec_enc_done s)) sz)))"
    "length (buf (ec_enc_done s)) = length b"
proof -
  note st = stream_start [OF codes_step [OF t] b n [unfolded s_def] err [unfolded s_def]]
  show "length (buf (ec_enc_done s)) = length b" using st(4) by (simp add: s_def)
  then have "storage (ec_enc_init b sz) = int (length (buf (ec_enc_done s)))" using b(2) by (simp add: ec_enc_init_def)
  then show "fst (dec (ec_dec_init (buf (ec_enc_done s)) sz)) = g (fst (enc (ec_enc_init b sz)))"
    "coupled (buf (ec_enc_done s)) s (snd (dec (ec_dec_init (buf (ec_enc_done s)) sz)))"
    using t P st unfolding s_def codes_def by blast+
qed

section \<open>Tables\<close>

text \<open>A strictly decreasing table gives every symbol a code.\<close>

lemma sorted_icdf_sym:
  assumes "sorted_wrt (>) icdf" "last icdf = 0" "0 \<le> k" "nat k < length icdf" "hd icdf < 2 ^ nat ftb"
  shows "icdf_sym icdf ftb k"
proof -
  have dec: "icdf ! j < icdf ! i" if "i < j" "j < length icdf" for i j
    using assms(1) that by (auto simp: sorted_wrt_iff_nth_less)
  have ne: "icdf \<noteq> []" using assms(4) by auto
  have z: "hd icdf = icdf ! 0" "icdf ! (length icdf - 1) = 0"
    using assms(2) ne by (simp_all add: last_conv_nth hd_conv_nth)
  have lo: "0 \<le> icdf ! i" if "i < length icdf" for i
    using dec [of i "length icdf - 1"] that z by (cases "i = length icdf - 1") force+
  have hi: "icdf ! i < 2 ^ nat ftb" if "i < length icdf" for i
    using dec [of 0 i] that z assms(5) by (cases "i = 0") auto
  have "sorted_wrt (\<ge>) icdf" by (rule sorted_wrt_mono_rel [OF _ assms(1)]) simp
  then have "sorted (rev icdf)" by (simp add: sorted_wrt_rev)
  moreover have "icdf ! nat k < icdf_top icdf ftb k"
    using dec [of "nat (k - 1)" "nat k"] assms(3,4) hi [OF assms(4)] by (auto simp: icdf_top_def)
  ultimately show ?thesis using assms lo hi by (auto simp: icdf_sym_def list_all_length less_imp_le)
qed

end
