(* ===== verification/Laplace.thy ===== *)
theory Laplace
  imports Ec_Sync
begin

text \<open>
  The Laplace-like symbol coder of \<open>celt/laplace.c\<close> and the probability models of the coarse energy
  (\<open>celt/quant_bands.c\<close>) that it is used with.
\<close>

section \<open>The coder\<close>

definition LAPLACE_LOG_MINP :: nat where "LAPLACE_LOG_MINP = 0"

definition LAPLACE_MINP :: int where "LAPLACE_MINP = push_bit LAPLACE_LOG_MINP 1"

definition LAPLACE_NMIN :: int where "LAPLACE_NMIN = 16"

definition ec_laplace_get_freq1 :: "int \<Rightarrow> int \<Rightarrow> int" where
  "ec_laplace_get_freq1 fs0 decay =
    (let ft = u32 (32768 - LAPLACE_MINP * (2 * LAPLACE_NMIN) - fs0)
     in drop_bit 15 (u32 (ft * (16384 - decay))))"

text \<open>
  The search loop of the encoder.  The first argument counts the rounds left, \<open>vl - i\<close>.
\<close>

fun ec_laplace_encode_loop :: "nat \<Rightarrow> int \<Rightarrow> int \<Rightarrow> int \<Rightarrow> int \<Rightarrow> int \<times> int \<times> int" where
  "ec_laplace_encode_loop 0 decay fl fs i = (fl, fs, i)"
| "ec_laplace_encode_loop (Suc n) decay fl fs i =
    (if fs > 0 then
       let fs = u32 (fs * 2);
           fl = u32 (fl + fs + 2 * LAPLACE_MINP);
           fs = drop_bit 15 (u32 (fs * decay))
       in ec_laplace_encode_loop n decay fl fs (i + 1)
     else (fl, fs, i))"

text \<open>The value that is sent, which the caller gets back, and its interval.\<close>

definition ec_laplace_symbol :: "int \<Rightarrow> int \<Rightarrow> int \<Rightarrow> int \<times> int \<times> int" where
  "ec_laplace_symbol v fs decay =
    (if v \<noteq> 0 then
       let s = - cbool (v < 0);
           vl = (v + s) XOR s;
           (fl, fs, i) = ec_laplace_encode_loop (nat (vl - 1)) decay fs (ec_laplace_get_freq1 fs decay) 1
       in if fs = 0 then
            let ndi_max = drop_bit LAPLACE_LOG_MINP (32768 - fl + LAPLACE_MINP - 1);
                ndi_max = drop_bit 1 (ndi_max - s);
                di = min (vl - i) (ndi_max - 1);
                fl = u32 (fl + (2 * di + 1 + s) * LAPLACE_MINP);
                fs = min LAPLACE_MINP (32768 - fl)
            in ((i + di + s) XOR s, fl, fs)
          else
            let fs = fs + LAPLACE_MINP;
                fl = fl + (fs AND NOT s)
            in (v, fl, fs)
     else (v, 0, fs))"

definition ec_laplace_encode :: "int \<Rightarrow> int \<Rightarrow> int \<Rightarrow> ec_ctx \<Rightarrow> int \<times> ec_ctx" where
  "ec_laplace_encode v fs decay enc =
    (let (v, fl, fs) = ec_laplace_symbol v fs decay in (v, ec_encode_bin fl (fl + fs) 15 enc))"

text \<open>
  The search loop of the decoder.  A round is entered with \<open>fl + 2 * fs \<le> fm < 32768\<close>, so no
  product of it leaves the 32-bit range.
\<close>

function ec_laplace_decode_loop :: "int \<Rightarrow> int \<Rightarrow> int \<Rightarrow> int \<Rightarrow> int \<Rightarrow> int \<times> int \<times> int" where
  "ec_laplace_decode_loop decay fm fl fs vl =
    (if fs > LAPLACE_MINP \<and> fm \<ge> fl + 2 * fs then
       let fs = fs * 2;
           fl = fl + fs;
           fs = drop_bit 15 ((fs - 2 * LAPLACE_MINP) * decay);
           fs = fs + LAPLACE_MINP
       in ec_laplace_decode_loop decay fm fl fs (vl + 1)
     else (fl, fs, vl))"
  by pat_completeness auto
termination
  by (relation "measure (\<lambda>(decay, fm, fl, fs, vl). nat (fm - fl))")
    (auto simp: LAPLACE_MINP_def LAPLACE_LOG_MINP_def)

declare ec_laplace_decode_loop.simps [simp del]

text \<open>The value that \<open>fm\<close> stands for, and its interval.\<close>

definition ec_laplace_lookup :: "int \<Rightarrow> int \<Rightarrow> int \<Rightarrow> int \<times> int \<times> int" where
  "ec_laplace_lookup fs decay fm =
    (if fm \<ge> fs then
       let (fl, fs, vl) = ec_laplace_decode_loop decay fm fs
             (ec_laplace_get_freq1 fs decay + LAPLACE_MINP) 1;
           (fl, vl) = (if fs \<le> LAPLACE_MINP then
               let di = drop_bit (LAPLACE_LOG_MINP + 1) (fm - fl)
               in (fl + 2 * di * LAPLACE_MINP, vl + di)
             else (fl, vl))
       in if fm < fl + fs then (fl, fs, - vl) else (fl + fs, fs, vl)
     else (0, fs, 0))"

definition ec_laplace_decode :: "int \<Rightarrow> int \<Rightarrow> ec_ctx \<Rightarrow> int \<times> ec_ctx" where
  "ec_laplace_decode fs decay dec =
    (let (fm, dec) = ec_decode_bin 15 dec;
         (fl, fs, vl) = ec_laplace_lookup fs decay fm
     in (vl, ec_dec_update fl (min (fl + fs) 32768) 32768 dec))"

section \<open>The coder with an explicit probability of zero\<close>

definition sign_icdf :: "int \<Rightarrow> int list" where
  "sign_icdf p0 = (let a = u16 (32768 - p0) in [a, a div 2, 0])"

text \<open>Entries 1 to 6, from the entry before and the index of the next one.\<close>

fun laplace_icdf_tail :: "nat \<Rightarrow> int \<Rightarrow> int \<Rightarrow> int list" where
  "laplace_icdf_tail 0 decay prev = []"
| "laplace_icdf_tail (Suc n) decay prev =
    (let x = u16 (max (int (Suc n)) (drop_bit 15 (prev * decay))) in x # laplace_icdf_tail n decay x)"

definition laplace_icdf :: "int \<Rightarrow> int list" where
  "laplace_icdf decay = (let a = max 7 decay in a # laplace_icdf_tail 6 decay a @ [0])"

function ec_laplace_encode_p0_loop :: "int \<Rightarrow> int list \<Rightarrow> ec_ctx \<Rightarrow> ec_ctx" where
  "ec_laplace_encode_p0_loop v icdf enc =
    (let enc = ec_enc_icdf16 (min v 7) icdf 15 enc; v = v - 7
     in if v \<ge> 0 then ec_laplace_encode_p0_loop v icdf enc else enc)"
  by pat_completeness auto
termination by (relation "measure (\<lambda>(v, icdf, enc). nat (v + 1))") auto

declare ec_laplace_encode_p0_loop.simps [simp del]

definition ec_laplace_encode_p0 :: "int \<Rightarrow> int \<Rightarrow> int \<Rightarrow> ec_ctx \<Rightarrow> ec_ctx" where
  "ec_laplace_encode_p0 v p0 decay enc =
    (let s = (if v = 0 then 0 else if v > 0 then 1 else 2);
         enc = ec_enc_icdf16 s (sign_icdf p0) 15 enc;
         v = \<bar>v\<bar>
     in if v \<noteq> 0 then ec_laplace_encode_p0_loop (v - 1) (laplace_icdf decay) enc else enc)"

text \<open>The decoder reads on as long as it sees the escape symbol 7.\<close>

partial_function (option) ec_laplace_decode_p0_loop ::
    "int \<Rightarrow> int list \<Rightarrow> ec_ctx \<Rightarrow> (int \<times> ec_ctx) option" where
  "ec_laplace_decode_p0_loop v icdf dec =
    (let (x, dec) = ec_dec_icdf16 icdf 15 dec; v = v + x
     in if x = 7 then ec_laplace_decode_p0_loop v icdf dec else Some (v, dec))"

definition ec_laplace_decode_p0 :: "int \<Rightarrow> int \<Rightarrow> ec_ctx \<Rightarrow> (int \<times> ec_ctx) option" where
  "ec_laplace_decode_p0 p0 decay dec =
    (let (s, dec) = ec_dec_icdf16 (sign_icdf p0) 15 dec;
         s = (if s = 2 then - 1 else s)
     in if s \<noteq> 0 then
          (case ec_laplace_decode_p0_loop 1 (laplace_icdf decay) dec of
             None \<Rightarrow> None | Some (v, dec) \<Rightarrow> Some (s * v, dec))
        else Some (0, dec))"

section \<open>The models of the coarse energy\<close>

text \<open>By frame size, then inter and intra, then pairs of the probability of zero and the decay.\<close>

definition e_prob_model :: "int list list list" where
  "e_prob_model = [
   [[72, 127, 65, 129, 66, 128, 65, 128, 64, 128, 62, 128, 64, 128, 64, 128, 92, 78, 92,
     79, 92, 78, 90, 79, 116, 41, 115, 40, 114, 40, 132, 26, 132, 26, 145, 17, 161, 12,
     176, 10, 177, 11],
    [24, 179, 48, 138, 54, 135, 54, 132, 53, 134, 56, 133, 55, 132, 55, 132, 61, 114, 70,
     96, 74, 88, 75, 88, 87, 74, 89, 66, 91, 67, 100, 59, 108, 50, 120, 40, 122, 37, 97,
     43, 78, 50]],
   [[83, 78, 84, 81, 88, 75, 86, 74, 87, 71, 90, 73, 93, 74, 93, 74, 109, 40, 114, 36, 117,
     34, 117, 34, 143, 17, 145, 18, 146, 19, 162, 12, 165, 10, 178, 7, 189, 6, 190, 8, 177,
     9],
    [23, 178, 54, 115, 63, 102, 66, 98, 69, 99, 74, 89, 71, 91, 73, 91, 78, 89, 86, 80, 92,
     66, 93, 64, 102, 59, 103, 60, 104, 60, 117, 52, 123, 44, 138, 35, 133, 31, 97, 38, 77,
     45]],
   [[61, 90, 93, 60, 105, 42, 107, 41, 110, 45, 116, 38, 113, 38, 112, 38, 124, 26, 132,
     27, 136, 19, 140, 20, 155, 14, 159, 16, 158, 18, 170, 13, 177, 10, 187, 8, 192, 6,
     175, 9, 159, 10],
    [21, 178, 59, 110, 71, 86, 75, 85, 84, 83, 91, 66, 88, 73, 87, 72, 92, 75, 98, 72, 105,
     58, 107, 54, 115, 52, 114, 55, 112, 56, 129, 51, 132, 40, 150, 33, 140, 29, 98, 35,
     77, 42]],
   [[42, 121, 96, 66, 108, 43, 111, 40, 117, 44, 123, 32, 120, 36, 119, 33, 127, 33, 134,
     34, 139, 21, 147, 23, 152, 20, 158, 25, 154, 26, 166, 21, 173, 16, 184, 13, 184, 10,
     150, 13, 139, 15],
    [22, 178, 63, 114, 74, 82, 84, 83, 92, 82, 103, 62, 96, 72, 96, 67, 101, 73, 107, 72,
     113, 55, 118, 52, 125, 52, 118, 52, 117, 55, 135, 49, 137, 39, 157, 32, 145, 29, 97,
     33, 77, 40]]]"

definition small_energy_icdf :: "int list" where "small_energy_icdf = [2, 1, 0]"

section \<open>The distribution\<close>

text \<open>
  Frequency and start of the two intervals of magnitude \<open>k + 1\<close>, while the frequency decays.
\<close>

primrec lapF :: "int \<Rightarrow> int \<Rightarrow> nat \<Rightarrow> int" where
  "lapF fs decay 0 = ec_laplace_get_freq1 fs decay"
| "lapF fs decay (Suc k) = 2 * lapF fs decay k * decay div 32768"

primrec lapL :: "int \<Rightarrow> int \<Rightarrow> nat \<Rightarrow> int" where
  "lapL fs decay 0 = fs"
| "lapL fs decay (Suc k) = lapL fs decay k + 2 * lapF fs decay k + 2"

text \<open>
  The parameters a caller may use: the decaying part has to leave room for one value of each sign.
\<close>

definition laplace_ok :: "int \<Rightarrow> int \<Rightarrow> bool" where
  "laplace_ok fs decay \<longleftrightarrow> 0 < fs \<and> fs \<le> 32736 \<and> 0 < decay \<and> decay < 16384
    \<and> (case ec_laplace_encode_loop 64 decay fs (ec_laplace_get_freq1 fs decay) 1 of
         (fl, f, i) \<Rightarrow> f = 0 \<and> fl \<le> 32766)"

lemmas lap_consts = LAPLACE_MINP_def LAPLACE_LOG_MINP_def LAPLACE_NMIN_def

lemma freq1_eq:
  assumes "0 < fs" "fs \<le> 32736" "0 < decay" "decay < 16384"
  shows "ec_laplace_get_freq1 fs decay = (32736 - fs) * (16384 - decay) div 32768"
proof -
  have "(32736 - fs) * (16384 - decay) \<le> 32736 * 16384" using assms by (intro mult_mono) simp_all
  moreover have "0 \<le> (32736 - fs) * (16384 - decay)" using assms by simp
  ultimately show ?thesis using assms by (simp add: ec_laplace_get_freq1_def lap_consts shift_arith)
qed

lemma lap_inv:
  assumes "0 < fs" "fs \<le> 32736" "0 < decay" "decay < 16384"
  shows "0 \<le> lapF fs decay k" "fs \<le> lapL fs decay k"
    "(lapL fs decay k - 2 * int k) * (16384 - decay) + 32768 * lapF fs decay k \<le> 32736 * (16384 - decay)"
proof -
  have "0 \<le> lapF fs decay k \<and> fs \<le> lapL fs decay k
    \<and> (lapL fs decay k - 2 * int k) * (16384 - decay) + 32768 * lapF fs decay k \<le> 32736 * (16384 - decay)"
  proof (induction k)
    case 0
    have "32768 * ((32736 - fs) * (16384 - decay) div 32768) \<le> (32736 - fs) * (16384 - decay)" by simp
    moreover have "0 \<le> (32736 - fs) * (16384 - decay)" using assms by simp
    ultimately show ?case using assms by (simp add: freq1_eq algebra_simps)
  next
    case (Suc k)
    let ?f = "lapF fs decay k" and ?l = "lapL fs decay k"
    have "32768 * (2 * ?f * decay div 32768) \<le> 2 * ?f * decay" by simp
    moreover have "0 \<le> 2 * ?f * decay div 32768" using Suc assms by (intro pos_imp_zdiv_nonneg_iff [THEN iffD2]) simp_all
    ultimately show ?case using Suc assms by (simp add: algebra_simps)
  qed
  then show "0 \<le> lapF fs decay k" "fs \<le> lapL fs decay k"
    "(lapL fs decay k - 2 * int k) * (16384 - decay) + 32768 * lapF fs decay k \<le> 32736 * (16384 - decay)"
    by simp_all
qed

lemma lap_bounds:
  assumes "0 < fs" "fs \<le> 32736" "0 < decay" "decay < 16384"
  shows "lapL fs decay k \<le> 32736 + 2 * int k" "lapF fs decay k < 16384"
proof -
  note i = lap_inv [OF assms, of k]
  have "(lapL fs decay k - 2 * int k) * (16384 - decay) \<le> 32736 * (16384 - decay)" using i by linarith
  then have "lapL fs decay k - 2 * int k \<le> 32736" by (rule mult_right_le_imp_le) (use assms(4) in simp)
  then show "lapL fs decay k \<le> 32736 + 2 * int k" by simp
  show "lapF fs decay k < 16384"
  proof (induction k)
    case 0
    have "(32736 - fs) * (16384 - decay) < 32768 * 16384" using assms by (intro mult_strict_mono) simp_all
    then show ?case using assms by (simp add: freq1_eq)
  next
    case (Suc k)
    have "lapF fs decay k * decay < 16384 * 16384"
      using Suc lap_inv(1) [OF assms, of k] assms by (intro mult_strict_mono) simp_all
    then show ?case by (simp add: mult.commute)
  qed
qed

lemma encode_loop_eq:
  assumes p: "0 < fs" "fs \<le> 32736" "0 < decay" "decay < 16384"
  shows "int (k + n) < 2147400000 \<Longrightarrow> \<exists>j. k \<le> j \<and> j \<le> k + n \<and> (\<forall>m. k \<le> m \<and> m < j \<longrightarrow> 0 < lapF fs decay m)
    \<and> (lapF fs decay j = 0 \<or> j = k + n)
    \<and> ec_laplace_encode_loop n decay (lapL fs decay k) (lapF fs decay k) (int k + 1)
        = (lapL fs decay j, lapF fs decay j, int j + 1)"
proof (induction n arbitrary: k)
  case 0
  show ?case by (rule exI [of _ k]) simp
next
  case (Suc n)
  note b = lap_bounds [OF p, of k] lap_inv [OF p, of k] lap_bounds [OF p, of "Suc k"] lap_inv [OF p, of "Suc k"]
  show ?case
  proof (cases "lapF fs decay k > 0")
    case True
    have m: "lapF fs decay k * 2 * decay < 32768 * 16384" using b p by (intro mult_strict_mono) simp_all
    have u: "u32 (lapF fs decay k * 2) = 2 * lapF fs decay k"
      "u32 (lapL fs decay k + 2 * lapF fs decay k + 2) = lapL fs decay (Suc k)"
      "u32 (2 * lapF fs decay k * decay) = 2 * lapF fs decay k * decay"
      using b p m Suc.prems by (simp_all add: mult.commute)
    have step: "ec_laplace_encode_loop (Suc n) decay (lapL fs decay k) (lapF fs decay k) (int k + 1)
        = ec_laplace_encode_loop n decay (lapL fs decay (Suc k)) (lapF fs decay (Suc k)) (int (Suc k) + 1)"
      using True u by (simp add: lap_consts shift_arith Let_def add.commute)
    obtain j where j: "Suc k \<le> j" "j \<le> Suc k + n" "\<forall>m. Suc k \<le> m \<and> m < j \<longrightarrow> 0 < lapF fs decay m"
      "lapF fs decay j = 0 \<or> j = Suc k + n"
      "ec_laplace_encode_loop n decay (lapL fs decay (Suc k)) (lapF fs decay (Suc k)) (int (Suc k) + 1)
        = (lapL fs decay j, lapF fs decay j, int j + 1)"
      using Suc.IH [of "Suc k"] Suc.prems by auto
    have "\<forall>m. k \<le> m \<and> m < j \<longrightarrow> 0 < lapF fs decay m" using j(3) True by (metis Suc_leI le_neq_implies_less)
    then show ?thesis using j step by (intro exI [of _ j]) simp
  next
    case False
    then have "lapF fs decay k = 0" using b by simp
    then show ?thesis by (intro exI [of _ k]) simp
  qed
qed

lemma decode_loop_eq:
  assumes p: "0 < fs" "fs \<le> 32736" "0 < decay" "decay < 16384"
    and j: "\<forall>m. k \<le> m \<and> m < j \<longrightarrow> 0 < lapF fs decay m \<and> lapL fs decay (Suc m) \<le> fm" "k \<le> j"
    and stop: "lapF fs decay j = 0 \<or> fm < lapL fs decay (Suc j)"
  shows "ec_laplace_decode_loop decay fm (lapL fs decay k) (lapF fs decay k + 1) (int k + 1)
    = (lapL fs decay j, lapF fs decay j + 1, int j + 1)"
  using j
proof (induction "j - k" arbitrary: k)
  case 0
  then have "k = j" by simp
  then show ?case using stop lap_inv(1) [OF p, of j]
    by (subst ec_laplace_decode_loop.simps) (auto simp: lap_consts)
next
  case (Suc n)
  have k: "k < j" using Suc.hyps(2) by simp
  then have f: "0 < lapF fs decay k" "lapL fs decay (Suc k) \<le> fm" using Suc.prems by blast+
  have "ec_laplace_decode_loop decay fm (lapL fs decay k) (lapF fs decay k + 1) (int k + 1)
      = ec_laplace_decode_loop decay fm (lapL fs decay (Suc k)) (lapF fs decay (Suc k) + 1) (int (Suc k) + 1)"
    using f by (subst ec_laplace_decode_loop.simps) (simp add: lap_consts shift_arith Let_def algebra_simps)
  also have "\<dots> = (lapL fs decay j, lapF fs decay j + 1, int j + 1)"
    using Suc.hyps(2) Suc.prems k by (intro Suc.hyps(1)) auto
  finally show ?case .
qed

lemma lapL_mono: "0 < fs \<Longrightarrow> fs \<le> 32736 \<Longrightarrow> 0 < decay \<Longrightarrow> decay < 16384 \<Longrightarrow> m \<le> j \<Longrightarrow> lapL fs decay m \<le> lapL fs decay j"
  by (rule lift_Suc_mono_le [of "lapL fs decay"]) (simp add: lap_inv(1))

lemma laplace_okE:
  assumes "laplace_ok fs decay"
  obtains j where "j \<le> 64" "\<forall>m<j. 0 < lapF fs decay m" "lapF fs decay j = 0" "lapL fs decay j \<le> 32766"
    "0 < fs" "fs \<le> 32736" "0 < decay" "decay < 16384"
proof -
  have p: "0 < fs" "fs \<le> 32736" "0 < decay" "decay < 16384" using assms by (simp_all add: laplace_ok_def)
  obtain j where j: "j \<le> 64" "\<forall>m. m < j \<longrightarrow> 0 < lapF fs decay m"
    "ec_laplace_encode_loop 64 decay fs (ec_laplace_get_freq1 fs decay) 1 = (lapL fs decay j, lapF fs decay j, int j + 1)"
    using encode_loop_eq [OF p, of 0 64] by auto
  then show ?thesis using assms p by (intro that [of j]) (simp_all add: laplace_ok_def)
qed

text \<open>Where the search for magnitude \<open>Suc n\<close> ends.\<close>

lemma encode_search:
  assumes ok: "laplace_ok fs decay" and n: "n < 2000000000"
  obtains j where "j \<le> n" "\<forall>m<j. 0 < lapF fs decay m" "lapF fs decay j = 0 \<or> j = n"
    "lapF fs decay j = 0 \<longrightarrow> lapL fs decay j \<le> 32766" "lapF fs decay j > 0 \<longrightarrow> lapL fs decay (Suc j) \<le> 32766"
    "ec_laplace_encode_loop n decay fs (ec_laplace_get_freq1 fs decay) 1 = (lapL fs decay j, lapF fs decay j, int j + 1)"
proof -
  obtain z where z: "\<forall>m<z. 0 < lapF fs decay m" "lapF fs decay z = 0" "lapL fs decay z \<le> 32766"
    and p: "0 < fs" "fs \<le> 32736" "0 < decay" "decay < 16384"
    using laplace_okE [OF ok] by blast
  obtain j where j: "j \<le> n" "\<forall>m. m < j \<longrightarrow> 0 < lapF fs decay m" "lapF fs decay j = 0 \<or> j = n"
    "ec_laplace_encode_loop n decay fs (ec_laplace_get_freq1 fs decay) 1 = (lapL fs decay j, lapF fs decay j, int j + 1)"
    using encode_loop_eq [OF p, of 0 n] n by auto
  have jz: "j \<le> z" using j(2) z(2) by (metis less_irrefl linorder_not_less)
  then have "lapL fs decay j \<le> 32766" using lapL_mono [OF p jz] z(3) by linarith
  moreover have "lapL fs decay (Suc j) \<le> 32766" if "lapF fs decay j > 0"
  proof -
    have "Suc j \<le> z" using that jz z(2) by (metis less_irrefl not_less_eq_eq le_antisym)
    then show ?thesis using lapL_mono [OF p, of "Suc j" z] z(3) by linarith
  qed
  ultimately show ?thesis using j by (intro that [of j]) simp_all
qed

lemma sign_magnitude:
  assumes "v \<noteq> 0"
  shows "(v + - cbool (v < 0)) XOR - cbool (v < 0) = \<bar>v\<bar>"
    "0 < a \<Longrightarrow> (a + - cbool (v < 0)) XOR - cbool (v < 0) = sgn v * a"
  using assms by (auto simp: cbool_def not_int_def sgn_if)

text \<open>
  What the encoder computes for a nonzero value, by the index \<open>j\<close> where its search stops.  The tail
  case clamps the magnitude.
\<close>

definition lap_code :: "int \<Rightarrow> int \<Rightarrow> int \<Rightarrow> nat \<Rightarrow> int \<times> int \<times> int" where
  "lap_code v fs decay j =
    (let L = lapL fs decay j; F = lapF fs decay j in
     if F = 0 then
       let di = min (\<bar>v\<bar> - (int j + 1)) ((32768 - L + cbool (v < 0)) div 2 - 1)
       in (sgn v * (int j + 1 + di), L + 2 * di + cbool (v > 0), 1)
     else (v, L + (if v > 0 then F + 1 else 0), F + 1))"

lemma lap_code_tail:
  assumes v: "v \<noteq> 0" and L: "0 \<le> L" "L \<le> 32766" and i: "i \<le> \<bar>v\<bar>" "0 < i"
  defines "s \<equiv> - cbool (v < 0)"
  defines "di \<equiv> min (\<bar>v\<bar> - i) ((32768 - L - s) div 2 - 1)"
  shows "0 \<le> di" "(i + di + s) XOR s = sgn v * (i + di)" "u32 (L + (2 * di + 1 + s)) = L + 2 * di + cbool (v > 0)"
    "L + 2 * di + cbool (v > 0) \<le> 32767" "0 \<le> L + 2 * di + cbool (v > 0)"
proof -
  have s: "1 + s = cbool (v > 0)" "- 1 \<le> s" "s \<le> 0" using v by (auto simp: s_def cbool_def)
  show di: "0 \<le> di" using L i s by (simp add: di_def)
  show "(i + di + s) XOR s = sgn v * (i + di)"
    using sign_magnitude(2) [OF v, of "i + di"] di i by (simp add: s_def)
  have "di \<le> (32768 - L - s) div 2 - 1" by (simp add: di_def)
  then show "L + 2 * di + cbool (v > 0) \<le> 32767" "0 \<le> L + 2 * di + cbool (v > 0)" using s L di by simp_all
  moreover have "L + (2 * di + 1 + s) = L + 2 * di + cbool (v > 0)" using s by simp
  ultimately show "u32 (L + (2 * di + 1 + s)) = L + 2 * di + cbool (v > 0)" by simp
qed

lemma laplace_symbol_code:
  assumes ok: "laplace_ok fs decay" and v: "v \<noteq> 0" "\<bar>v\<bar> < 2000000000"
  obtains j where "int j < \<bar>v\<bar>" "\<forall>m<j. 0 < lapF fs decay m" "lapF fs decay j = 0 \<or> int j + 1 = \<bar>v\<bar>"
    "lapF fs decay j = 0 \<longrightarrow> lapL fs decay j \<le> 32766" "lapF fs decay j > 0 \<longrightarrow> lapL fs decay (Suc j) \<le> 32766"
    "ec_laplace_symbol v fs decay = lap_code v fs decay j"
proof -
  have n: "nat (\<bar>v\<bar> - 1) < 2000000000" using v by simp
  obtain j where j: "j \<le> nat (\<bar>v\<bar> - 1)" "\<forall>m<j. 0 < lapF fs decay m" "lapF fs decay j = 0 \<or> j = nat (\<bar>v\<bar> - 1)"
    "lapF fs decay j = 0 \<longrightarrow> lapL fs decay j \<le> 32766" "lapF fs decay j > 0 \<longrightarrow> lapL fs decay (Suc j) \<le> 32766"
    "ec_laplace_encode_loop (nat (\<bar>v\<bar> - 1)) decay fs (ec_laplace_get_freq1 fs decay) 1
      = (lapL fs decay j, lapF fs decay j, int j + 1)"
    using encode_search [OF ok n] by blast
  have p: "0 < fs" "fs \<le> 32736" "0 < decay" "decay < 16384" using laplace_okE [OF ok] by blast+
  note b = lap_inv [OF p, of j]
  have i: "int j < \<bar>v\<bar>" using j(1) v(1) by simp
  have "ec_laplace_symbol v fs decay = lap_code v fs decay j"
  proof (cases "lapF fs decay j = 0")
    case True
    have L: "0 \<le> lapL fs decay j" "lapL fs decay j \<le> 32766" "int j + 1 \<le> \<bar>v\<bar>" "0 < int j + 1"
      using b p j(4) True i by simp_all
    define di where "di = min (\<bar>v\<bar> - (int j + 1)) ((32768 - lapL fs decay j - - cbool (v < 0)) div 2 - 1)"
    note t = lap_code_tail [OF v(1) L, folded di_def]
    have m: "min 1 (32768 - (lapL fs decay j + 2 * di + cbool (v > 0))) = 1" using t(4) by simp
    have d: "min (\<bar>v\<bar> - (int j + 1)) ((32768 - lapL fs decay j + cbool (v < 0)) div 2 - 1) = di" by (simp add: di_def)
    have "ec_laplace_symbol v fs decay = (sgn v * (int j + 1 + di), lapL fs decay j + 2 * di + cbool (v > 0), 1)"
      using v(1) True
      unfolding ec_laplace_symbol_def Let_def sign_magnitude(1) [OF v(1)] j(6) prod.case lap_consts
      by (simp add: shift_arith d t(2) [simplified] t(3) [simplified] m [simplified])
    then show ?thesis using True by (simp add: lap_code_def Let_def d)
  next
    case False
    show ?thesis using v(1) False
      unfolding ec_laplace_symbol_def lap_code_def Let_def sign_magnitude(1) [OF v(1)] j(6) prod.case lap_consts
      by (cases "v < 0") auto
  qed
  then show ?thesis using j i v(1) by (intro that [of j]) auto
qed

lemma laplace_interval:
  assumes ok: "laplace_ok fs decay" and v: "\<bar>v\<bar> < 2000000000"
    and e: "ec_laplace_symbol v fs decay = (v', fl, f)"
  shows "0 \<le> fl" "0 < f" "fl + f \<le> 32768"
    "fl \<le> fm \<Longrightarrow> fm < fl + f \<Longrightarrow> ec_laplace_lookup fs decay fm = (fl, f, v')"
proof -
  have p: "0 < fs" "fs \<le> 32736" "0 < decay" "decay < 16384" using laplace_okE [OF ok] by blast+
  have "0 \<le> fl \<and> 0 < f \<and> fl + f \<le> 32768
    \<and> (fl \<le> fm \<and> fm < fl + f \<longrightarrow> ec_laplace_lookup fs decay fm = (fl, f, v'))"
  proof (cases "v = 0")
    case True
    then show ?thesis using e p by (auto simp: ec_laplace_symbol_def ec_laplace_lookup_def)
  next
    case False
    obtain j where j: "int j < \<bar>v\<bar>" "\<forall>m<j. 0 < lapF fs decay m" "lapF fs decay j = 0 \<or> int j + 1 = \<bar>v\<bar>"
      "lapF fs decay j = 0 \<longrightarrow> lapL fs decay j \<le> 32766" "lapF fs decay j > 0 \<longrightarrow> lapL fs decay (Suc j) \<le> 32766"
      "ec_laplace_symbol v fs decay = lap_code v fs decay j"
      using laplace_symbol_code [OF ok False v] by blast
    note b = lap_inv [OF p, of j]
    have c: "lap_code v fs decay j = (v', fl, f)" using e j(6) by simp
    have loop: "ec_laplace_decode_loop decay fm fs (ec_laplace_get_freq1 fs decay + 1) 1
        = (lapL fs decay j, lapF fs decay j + 1, int j + 1)"
      if "lapL fs decay j \<le> fm" "lapF fs decay j = 0 \<or> fm < lapL fs decay (Suc j)"
    proof -
      have "\<forall>m. 0 \<le> m \<and> m < j \<longrightarrow> 0 < lapF fs decay m \<and> lapL fs decay (Suc m) \<le> fm"
        using j(2) that(1) lapL_mono [OF p, of _ j] by (meson Suc_leI order_trans)
      then show ?thesis using decode_loop_eq [OF p, of 0 j fm] that(2) by simp
    qed
    show ?thesis
    proof (cases "lapF fs decay j = 0")
      case True
      have L: "0 \<le> lapL fs decay j" "lapL fs decay j \<le> 32766" "int j + 1 \<le> \<bar>v\<bar>" "0 < int j + 1"
        using b p j True by simp_all
      define di where "di = min (\<bar>v\<bar> - (int j + 1)) ((32768 - lapL fs decay j - - cbool (v < 0)) div 2 - 1)"
      note t = lap_code_tail [OF False L, folded di_def]
      have d: "min (\<bar>v\<bar> - (int j + 1)) ((32768 - lapL fs decay j + cbool (v < 0)) div 2 - 1) = di" by (simp add: di_def)
      have r: "v' = sgn v * (int j + 1 + di)" "fl = lapL fs decay j + 2 * di + cbool (v > 0)" "f = 1"
        using c True by (simp_all add: lap_code_def Let_def d)
      have "ec_laplace_lookup fs decay fl = (fl, f, v')"
        if fm: "fm = fl" using loop True t(1) b p r False unfolding fm
        by (auto simp: ec_laplace_lookup_def Let_def lap_consts shift_arith cbool_def sgn_if)
      then show ?thesis using t(4,5) r by auto
    next
      case F: False
      then have F: "0 < lapF fs decay j" using b by simp
      have r: "v' = v" "fl = lapL fs decay j + (if v > 0 then lapF fs decay j + 1 else 0)" "f = lapF fs decay j + 1"
        using c F by (simp_all add: lap_code_def Let_def split: if_splits)
      show ?thesis using F r b p j loop False
        by (auto simp: ec_laplace_lookup_def Let_def lap_consts)
    qed
  qed
  then show "0 \<le> fl" "0 < f" "fl + f \<le> 32768"
    "fl \<le> fm \<Longrightarrow> fm < fl + f \<Longrightarrow> ec_laplace_lookup fs decay fm = (fl, f, v')" by blast+
qed

lemma transmits_laplace:
  assumes ok: "laplace_ok fs decay" and v: "\<bar>v\<bar> < 2000000000"
  shows "transmits (\<lambda>s. snd (ec_laplace_encode v fs decay s)) (ec_laplace_decode fs decay)
    (fst (ec_laplace_symbol v fs decay))"
proof -
  obtain v' fl f where e: "ec_laplace_symbol v fs decay = (v', fl, f)" by (cases "ec_laplace_symbol v fs decay")
  note i = laplace_interval [OF ok v e]
  let ?look = "\<lambda>k. case ec_laplace_lookup fs decay k of (fl, fs, v) \<Rightarrow> (fl, min (fl + fs) 32768, v)"
  have "transmits (ec_encode_bin fl (fl + f) 15)
      (\<lambda>d. case ec_decode_bin 15 d of (k, d) \<Rightarrow> case ?look k of (fl, fh, x) \<Rightarrow>
      (x, ec_dec_update fl fh (2 ^ nat 15) d)) v'"
    using i(1-3) i(4) by (intro transmits_ec_encode_bin) (simp_all add: i)
  then have "transmits (\<lambda>s. snd (ec_laplace_encode v fs decay s)) (ec_laplace_decode fs decay) v'"
    by (rule transmits_cong) (simp_all add: ec_laplace_encode_def ec_laplace_decode_def e Let_def case_prod_beta)
  then show ?thesis by (simp add: e)
qed

lemma ec_laplace_encode_fst: "fst (ec_laplace_encode v fs decay s) = fst (ec_laplace_symbol v fs decay)"
  by (simp add: ec_laplace_encode_def Let_def case_prod_beta)

text \<open>The magnitudes up to \<open>LAPLACE_NMIN\<close> are never clamped.\<close>

lemma laplace_exact:
  assumes ok: "laplace_ok fs decay" and v: "\<bar>v\<bar> \<le> LAPLACE_NMIN"
  shows "fst (ec_laplace_symbol v fs decay) = v"
proof (cases "v = 0")
  case True
  then show ?thesis by (simp add: ec_laplace_symbol_def)
next
  case False
  have "\<bar>v\<bar> < 2000000000" using v by (simp add: LAPLACE_NMIN_def)
  then obtain j where j: "int j < \<bar>v\<bar>" "lapF fs decay j = 0 \<or> int j + 1 = \<bar>v\<bar>"
    "ec_laplace_symbol v fs decay = lap_code v fs decay j"
    using laplace_symbol_code [OF ok False] by blast
  have p: "0 < fs" "fs \<le> 32736" "0 < decay" "decay < 16384" using laplace_okE [OF ok] by blast+
  have "lapL fs decay j \<le> 32736 + 2 * int j" by (rule lap_bounds(1) [OF p])
  then have "2 * (16 - int j) div 2 \<le> (32768 - lapL fs decay j + cbool (v < 0)) div 2"
    by (intro zdiv_mono1) (auto simp: cbool_def)
  then have "\<bar>v\<bar> - (int j + 1) \<le> (32768 - lapL fs decay j + cbool (v < 0)) div 2 - 1"
    using v by (simp add: LAPLACE_NMIN_def)
  then have "min (\<bar>v\<bar> - (int j + 1)) ((32768 - lapL fs decay j + cbool (v < 0)) div 2 - 1) = \<bar>v\<bar> - (int j + 1)"
    by (rule min_absorb1)
  then show ?thesis using j False by (simp add: lap_code_def Let_def sgn_mult_abs mult_sgn_abs)
qed

lemma laplace_clamp:
  assumes ok: "laplace_ok fs decay" and v: "\<bar>v\<bar> < 2000000000"
  shows "sgn (fst (ec_laplace_symbol v fs decay)) = sgn v" "\<bar>fst (ec_laplace_symbol v fs decay)\<bar> \<le> \<bar>v\<bar>"
proof -
  have "sgn (fst (ec_laplace_symbol v fs decay)) = sgn v \<and> \<bar>fst (ec_laplace_symbol v fs decay)\<bar> \<le> \<bar>v\<bar>"
  proof (cases "v = 0")
    case True
    then show ?thesis by (simp add: ec_laplace_symbol_def)
  next
    case False
    obtain j where j: "int j < \<bar>v\<bar>" "lapF fs decay j = 0 \<longrightarrow> lapL fs decay j \<le> 32766"
      "ec_laplace_symbol v fs decay = lap_code v fs decay j"
      using laplace_symbol_code [OF ok False v] by blast
    show ?thesis
    proof (cases "lapF fs decay j = 0")
      case True
      have p: "0 < fs" "fs \<le> 32736" "0 < decay" "decay < 16384" using laplace_okE [OF ok] by blast+
      have L: "0 \<le> lapL fs decay j" "lapL fs decay j \<le> 32766" "int j + 1 \<le> \<bar>v\<bar>" "0 < int j + 1"
        using lap_inv(2) [OF p, of j] p True j by simp_all
      define di where "di = min (\<bar>v\<bar> - (int j + 1)) ((32768 - lapL fs decay j + cbool (v < 0)) div 2 - 1)"
      have di: "0 \<le> di" "di \<le> \<bar>v\<bar> - (int j + 1)" using lap_code_tail(1) [OF False L] by (simp_all add: di_def)
      have "fst (ec_laplace_symbol v fs decay) = sgn v * (int j + 1 + di)"
        using True j by (simp add: lap_code_def Let_def di_def)
      then show ?thesis using di False by (simp add: sgn_mult abs_mult)
    qed (use j in \<open>simp add: lap_code_def Let_def\<close>)
  qed
  then show "sgn (fst (ec_laplace_symbol v fs decay)) = sgn v" "\<bar>fst (ec_laplace_symbol v fs decay)\<bar> \<le> \<bar>v\<bar>" by simp_all
qed

definition model_pairs :: "int list \<Rightarrow> (int \<times> int) list" where
  "model_pairs m = map (\<lambda>pi. (push_bit 7 (m ! (2 * pi)), push_bit 6 (m ! (2 * pi + 1)))) [0..<21]"

lemma e_prob_model_ok:
  "list_all (list_all (\<lambda>m. length m = 42 \<and> list_all (\<lambda>(fs, decay). laplace_ok fs decay) (model_pairs m))) e_prob_model"
  by code_simp

section \<open>Symbols with an explicit probability of zero\<close>

lemma laplace_icdf_tail_ok:
  assumes d: "0 \<le> decay" "decay < 32768"
  shows "int n < prev \<Longrightarrow> prev < 32768 \<Longrightarrow>
    sorted_wrt (>) (prev # laplace_icdf_tail n decay prev @ [0]) \<and> length (laplace_icdf_tail n decay prev) = n
    \<and> list_all (\<lambda>x. 0 < x) (laplace_icdf_tail n decay prev)"
proof (induction n arbitrary: prev)
  case (Suc n)
  let ?x = "max (int (Suc n)) (prev * decay div 32768)"
  have "prev * decay < prev * 32768" using Suc.prems d by simp
  then have lt: "prev * decay div 32768 < prev" by (simp add: int_div_less_iff)
  have x: "int n < ?x" "?x < prev" "?x < 32768" using lt Suc.prems by simp_all
  have "u16 ?x = ?x" using x by simp
  then show ?case using Suc.IH [OF x(1,3)] x by (auto simp: shift_arith Let_def)
qed simp

lemma laplace_icdf_ok:
  assumes "0 \<le> decay" "decay < 32768"
  shows "sorted_wrt (>) (laplace_icdf decay)" "length (laplace_icdf decay) = 8" "last (laplace_icdf decay) = 0"
    "hd (laplace_icdf decay) < 32768"
  using laplace_icdf_tail_ok [OF assms, of 6 "max 7 decay"] assms by (simp_all add: laplace_icdf_def Let_def)

lemma sign_icdf_ok:
  assumes "0 < p0" "p0 < 32766"
  shows "sorted_wrt (>) (sign_icdf p0)" "length (sign_icdf p0) = 3" "last (sign_icdf p0) = 0" "hd (sign_icdf p0) < 32768"
proof -
  have "0 < (32768 - p0) div 2" "(32768 - p0) div 2 < 32768 - p0" using assms by (simp_all add: int_div_less_iff)
  then show "sorted_wrt (>) (sign_icdf p0)" "length (sign_icdf p0) = 3" "last (sign_icdf p0) = 0" "hd (sign_icdf p0) < 32768"
    using assms by (simp_all add: sign_icdf_def Let_def)
qed

text \<open>As a function on the decoder state, with \<open>None\<close> for a loop that does not end.\<close>

definition run_opt :: "(ec_ctx \<Rightarrow> ('a \<times> ec_ctx) option) \<Rightarrow> ec_ctx \<Rightarrow> 'a option \<times> ec_ctx" where
  "run_opt f d = (case f d of None \<Rightarrow> (None, ec_dec_init [] 0) | Some (x, d') \<Rightarrow> (Some x, d'))"

lemma run_opt_loop:
  "run_opt (ec_laplace_decode_p0_loop v icdf) d
    = (case ec_dec_icdf16 icdf 15 d of (x, d) \<Rightarrow>
        (if x = 7 then run_opt (ec_laplace_decode_p0_loop (v + x) icdf) else (\<lambda>d. (Some (v + x), d))) d)"
  unfolding run_opt_def
  by (subst ec_laplace_decode_p0_loop.simps) (auto simp: Let_def split: prod.splits option.splits)

lemma transmits_p0_loop:
  assumes d: "0 \<le> decay" "decay < 32768"
  shows "0 \<le> v \<Longrightarrow> transmits (ec_laplace_encode_p0_loop v (laplace_icdf decay))
    (run_opt (ec_laplace_decode_p0_loop w (laplace_icdf decay))) (Some (w + v))"
proof (induction "nat v" arbitrary: v w rule: less_induct)
  case less
  let ?t = "laplace_icdf decay"
  let ?dec = "\<lambda>x. if x = 7 then run_opt (ec_laplace_decode_p0_loop (w + x) ?t) else (\<lambda>d. (Some (w + x), d))"
  have sym: "transmits (ec_enc_icdf16 (min v 7) ?t 15) (ec_dec_icdf16 ?t 15) (min v 7)"
    using laplace_icdf_ok [OF d] less.prems by (intro transmits_icdf(2) sorted_icdf_sym) simp_all
  show ?case
  proof (cases "7 \<le> v")
    case True
    have "transmits (ec_laplace_encode_p0_loop (v - 7) ?t) (?dec (min v 7)) (Some (w + v))"
      using less.hyps [of "v - 7" "w + 7"] True by simp
    from transmits_bind [OF sym, where ?dec2.0 = ?dec, OF this] show ?thesis
      by (rule transmits_cong) (use True in \<open>simp_all add: ec_laplace_encode_p0_loop.simps [of v] run_opt_loop Let_def\<close>)
  next
    case False
    have "transmits (\<lambda>s. s) (?dec (min v 7)) (Some (w + v))"
      using transmits_return [of "Some (w + v)"] False by simp
    from transmits_bind [OF sym, where ?dec2.0 = ?dec, OF this] show ?thesis
      by (rule transmits_cong) (use False in \<open>simp_all add: ec_laplace_encode_p0_loop.simps [of v] run_opt_loop Let_def\<close>)
  qed
qed

lemma run_opt_p0:
  "run_opt (ec_laplace_decode_p0 p0 decay) d
    = (case ec_dec_icdf16 (sign_icdf p0) 15 d of (s, d) \<Rightarrow>
        (if s \<noteq> 0 then (\<lambda>d. case run_opt (ec_laplace_decode_p0_loop 1 (laplace_icdf decay)) d of
            (v, d) \<Rightarrow> (map_option ((*) (if s = 2 then - 1 else s)) v, d))
         else (\<lambda>d. (Some 0, d))) d)"
  by (auto simp: run_opt_def ec_laplace_decode_p0_def Let_def split: prod.splits option.splits)

lemma transmits_laplace_p0:
  assumes p: "0 < p0" "p0 < 32766" and d: "0 \<le> decay" "decay < 32768"
  shows "transmits (ec_laplace_encode_p0 v p0 decay) (run_opt (ec_laplace_decode_p0 p0 decay)) (Some v)"
proof -
  let ?s = "if v = 0 then 0 else if v > 0 then 1 else 2 :: int"
  let ?loop = "ec_laplace_decode_p0_loop 1 (laplace_icdf decay)"
  let ?dec = "\<lambda>s. if s \<noteq> 0 then (\<lambda>d. case run_opt ?loop d of (v, d) \<Rightarrow> (map_option ((*) (if s = 2 then - 1 else s)) v, d))
         else (\<lambda>d. (Some 0, d))"
  let ?enc = "if v \<noteq> 0 then ec_laplace_encode_p0_loop (\<bar>v\<bar> - 1) (laplace_icdf decay) else (\<lambda>s. s)"
  have sym: "transmits (ec_enc_icdf16 ?s (sign_icdf p0) 15) (ec_dec_icdf16 (sign_icdf p0) 15) ?s"
    using sign_icdf_ok [OF p] by (intro transmits_icdf(2) sorted_icdf_sym) simp_all
  have "transmits ?enc (?dec ?s) (Some v)"
  proof (cases "v = 0")
    case True
    then show ?thesis using transmits_return [of "Some 0"] by simp
  next
    case False
    have "transmits (ec_laplace_encode_p0_loop (\<bar>v\<bar> - 1) (laplace_icdf decay)) (run_opt ?loop) (Some \<bar>v\<bar>)"
      using transmits_p0_loop [OF d, of "\<bar>v\<bar> - 1" 1] False by simp
    from transmits_map [OF this, of "Some v" "map_option ((*) (if ?s = 2 then - 1 else ?s))"]
    show ?thesis using False by (simp split: if_splits)
  qed
  from transmits_bind [OF sym, where ?dec2.0 = ?dec, OF this] show ?thesis
    by (rule transmits_cong) (simp_all add: ec_laplace_encode_p0_def run_opt_p0 Let_def)
qed

section \<open>Properties\<close>

definition laplace_valid :: "int \<times> int \<times> int \<Rightarrow> bool" where
  "laplace_valid = (\<lambda>(fs, decay, v). laplace_ok fs decay \<and> \<bar>v\<bar> < 2000000000 \<and> fst (ec_laplace_symbol v fs decay) = v)"

lemma transmits_laplace_triple:
  assumes "laplace_valid (fs, decay, v)"
  shows "transmits (\<lambda>s. snd (ec_laplace_encode v fs decay s))
    (\<lambda>d. case ec_laplace_decode fs decay d of (v, d) \<Rightarrow> ((fs, decay, v), d)) (fs, decay, v)"
  using transmits_map [OF transmits_laplace, of fs decay v "(fs, decay, v)" "\<lambda>v. (fs, decay, v)"] assms
  by (simp add: laplace_valid_def)

interpretation laplace: symbol_code
  "\<lambda>(fs, decay, v) s. snd (ec_laplace_encode v fs decay s)"
  "\<lambda>(fs, decay) d. case ec_laplace_decode fs decay d of (v, d) \<Rightarrow> ((fs, decay, v), d)"
  "\<lambda>(fs, decay, v). (fs, decay)" laplace_valid
  by unfold_locales (use transmits_laplace_triple in auto)

definition p0_valid :: "int \<times> int \<times> int option \<Rightarrow> bool" where
  "p0_valid = (\<lambda>(p0, decay, v). 0 < p0 \<and> p0 < 32766 \<and> 0 \<le> decay \<and> decay < 32768 \<and> v \<noteq> None)"

interpretation laplace_p0: symbol_code
  "\<lambda>(p0, decay, v). ec_laplace_encode_p0 (the v) p0 decay"
  "\<lambda>(p0, decay) d. case run_opt (ec_laplace_decode_p0 p0 decay) d of (v, d) \<Rightarrow> ((p0, decay, v), d)"
  "\<lambda>(p0, decay, v). (p0, decay)" p0_valid
  by unfold_locales (auto simp: p0_valid_def intro!: transmits_map [OF transmits_laplace_p0])

text \<open>
  C15. Laplace-coded values survive the range coder: any list of values, each with its own model
  parameters and none of them clamped by the encoder, is returned by the decoder.
\<close>

theorem laplace_stream_roundtrip:
  assumes "list_all laplace_valid xs" "bytes b" "int (length b) = sz" "sz < 4294967296"
  defines "s \<equiv> fold (\<lambda>(fs, decay, v) s. snd (ec_laplace_encode v fs decay s)) xs (ec_enc_init b sz)"
  assumes "nbits_total s < 2147483648" "error (ec_enc_done s) = 0"
  shows "fst (dec_seq (\<lambda>(fs, decay) d. case ec_laplace_decode fs decay d of (v, d) \<Rightarrow> ((fs, decay, v), d))
      (map (\<lambda>(fs, decay, v). (fs, decay)) xs) (ec_dec_init (buf (ec_enc_done s)) sz)) = xs"
  using laplace.stream_seq(1) [OF assms(1-4)] assms(6,7) unfolding s_def by simp

theorem laplace_stream_roundtrip_witness:
  "list_all laplace_valid [(9216, 8128, 0), (3072, 11456, - 30), (8320, 8256, 5)] \<and>
   fst (dec_seq (\<lambda>(fs, decay) d. case ec_laplace_decode fs decay d of (v, d) \<Rightarrow> ((fs, decay, v), d))
      [(9216, 8128), (3072, 11456), (8320, 8256)]
      (ec_dec_init (buf (ec_enc_done (fold (\<lambda>(fs, decay, v) s. snd (ec_laplace_encode v fs decay s))
         [(9216, 8128, 0), (3072, 11456, - 30), (8320, 8256, 5)] (ec_enc_init (replicate 8 0) 8)))) 8))
    = [(9216, 8128, 0), (3072, 11456, - 30), (8320, 8256, 5)]"
proof -
  let ?xs = "[(9216, 8128, 0), (3072, 11456, - 30), (8320, 8256, 5)] :: (int \<times> int \<times> int) list"
  let ?s = "fold (\<lambda>(fs, decay, v) s. snd (ec_laplace_encode v fs decay s)) ?xs (ec_enc_init (replicate 8 0) 8)"
  have v: "list_all laplace_valid ?xs" by code_simp
  have "nbits_total ?s < 2147483648" "error (ec_enc_done ?s) = 0" by code_simp+
  from laplace_stream_roundtrip [OF v _ _ _ this] v show ?thesis by (simp del: replicate.simps)
qed

text \<open>
  C28. With every model of the coarse energy, on each of the 21 bands, frame sizes and prediction
  types, the encoder sends every value of magnitude up to \<open>LAPLACE_NMIN\<close> unchanged.  A larger value
  it may clamp, but only towards zero; the decoder reads what the encoder reports back.
\<close>

theorem laplace_coarse_energy_exact:
  assumes "i < 4" "p < 2" "k < 21"
  defines "m \<equiv> e_prob_model ! i ! p"
  defines "fs \<equiv> push_bit 7 (m ! (2 * k))"
  defines "decay \<equiv> push_bit 6 (m ! (2 * k + 1))"
  shows "(\<bar>v\<bar> \<le> LAPLACE_NMIN \<longrightarrow> fst (ec_laplace_encode v fs decay s) = v)
    \<and> (\<bar>v\<bar> < 2000000000 \<longrightarrow> sgn (fst (ec_laplace_encode v fs decay s)) = sgn v \<and> \<bar>fst (ec_laplace_encode v fs decay s)\<bar> \<le> \<bar>v\<bar>
      \<and> transmits (\<lambda>s. snd (ec_laplace_encode v fs decay s)) (ec_laplace_decode fs decay) (fst (ec_laplace_encode v fs decay s)))"
proof -
  have "length e_prob_model = 4" "list_all (\<lambda>q. length q = 2) e_prob_model" by code_simp+
  then have "m \<in> set (e_prob_model ! i)" "e_prob_model ! i \<in> set e_prob_model"
    using assms(1,2) by (simp_all add: m_def list_all_length)
  then have "list_all (\<lambda>(fs, decay). laplace_ok fs decay) (model_pairs m)"
    using e_prob_model_ok unfolding list_all_iff by blast
  then have ok: "laplace_ok fs decay" using assms(3) by (simp add: model_pairs_def fs_def decay_def list_all_length)
  show ?thesis using laplace_exact [OF ok] laplace_clamp [OF ok] transmits_laplace [OF ok] by (simp add: ec_laplace_encode_fst)
qed

theorem laplace_coarse_energy_exact_witness:
  "fst (ec_laplace_encode (- 16) (push_bit 7 (e_prob_model ! 0 ! 1 ! 0)) (push_bit 6 (e_prob_model ! 0 ! 1 ! 1))
     (ec_enc_init [0, 0] 2)) = - 16"
  using laplace_coarse_energy_exact [of 0 1 0 "- 16"] by (simp add: LAPLACE_NMIN_def)

text \<open>
  C30. Values coded with an explicit probability of zero survive the range coder whatever their
  magnitude; in particular the decoding loop ends.
\<close>

theorem laplace_p0_stream_roundtrip:
  assumes "list_all p0_valid xs" "bytes b" "int (length b) = sz" "sz < 4294967296"
  defines "s \<equiv> fold (\<lambda>(p0, decay, v). ec_laplace_encode_p0 (the v) p0 decay) xs (ec_enc_init b sz)"
  assumes "nbits_total s < 2147483648" "error (ec_enc_done s) = 0"
  shows "fst (dec_seq (\<lambda>(p0, decay) d. case run_opt (ec_laplace_decode_p0 p0 decay) d of (v, d) \<Rightarrow> ((p0, decay, v), d))
      (map (\<lambda>(p0, decay, v). (p0, decay)) xs) (ec_dec_init (buf (ec_enc_done s)) sz)) = xs"
  using laplace_p0.stream_seq(1) [OF assms(1-4)] assms(6,7) unfolding s_def by simp

theorem laplace_p0_stream_roundtrip_witness:
  "fst (dec_seq (\<lambda>(p0, decay) d. case run_opt (ec_laplace_decode_p0 p0 decay) d of (v, d) \<Rightarrow> ((p0, decay, v), d))
      [(20000, 12000), (9000, 100)]
      (ec_dec_init (buf (ec_enc_done (fold (\<lambda>(p0, decay, v). ec_laplace_encode_p0 (the v) p0 decay)
         [(20000, 12000, Some (- 17)), (9000, 100, Some 0)] (ec_enc_init (replicate 8 0) 8)))) 8))
    = [(20000, 12000, Some (- 17)), (9000, 100, Some 0)]"
proof -
  let ?xs = "[(20000, 12000, Some (- 17)), (9000, 100, Some 0)] :: (int \<times> int \<times> int option) list"
  let ?s = "fold (\<lambda>(p0, decay, v). ec_laplace_encode_p0 (the v) p0 decay) ?xs (ec_enc_init (replicate 8 0) 8)"
  have v: "list_all p0_valid ?xs" by (simp add: p0_valid_def)
  have "nbits_total ?s < 2147483648" "error (ec_enc_done ?s) = 0" by code_simp+
  from laplace_p0_stream_roundtrip [OF v _ _ _ this] show ?thesis by (simp del: replicate.simps)
qed

end
