(* ===== verification/Quant_Bands.thy ===== *)
theory Quant_Bands
  imports Laplace
begin

text \<open>
  Band energies (\<open>celt/quant_bands.c\<close>, fixed-point build): coarse quantisation with prediction,
  fine quantisation, and the bits left over at the end of a frame.  The encoder and the decoder keep
  the quantised energies \<open>oldEBands\<close>; the arrays are indexed by \<open>i + c * nbEBands\<close>.  Assignments to
  the 32-bit and 16-bit variables of the code wrap.
\<close>

section \<open>Constants and fixed-point macros\<close>

definition DB_SHIFT :: nat where "DB_SHIFT = 10"

definition MAX_FINE_BITS :: int where "MAX_FINE_BITS = 8"

definition pred_coef :: "int list" where "pred_coef = [29440, 26112, 21248, 16384]"

definition beta_coef :: "int list" where "beta_coef = [30147, 22282, 12124, 6554]"

definition beta_intra :: int where "beta_intra = 4915"

definition SHL32 :: "int \<Rightarrow> nat \<Rightarrow> int" where "SHL32 a n = i32 (push_bit n a)"

definition SHL16 :: "int \<Rightarrow> nat \<Rightarrow> int" where "SHL16 a n = i16 (push_bit n a)"

definition PSHR32 :: "int \<Rightarrow> nat \<Rightarrow> int" where "PSHR32 a n = drop_bit n (a + drop_bit 1 (push_bit n 1))"

definition MULT16_16 :: "int \<Rightarrow> int \<Rightarrow> int" where "MULT16_16 a b = i16 a * i16 b"

section \<open>Coarse energy\<close>

text \<open>The state of the coarse loops; the decoder has no \<open>bs_error\<close> and no \<open>bs_badness\<close>.\<close>

record band_state =
  bs_old :: "int list"
  bs_prev :: "int list"

record enc_band_state = band_state +
  bs_error :: "int list"
  bs_badness :: int

text \<open>Prediction filter: coefficients by frame size, none for an intra frame.\<close>

definition coarse_coefs :: "nat \<Rightarrow> int \<Rightarrow> int \<times> int" where
  "coarse_coefs LM intra = (if intra \<noteq> 0 then (0, beta_intra) else (pred_coef ! LM, beta_coef ! LM))"

text \<open>The new energy of a band and the new filter memory, from the quantised residual \<open>qi\<close>.\<close>

definition coarse_update :: "int \<times> int \<Rightarrow> int \<Rightarrow> int \<Rightarrow> int \<Rightarrow> int \<times> int" where
  "coarse_update cb oldE prev qi =
    (let (coef, beta) = cb;
         q = SHL32 qi DB_SHIFT;
         tmp = i32 (PSHR32 (MULT16_16 coef oldE) 8 + prev + SHL32 q 7);
         tmp = max (- 3670016) tmp
     in (i16 (PSHR32 tmp 7), i32 (prev + SHL32 q 7 - MULT16_16 beta (PSHR32 q 8))))"

text \<open>The residual \<open>f\<close> and its rounding, with the limit on how fast the energy may fall.\<close>

definition coarse_residual :: "int \<Rightarrow> int \<Rightarrow> int \<Rightarrow> int \<Rightarrow> int \<Rightarrow> int \<Rightarrow> int \<times> int" where
  "coarse_residual coef x old oldE prev max_decay =
    (let f = i32 (SHL32 x 7 - PSHR32 (MULT16_16 coef oldE) 8 - prev);
         qi = drop_bit (DB_SHIFT + 7) (f + 65536);
         decay_bound = i16 (max (- 28672) (old - max_decay));
         qi = (if qi < 0 \<and> x < decay_bound
               then min 0 (qi + drop_bit DB_SHIFT (decay_bound - x)) else qi)
     in (f, qi))"

text \<open>What to send when bits are short.\<close>

definition coarse_limit :: "int \<Rightarrow> int \<Rightarrow> nat \<Rightarrow> nat \<Rightarrow> nat \<Rightarrow> nat \<Rightarrow> int \<Rightarrow> int \<Rightarrow> int" where
  "coarse_limit budget tell C start end i lfe qi =
    (let bits_left = budget - tell - 3 * int C * (int end - int i);
         qi = (if i \<noteq> start \<and> bits_left < 30 then
                 let qi = (if bits_left < 24 then min 1 qi else qi)
                 in (if bits_left < 16 then max (- 1) qi else qi)
               else qi)
     in if lfe \<noteq> 0 \<and> i \<ge> 2 then min qi 0 else qi)"

definition coarse_encode :: "int \<Rightarrow> int list \<Rightarrow> nat \<Rightarrow> int \<Rightarrow> int \<Rightarrow> ec_ctx \<Rightarrow> int \<times> ec_ctx" where
  "coarse_encode budget prob_model i qi tell enc =
    (if budget - tell \<ge> 15 then
       let pi = 2 * min i 20
       in ec_laplace_encode qi (push_bit 7 (prob_model ! pi)) (push_bit 6 (prob_model ! (pi + 1))) enc
     else if budget - tell \<ge> 2 then
       let qi = max (- 1) (min qi 1)
       in (qi, ec_enc_icdf ((2 * qi) XOR - cbool (qi < 0)) small_energy_icdf 2 enc)
     else if budget - tell \<ge> 1 then
       let qi = min 0 qi in (qi, ec_enc_bit_logp (- qi) 1 enc)
     else (- 1, enc))"

definition coarse_decode :: "int \<Rightarrow> int list \<Rightarrow> nat \<Rightarrow> int \<Rightarrow> ec_ctx \<Rightarrow> int \<times> ec_ctx" where
  "coarse_decode budget prob_model i tell dec =
    (if budget - tell \<ge> 15 then
       let pi = 2 * min i 20
       in ec_laplace_decode (push_bit 7 (prob_model ! pi)) (push_bit 6 (prob_model ! (pi + 1))) dec
     else if budget - tell \<ge> 2 then
       let (qi, dec) = ec_dec_icdf small_energy_icdf 2 dec
       in (drop_bit 1 qi XOR - (qi AND 1), dec)
     else if budget - tell \<ge> 1 then
       let (b, dec) = ec_dec_bit_logp 1 dec in (- b, dec)
     else (- 1, dec))"

definition quant_coarse_band ::
    "nat \<Rightarrow> nat \<Rightarrow> nat \<Rightarrow> int list \<Rightarrow> int \<Rightarrow> int list \<Rightarrow> nat \<Rightarrow> int \<times> int \<Rightarrow> int \<Rightarrow> int \<Rightarrow>
     nat \<times> nat \<Rightarrow> enc_band_state \<Rightarrow> ec_ctx \<Rightarrow> enc_band_state \<times> ec_ctx" where
  "quant_coarse_band nbEBands start end eBands budget prob_model C cb max_decay lfe = (\<lambda>(i, c) st enc.
    let k = i + c * nbEBands;
        x = eBands ! k;
        oldE = max (- 9216) (bs_old st ! k);
        prev = bs_prev st ! c;
        (f, qi0) = coarse_residual (fst cb) x (bs_old st ! k) oldE prev max_decay;
        tell = ec_tell enc;
        qi = coarse_limit budget tell C start end i lfe qi0;
        (qi, enc) = coarse_encode budget prob_model i qi tell enc;
        (new, prev) = coarse_update cb oldE prev qi
    in (st\<lparr>bs_old := (bs_old st)[k := new], bs_prev := (bs_prev st)[c := prev],
           bs_error := (bs_error st)[k := i16 (PSHR32 f 7 - SHL16 qi DB_SHIFT)],
           bs_badness := bs_badness st + \<bar>qi0 - qi\<bar>\<rparr>, enc))"

definition unquant_coarse_band ::
    "nat \<Rightarrow> int \<Rightarrow> int list \<Rightarrow> int \<times> int \<Rightarrow> nat \<times> nat \<Rightarrow> band_state \<Rightarrow> ec_ctx \<Rightarrow> band_state \<times> ec_ctx" where
  "unquant_coarse_band nbEBands budget prob_model cb = (\<lambda>(i, c) st dec.
    let k = i + c * nbEBands;
        tell = ec_tell dec;
        (qi, dec) = coarse_decode budget prob_model i tell dec;
        oldE = max (- 9216) (bs_old st ! k);
        (new, prev) = coarse_update cb oldE (bs_prev st ! c) qi
    in (st\<lparr>bs_old := (bs_old st)[k := new], bs_prev := (bs_prev st)[c := prev]\<rparr>, dec))"

text \<open>The bands and channels in coding order.\<close>

definition band_order :: "nat \<Rightarrow> nat \<Rightarrow> nat \<Rightarrow> (nat \<times> nat) list" where
  "band_order start end C = concat (map (\<lambda>i. map (\<lambda>c. (i, c)) [0..<C]) [start..<end])"

definition quant_coarse_energy_impl ::
    "nat \<Rightarrow> nat \<Rightarrow> nat \<Rightarrow> int list \<Rightarrow> int list \<Rightarrow> int \<Rightarrow> int \<Rightarrow> int list \<Rightarrow> int list \<Rightarrow> nat \<Rightarrow> nat \<Rightarrow> int \<Rightarrow>
     int \<Rightarrow> int \<Rightarrow> ec_ctx \<Rightarrow> (int \<times> int list \<times> int list) \<times> ec_ctx" where
  "quant_coarse_energy_impl nbEBands start end eBands oldEBands budget tell prob_model errE C LM intra
      max_decay lfe enc =
    (let enc = (if tell + 3 \<le> budget then ec_enc_bit_logp intra 3 enc else enc);
         cb = coarse_coefs LM intra;
         (st, enc) = code_fold (quant_coarse_band nbEBands start end eBands budget prob_model C cb max_decay lfe)
           (band_order start end C)
           \<lparr>bs_old = oldEBands, bs_prev = [0, 0], bs_error = errE, bs_badness = 0\<rparr> enc
     in ((if lfe \<noteq> 0 then 0 else bs_badness st, bs_old st, bs_error st), enc))"

definition unquant_coarse_energy ::
    "nat \<Rightarrow> nat \<Rightarrow> nat \<Rightarrow> int list \<Rightarrow> int \<Rightarrow> nat \<Rightarrow> nat \<Rightarrow> ec_ctx \<Rightarrow> int list \<times> ec_ctx" where
  "unquant_coarse_energy nbEBands start end oldEBands intra C LM dec =
    (let prob_model = e_prob_model ! LM ! nat intra;
         cb = coarse_coefs LM intra;
         budget = storage dec * 8;
         (st, dec) = code_fold (unquant_coarse_band nbEBands budget prob_model cb) (band_order start end C)
           \<lparr>bs_old = oldEBands, bs_prev = [0, 0]\<rparr> dec
     in (bs_old st, dec))"

text \<open>The flag that precedes the coarse energy, as \<open>celt_decode_with_ec\<close> reads it.\<close>

definition celt_intra_ener :: "int \<Rightarrow> int \<Rightarrow> ec_ctx \<Rightarrow> int \<times> ec_ctx" where
  "celt_intra_ener total_bits tell dec = (if tell + 3 \<le> total_bits then ec_dec_bit_logp 3 dec else (0, dec))"

section \<open>Fine energy\<close>

definition fine_offset :: "int \<Rightarrow> nat \<Rightarrow> int" where
  "fine_offset q2 fine = i16 (drop_bit fine (SHL32 q2 DB_SHIFT + 512) - 512)"

text \<open>One channel of a band, from \<open>(oldEBands, error)\<close>.\<close>

definition quant_fine_band ::
    "nat \<Rightarrow> int list \<Rightarrow> nat \<times> nat \<Rightarrow> int list \<times> int list \<Rightarrow> ec_ctx \<Rightarrow> (int list \<times> int list) \<times> ec_ctx" where
  "quant_fine_band nbEBands fine_quant = (\<lambda>(i, c) (old, err) enc.
    if fine_quant ! i \<le> 0 then ((old, err), enc)
    else
      let fine = nat (fine_quant ! i);
          frac = i16 (push_bit fine 1);
          k = i + c * nbEBands;
          q2 = drop_bit (DB_SHIFT - fine) (err ! k + 512);
          q2 = (if q2 > frac - 1 then frac - 1 else q2);
          q2 = (if q2 < 0 then 0 else q2);
          enc = ec_enc_bits q2 (int fine) enc;
          offset = fine_offset q2 fine
      in ((old[k := i16 (old ! k + offset)], err[k := i16 (err ! k - offset)]), enc))"

definition quant_fine_energy ::
    "nat \<Rightarrow> nat \<Rightarrow> nat \<Rightarrow> int list \<Rightarrow> int list \<Rightarrow> int list \<Rightarrow> nat \<Rightarrow> ec_ctx \<Rightarrow> (int list \<times> int list) \<times> ec_ctx" where
  "quant_fine_energy nbEBands start end oldEBands errE fine_quant C enc =
    code_fold (quant_fine_band nbEBands fine_quant) (band_order start end C) (oldEBands, errE) enc"

definition unquant_fine_band :: "nat \<Rightarrow> int list \<Rightarrow> nat \<times> nat \<Rightarrow> int list \<Rightarrow> ec_ctx \<Rightarrow> int list \<times> ec_ctx" where
  "unquant_fine_band nbEBands fine_quant = (\<lambda>(i, c) old dec.
    if fine_quant ! i \<le> 0 then (old, dec)
    else
      let k = i + c * nbEBands;
          (q2, dec) = ec_dec_bits (fine_quant ! i) dec;
          offset = fine_offset q2 (nat (fine_quant ! i))
      in (old[k := i16 (old ! k + offset)], dec))"

definition unquant_fine_energy ::
    "nat \<Rightarrow> nat \<Rightarrow> nat \<Rightarrow> int list \<Rightarrow> int list \<Rightarrow> nat \<Rightarrow> ec_ctx \<Rightarrow> int list \<times> ec_ctx" where
  "unquant_fine_energy nbEBands start end oldEBands fine_quant C dec =
    code_fold (unquant_fine_band nbEBands fine_quant) (band_order start end C) oldEBands dec"

section \<open>Left-over bits\<close>

definition final_offset :: "int \<Rightarrow> nat \<Rightarrow> int" where
  "final_offset q2 fine = i16 (drop_bit (fine + 1) (SHL16 q2 DB_SHIFT - 512))"

definition quant_final_channel ::
    "nat \<Rightarrow> nat \<Rightarrow> nat \<Rightarrow> nat \<Rightarrow> int list \<times> int list \<times> int \<Rightarrow> ec_ctx \<Rightarrow> (int list \<times> int list \<times> int) \<times> ec_ctx" where
  "quant_final_channel nbEBands fine i c = (\<lambda>(old, err, bits_left) enc.
    let k = i + c * nbEBands;
        q2 = (if err ! k < 0 then 0 else 1);
        enc = ec_enc_bits q2 1 enc;
        offset = final_offset q2 fine
    in ((old[k := i16 (old ! k + offset)], err[k := i16 (err ! k - offset)], bits_left - 1), enc))"

text \<open>
  One round of the loop over the bands.  Once \<open>bits_left < C\<close> the loop ends; \<open>bits_left\<close> does not
  change afterwards, so every later round of this model is empty.
\<close>

definition quant_final_band ::
    "nat \<Rightarrow> int list \<Rightarrow> int list \<Rightarrow> nat \<Rightarrow> int \<times> nat \<Rightarrow> int list \<times> int list \<times> int \<Rightarrow> ec_ctx \<Rightarrow>
     (int list \<times> int list \<times> int) \<times> ec_ctx" where
  "quant_final_band nbEBands fine_quant fine_priority C = (\<lambda>(prio, i) (old, err, bits_left) enc.
    if bits_left < int C \<or> fine_quant ! i \<ge> MAX_FINE_BITS \<or> fine_priority ! i \<noteq> prio then ((old, err, bits_left), enc)
    else code_fold (quant_final_channel nbEBands (nat (fine_quant ! i)) i) [0..<C] (old, err, bits_left) enc)"

definition final_order :: "nat \<Rightarrow> nat \<Rightarrow> (int \<times> nat) list" where
  "final_order start end = map (Pair 0) [start..<end] @ map (Pair 1) [start..<end]"

definition quant_energy_finalise ::
    "nat \<Rightarrow> nat \<Rightarrow> nat \<Rightarrow> int list \<Rightarrow> int list \<Rightarrow> int list \<Rightarrow> int list \<Rightarrow> int \<Rightarrow> nat \<Rightarrow> ec_ctx \<Rightarrow>
     (int list \<times> int list \<times> int) \<times> ec_ctx" where
  "quant_energy_finalise nbEBands start end oldEBands errE fine_quant fine_priority bits_left C enc =
    code_fold (quant_final_band nbEBands fine_quant fine_priority C) (final_order start end)
      (oldEBands, errE, bits_left) enc"

definition unquant_final_channel ::
    "nat \<Rightarrow> nat \<Rightarrow> nat \<Rightarrow> nat \<Rightarrow> int list \<times> int \<Rightarrow> ec_ctx \<Rightarrow> (int list \<times> int) \<times> ec_ctx" where
  "unquant_final_channel nbEBands fine i c = (\<lambda>(old, bits_left) dec.
    let k = i + c * nbEBands;
        (q2, dec) = ec_dec_bits 1 dec;
        offset = final_offset q2 fine
    in ((old[k := i16 (old ! k + offset)], bits_left - 1), dec))"

definition unquant_final_band ::
    "nat \<Rightarrow> int list \<Rightarrow> int list \<Rightarrow> nat \<Rightarrow> int \<times> nat \<Rightarrow> int list \<times> int \<Rightarrow> ec_ctx \<Rightarrow> (int list \<times> int) \<times> ec_ctx" where
  "unquant_final_band nbEBands fine_quant fine_priority C = (\<lambda>(prio, i) (old, bits_left) dec.
    if bits_left < int C \<or> fine_quant ! i \<ge> MAX_FINE_BITS \<or> fine_priority ! i \<noteq> prio then ((old, bits_left), dec)
    else code_fold (unquant_final_channel nbEBands (nat (fine_quant ! i)) i) [0..<C] (old, bits_left) dec)"

definition unquant_energy_finalise ::
    "nat \<Rightarrow> nat \<Rightarrow> nat \<Rightarrow> int list \<Rightarrow> int list \<Rightarrow> int list \<Rightarrow> int \<Rightarrow> nat \<Rightarrow> ec_ctx \<Rightarrow> (int list \<times> int) \<times> ec_ctx" where
  "unquant_energy_finalise nbEBands start end oldEBands fine_quant fine_priority bits_left C dec =
    code_fold (unquant_final_band nbEBands fine_quant fine_priority C) (final_order start end)
      (oldEBands, bits_left) dec"

section \<open>Synchronisation\<close>

definition model_ok :: "int list \<Rightarrow> bool" where
  "model_ok m \<longleftrightarrow> list_all (\<lambda>(fs, decay). laplace_ok fs decay) (model_pairs m)"

lemma e_prob_model_model_ok:
  assumes "LM < 4" "p < 2"
  shows "model_ok (e_prob_model ! LM ! p)"
proof -
  have "length e_prob_model = 4" "list_all (\<lambda>q. length q = 2) e_prob_model" by code_simp+
  then have "e_prob_model ! LM ! p \<in> set (e_prob_model ! LM)" "e_prob_model ! LM \<in> set e_prob_model"
    using assms by (simp_all add: list_all_length)
  then show ?thesis using e_prob_model_ok unfolding list_all_iff model_ok_def by blast
qed

lemma model_okD: "model_ok m \<Longrightarrow> laplace_ok (push_bit 7 (m ! (2 * min i 20))) (push_bit 6 (m ! (2 * min i 20 + 1)))"
  by (simp add: model_ok_def model_pairs_def list_all_length del: upt_Suc)

lemma small_energy_sym:
  assumes "q \<in> {- 1, 0, 1}"
  shows "transmits (ec_enc_icdf ((2 * q) XOR - cbool (q < 0)) small_energy_icdf 2)
    (\<lambda>d. case ec_dec_icdf small_energy_icdf 2 d of (k, d) \<Rightarrow> (drop_bit 1 k XOR - (k AND 1), d)) q"
proof -
  have "((2 * q) XOR - cbool (q < 0)) \<in> {0, 1, 2}" "drop_bit 1 ((2 * q) XOR - cbool (q < 0)) XOR - (((2 * q) XOR - cbool (q < 0)) AND 1) = q"
    using assms by auto
  moreover have "icdf_sym small_energy_icdf 2 k" if "k \<in> {0, 1, 2}" for k
    using that by (intro sorted_icdf_sym) (auto simp: small_energy_icdf_def)
  ultimately show ?thesis by (intro transmits_map [OF transmits_icdf(1)]) auto
qed

lemma sends_coarse:
  assumes m: "model_ok pm" and q: "\<bar>qi\<bar> < 2000000000" and one: "budget - t = 1 \<Longrightarrow> - 1 \<le> qi"
  shows "sends (\<lambda>q. q) (coarse_encode budget pm i qi t) (coarse_decode budget pm i t)"
proof -
  consider (lap) "budget - t \<ge> 15" | (icdf) "2 \<le> budget - t" "budget - t < 15" | (bit) "budget - t = 1" | (none) "budget - t < 1"
    by linarith
  then show ?thesis
  proof cases
    case lap
    let ?fs = "push_bit 7 (pm ! (2 * min i 20))" and ?dc = "push_bit 6 (pm ! (2 * min i 20 + 1))"
    have "sends (\<lambda>q. q) (\<lambda>s. (fst (ec_laplace_symbol qi ?fs ?dc), snd (ec_laplace_encode qi ?fs ?dc s))) (ec_laplace_decode ?fs ?dc)"
      by (rule sends_transmits [OF transmits_laplace [OF model_okD [OF m] q]]) simp
    then show ?thesis
      by (rule codes_cong) (use lap in \<open>simp_all add: coarse_encode_def coarse_decode_def Let_def prod_eq_iff ec_laplace_encode_fst\<close>)
  next
    case icdf
    have "sends (\<lambda>q. q) (\<lambda>s. (max (- 1) (min qi 1), ec_enc_icdf ((2 * max (- 1) (min qi 1)) XOR - cbool (max (- 1) (min qi 1) < 0)) small_energy_icdf 2 s))
      (\<lambda>d. case ec_dec_icdf small_energy_icdf 2 d of (k, d) \<Rightarrow> (drop_bit 1 k XOR - (k AND 1), d))"
      by (rule sends_transmits [OF small_energy_sym]) (auto simp: max_def min_def)
    then show ?thesis by (rule codes_cong) (use icdf in \<open>simp_all add: coarse_encode_def coarse_decode_def Let_def\<close>)
  next
    case bit
    have "transmits (ec_enc_bit_logp (- min 0 qi) 1) (\<lambda>d. case ec_dec_bit_logp 1 d of (b, d) \<Rightarrow> (- b, d)) (min 0 qi)"
      by (rule transmits_map [OF transmits_bit_logp]) (use one [OF bit] in \<open>auto simp: min_def cbool_def\<close>)
    then have "sends (\<lambda>q. q) (\<lambda>s. (min 0 qi, ec_enc_bit_logp (- min 0 qi) 1 s)) (\<lambda>d. case ec_dec_bit_logp 1 d of (b, d) \<Rightarrow> (- b, d))"
      by (rule sends_transmits) simp
    then show ?thesis by (rule codes_cong) (use bit in \<open>simp_all add: coarse_encode_def coarse_decode_def Let_def\<close>)
  next
    case none
    have "sends (\<lambda>q. q) (\<lambda>s. (- 1, s)) (\<lambda>d. (- 1, d))" by (rule sends_return) simp
    then show ?thesis by (rule codes_cong) (use none in \<open>simp_all add: coarse_encode_def coarse_decode_def\<close>)
  qed
qed

lemma i32_bounds: "- 2147483648 \<le> i32 x" "i32 x < 2147483648"
  by (simp_all add: i32_def)

lemma coarse_residual_bound: "\<bar>snd (coarse_residual coef x old oldE prev max_decay)\<bar> < 1000000"
proof -
  define f where "f = i32 (SHL32 x 7 - PSHR32 (MULT16_16 coef oldE) 8 - prev)"
  have "- 2147483648 \<le> f" "f < 2147483648" unfolding f_def by (rule i32_bounds)+
  then have "- 16384 \<le> (f + 65536) div 131072" "(f + 65536) div 131072 \<le> 16384" by linarith+
  then show ?thesis
    unfolding coarse_residual_def Let_def f_def [symmetric]
    by (auto simp: shift_arith DB_SHIFT_def min_def)
qed

lemma coarse_limit_bound:
  assumes "\<bar>qi\<bar> < 1000000"
  shows "\<bar>coarse_limit budget tell C start end i lfe qi\<bar> < 1000000"
    "\<lbrakk>i \<noteq> start; i < end; 0 < C; budget - tell = 1\<rbrakk> \<Longrightarrow> - 1 \<le> coarse_limit budget tell C start end i lfe qi"
proof -
  show "\<bar>coarse_limit budget tell C start end i lfe qi\<bar> < 1000000"
    using assms by (auto simp: coarse_limit_def Let_def min_def max_def)
  assume a: "i \<noteq> start" "i < end" "0 < C" "budget - tell = 1"
  have "0 \<le> 3 * int C * (int end - int i)" using a by simp
  then have "budget - tell - 3 * int C * (int end - int i) < 16" "budget - tell - 3 * int C * (int end - int i) < 30"
    using a(4) by linarith+
  then show "- 1 \<le> coarse_limit budget tell C start end i lfe qi"
    using a(1) unfolding coarse_limit_def Let_def by auto
qed

abbreviation dec_part :: "enc_band_state \<Rightarrow> band_state" where
  "dec_part st \<equiv> \<lparr>bs_old = bs_old st, bs_prev = bs_prev st\<rparr>"

lemma codes_coarse_band:
  assumes m: "model_ok pm" and i: "i < end" "0 < C"
  shows "codes (\<lambda>s. i = start \<longrightarrow> budget - ec_tell s \<noteq> 1) dec_part
    (quant_coarse_band nb start end eBands budget pm C cb max_decay lfe (i, c) st)
    (unquant_coarse_band nb budget pm cb (i, c) (dec_part st))"
proof -
  define k where "k = i + c * nb"
  define oldE where "oldE = max (- 9216) (bs_old st ! k)"
  define f where "f = fst (coarse_residual (fst cb) (eBands ! k) (bs_old st ! k) oldE (bs_prev st ! c) max_decay)"
  define qi0 where "qi0 = snd (coarse_residual (fst cb) (eBands ! k) (bs_old st ! k) oldE (bs_prev st ! c) max_decay)"
  define upd where "upd q = coarse_update cb oldE (bs_prev st ! c) q" for q
  let ?lim = "\<lambda>t. coarse_limit budget t C start end i lfe qi0"
  have "\<bar>qi0\<bar> < 1000000" unfolding qi0_def by (rule coarse_residual_bound)
  note lim = coarse_limit_bound [OF this]
  have q: "codes (\<lambda>s. i = start \<longrightarrow> budget - ec_tell s \<noteq> 1) (\<lambda>q. q)
      (\<lambda>s. coarse_encode budget pm i (?lim (ec_tell s)) (ec_tell s) s) (\<lambda>d. coarse_decode budget pm i (ec_tell d) d)"
  proof (rule codes_tell)
    fix t
    show "codes (\<lambda>s. (i = start \<longrightarrow> budget - ec_tell s \<noteq> 1) \<and> ec_tell s = t) (\<lambda>q. q)
        (coarse_encode budget pm i (?lim t) t) (coarse_decode budget pm i t)"
    proof (cases "i = start \<and> budget - t = 1")
      case True
      have "enc_step (\<lambda>s. snd (coarse_encode budget pm i (?lim t) t s))"
        using True transmits_step [OF transmits_bit_logp [of 1 "- min 0 (?lim t)"]]
        by (simp add: coarse_encode_def Let_def)
      then show ?thesis using True by (auto simp: codes_def)
    next
      case False
      have "\<bar>?lim t\<bar> < 2000000000" using lim(1) by (rule less_trans) simp
      moreover have "- 1 \<le> ?lim t" if "budget - t = 1" using that False i by (intro lim(2)) auto
      ultimately have "sends (\<lambda>q. q) (coarse_encode budget pm i (?lim t) t) (coarse_decode budget pm i t)"
        by (rule sends_coarse [OF m])
      then show ?thesis by (rule codes_weaken)
    qed
  qed
  let ?fe = "\<lambda>q. st\<lparr>bs_old := (bs_old st)[k := fst (upd q)], bs_prev := (bs_prev st)[c := snd (upd q)],
           bs_error := (bs_error st)[k := i16 (PSHR32 f 7 - SHL16 q DB_SHIFT)],
           bs_badness := bs_badness st + \<bar>qi0 - q\<bar>\<rparr>"
  let ?fd = "\<lambda>q. (dec_part st)\<lparr>bs_old := (bs_old st)[k := fst (upd q)], bs_prev := (bs_prev st)[c := snd (upd q)]\<rparr>"
  from codes_map [OF q, where f = ?fe and h = dec_part and k = ?fd]
  show ?thesis
    by (rule codes_cong) (simp_all add: quant_coarse_band_def unquant_coarse_band_def Let_def case_prod_beta
      k_def oldE_def f_def qi0_def upd_def)
qed

lemma band_order_set: "(i, c) \<in> set (band_order start end C) \<longleftrightarrow> start \<le> i \<and> i < end \<and> c < C"
  by (auto simp: band_order_def intro!: bexI [of _ i])

text \<open>The states in which the bands are coded; the first band needs more than one bit, or none.\<close>

definition coarse_room ::
    "nat \<Rightarrow> nat \<Rightarrow> nat \<Rightarrow> int list \<Rightarrow> int \<Rightarrow> int list \<Rightarrow> nat \<Rightarrow> int \<times> int \<Rightarrow> int \<Rightarrow> int \<Rightarrow> enc_band_state \<Rightarrow> ec_ctx \<Rightarrow> bool" where
  "coarse_room nb start end eBands budget pm C cb max_decay lfe st s \<longleftrightarrow>
    visits (quant_coarse_band nb start end eBands budget pm C cb max_decay lfe)
      (\<lambda>(i, c) s. i = start \<longrightarrow> budget - ec_tell s \<noteq> 1) (band_order start end C) st s"

lemma codes_coarse_loop:
  assumes m: "model_ok pm"
  shows "codes (coarse_room nb start end eBands budget pm C cb max_decay lfe st) dec_part
    (code_fold (quant_coarse_band nb start end eBands budget pm C cb max_decay lfe) (band_order start end C) st)
    (code_fold (unquant_coarse_band nb budget pm cb) (band_order start end C) (dec_part st))"
proof -
  have "codes (visits (quant_coarse_band nb start end eBands budget pm C cb max_decay lfe)
      (\<lambda>(i, c) s. i = start \<longrightarrow> budget - ec_tell s \<noteq> 1) (band_order start end C) st) dec_part
    (code_fold (quant_coarse_band nb start end eBands budget pm C cb max_decay lfe) (band_order start end C) st)
    (code_fold (unquant_coarse_band nb budget pm cb) (band_order start end C) (dec_part st))"
    by (rule codes_fold [where Q = "\<lambda>_. True"]) (auto simp: band_order_set intro!: codes_coarse_band m)
  then show ?thesis unfolding coarse_room_def .
qed

lemma storage_enc_normalize: "storage (ec_enc_normalize s) = storage s"
  by (induction s rule: ec_enc_normalize.induct)
    (subst ec_enc_normalize.simps, simp add: ec_enc_normalize_body_def)

lemma storage_enc_bit_logp [simp]: "storage (ec_enc_bit_logp v l s) = storage s"
  by (simp add: ec_enc_bit_logp_def storage_enc_normalize Let_def)

text \<open>The whole coarse pass; the flag is 0 when there is no room for it.\<close>

lemma codes_coarse_impl:
  fixes old err :: "int list"
  assumes m: "model_ok (e_prob_model ! LM ! nat intra)" and intra: "intra \<in> {0, 1}" "\<not> tell + 3 \<le> budget \<Longrightarrow> intra = 0"
  defines "cb \<equiv> coarse_coefs LM intra" and "pm \<equiv> e_prob_model ! LM ! nat intra"
  defines "st \<equiv> \<lparr>bs_old = old, bs_prev = [0, 0], bs_error = err, bs_badness = 0\<rparr>"
  shows "codes (\<lambda>s. storage s * 8 = budget \<and> coarse_room nb start end eBands budget pm C cb max_decay lfe st
        (if tell + 3 \<le> budget then ec_enc_bit_logp intra 3 s else s)) (\<lambda>(bad, old, err). old)
    (quant_coarse_energy_impl nb start end eBands old budget tell pm err C LM intra max_decay lfe)
    (\<lambda>d. case celt_intra_ener budget tell d of (intra, d) \<Rightarrow> unquant_coarse_energy nb start end old intra C LM d)"
proof -
  let ?e = "\<lambda>s. if tell + 3 \<le> budget then ec_enc_bit_logp intra 3 s else s"
  have "transmits ?e (celt_intra_ener budget tell) intra"
  proof (cases "tell + 3 \<le> budget")
    case True
    have "transmits (ec_enc_bit_logp intra 3) (ec_dec_bit_logp 3) (cbool (intra \<noteq> 0))" by (rule transmits_bit_logp) simp_all
    then show ?thesis using True intra(1) by (auto simp: celt_intra_ener_def [abs_def] cbool_def)
  next
    case False
    then show ?thesis using intra(2) transmits_return [of "0 :: int"] by (simp add: celt_intra_ener_def [abs_def])
  qed
  then have "sends (\<lambda>x. x) (\<lambda>s. (intra, ?e s)) (celt_intra_ener budget tell)" by (rule sends_transmits) simp
  then have 1: "codes (\<lambda>s. storage s * 8 = budget) (\<lambda>x. x) (\<lambda>s. (intra, ?e s)) (celt_intra_ener budget tell)"
    by (rule codes_weaken)
  let ?enc = "code_fold (quant_coarse_band nb start end eBands budget pm C cb max_decay lfe) (band_order start end C) st"
  let ?dec = "\<lambda>budget. code_fold (unquant_coarse_band nb budget pm cb) (band_order start end C) \<lparr>bs_old = old, bs_prev = [0, 0]\<rparr>"
  have 2: "codes (coarse_room nb start end eBands budget pm C cb max_decay lfe st) dec_part ?enc (?dec budget)"
  proof -
    have "\<lparr>bs_old = old, bs_prev = [0, 0]\<rparr> = dec_part st" by (simp add: st_def)
    then show ?thesis by (simp only: codes_coarse_loop [OF m [folded pm_def]])
  qed
  have 3: "codes (\<lambda>s. storage s * 8 = budget \<and> coarse_room nb start end eBands budget pm C cb max_decay lfe st s) dec_part
      ?enc (\<lambda>d. ?dec (storage d * 8) d)"
  proof (rule codes_storage [where enc = "\<lambda>n. ?enc" and dec = "\<lambda>n. ?dec (n * 8)"])
    fix n
    show "codes (\<lambda>s. (storage s * 8 = budget \<and> coarse_room nb start end eBands budget pm C cb max_decay lfe st s) \<and> storage s = n)
        dec_part ?enc (?dec (n * 8))"
      using 2 by (cases "n * 8 = budget") (auto simp: codes_def)
  qed
  have 4: "codes (\<lambda>s. storage s * 8 = budget \<and> coarse_room nb start end eBands budget pm C cb max_decay lfe st s) (\<lambda>(bad, old, err). old)
      (\<lambda>s. case ?enc s of (st, s) \<Rightarrow> ((if lfe \<noteq> 0 then 0 else bs_badness st, bs_old st, bs_error st), s))
      (unquant_coarse_energy nb start end old intra C LM)"
    by (rule codes_cong [OF codes_map [OF 3, where f = "\<lambda>st. (if lfe \<noteq> 0 then 0 else bs_badness st, bs_old st, bs_error st)"
          and h = "\<lambda>(bad, old, err). old" and k = bs_old]])
      (simp_all add: unquant_coarse_energy_def Let_def pm_def cb_def)
  have st: "storage (?e s) = storage s" for s by simp
  from codes_bind_on [OF 1, where Q = "\<lambda>_ s. storage s * 8 = budget \<and> coarse_room nb start end eBands budget pm C cb max_decay lfe st s"
      and ?enc2.0 = "\<lambda>_ s. case ?enc s of (st, s) \<Rightarrow> ((if lfe \<noteq> 0 then 0 else bs_badness st, bs_old st, bs_error st), s)"
      and ?dec2.0 = "\<lambda>intra. unquant_coarse_energy nb start end old intra C LM" and h = "\<lambda>(bad, old, err). old"] 4
  have "codes (\<lambda>s. storage s * 8 = budget \<and> coarse_room nb start end eBands budget pm C cb max_decay lfe st (?e s)) (\<lambda>(bad, old, err). old)
     (\<lambda>s. case (intra, ?e s) of (_, s) \<Rightarrow> case ?enc s of (st, s) \<Rightarrow> ((if lfe \<noteq> 0 then 0 else bs_badness st, bs_old st, bs_error st), s))
     (\<lambda>d. case celt_intra_ener budget tell d of (intra, d) \<Rightarrow> unquant_coarse_energy nb start end old intra C LM d)"
    by (simp add: st)
  then show ?thesis
    by (rule codes_cong) (simp_all add: quant_coarse_energy_impl_def Let_def cb_def st_def)
qed

lemma i16_pow: "n \<le> 8 \<Longrightarrow> i16 (push_bit n 1) = 2 ^ n"
proof -
  assume "n \<le> 8"
  then have "(2::int) ^ n \<le> 2 ^ 8" by (intro power_increasing) simp_all
  then have "(2::int) ^ n \<le> 256" "0 \<le> (2::int) ^ n" by simp_all
  then show ?thesis unfolding push_bit_mult mult_1 by (intro i16_id) linarith+
qed

lemma sends_fine_band:
  assumes "fine_quant ! i \<le> MAX_FINE_BITS"
  shows "sends fst (quant_fine_band nb fine_quant (i, c) (old, err)) (unquant_fine_band nb fine_quant (i, c) old)"
proof (cases "fine_quant ! i \<le> 0")
  case True
  have "sends fst (\<lambda>s. ((old, err), s)) (\<lambda>d. (old, d))" by (rule sends_return) simp
  then show ?thesis by (rule codes_cong) (use True in \<open>simp_all add: quant_fine_band_def unquant_fine_band_def\<close>)
next
  case False
  define n where "n = nat (fine_quant ! i)"
  define k where "k = i + c * nb"
  define q2 where "q2 = (let q2 = drop_bit (DB_SHIFT - n) (err ! k + 512); q2 = (if q2 > i16 (push_bit n 1) - 1 then i16 (push_bit n 1) - 1 else q2)
    in if q2 < 0 then 0 else q2)"
  have n: "0 < n" "n \<le> 8" "fine_quant ! i = int n" using False assms by (simp_all add: n_def MAX_FINE_BITS_def)
  have p: "i16 (push_bit n 1) = 2 ^ n" "(1::int) \<le> 2 ^ n" using i16_pow [OF n(2)] by simp_all
  have q: "0 \<le> q2" "q2 < 2 ^ n" unfolding q2_def Let_def p(1) using p(2) by auto
  have "transmits (ec_enc_bits q2 (int n)) (ec_dec_bits (int n)) q2" using q n by (intro transmits_bits) simp_all
  then have "transmits (ec_enc_bits q2 (int n))
      (\<lambda>d. case ec_dec_bits (int n) d of (q, d) \<Rightarrow> (old[k := i16 (old ! k + fine_offset q n)], d)) (old[k := i16 (old ! k + fine_offset q2 n)])"
    by (rule transmits_map) simp
  then have "sends fst (\<lambda>s. ((old[k := i16 (old ! k + fine_offset q2 n)], err[k := i16 (err ! k - fine_offset q2 n)]), ec_enc_bits q2 (int n) s))
      (\<lambda>d. case ec_dec_bits (int n) d of (q, d) \<Rightarrow> (old[k := i16 (old ! k + fine_offset q n)], d))"
    by (rule sends_transmits) simp
  then show ?thesis
    by (rule codes_cong) (use n in \<open>simp_all add: quant_fine_band_def unquant_fine_band_def Let_def k_def [symmetric] q2_def\<close>)
qed

lemma sends_fine:
  assumes "\<And>i. start \<le> i \<Longrightarrow> i < end \<Longrightarrow> fine_quant ! i \<le> MAX_FINE_BITS"
  shows "sends fst (quant_fine_energy nb start end old err fine_quant C) (unquant_fine_energy nb start end old fine_quant C)"
proof -
  have "sends fst (code_fold (quant_fine_band nb fine_quant) (band_order start end C) (old, err))
      (code_fold (unquant_fine_band nb fine_quant) (band_order start end C) (fst (old, err)))"
    by (rule sends_fold [where Q = "\<lambda>_. True"]) (use assms in \<open>auto simp: band_order_set intro!: sends_fine_band\<close>)
  then show ?thesis by (rule codes_cong) (simp_all add: quant_fine_energy_def unquant_fine_energy_def)
qed

abbreviation final_part :: "int list \<times> int list \<times> int \<Rightarrow> int list \<times> int" where
  "final_part \<equiv> \<lambda>(old, err, bits). (old, bits)"

lemma sends_final_channel:
  "sends final_part (quant_final_channel nb fine i c x) (unquant_final_channel nb fine i c (final_part x))"
proof -
  obtain old err bits where x: "x = (old, err, bits)" by (cases x)
  define k where "k = i + c * nb"
  define q2 where "q2 = (if err ! k < 0 then 0 else 1 :: int)"
  have "transmits (ec_enc_bits q2 1) (ec_dec_bits 1) q2" by (intro transmits_bits) (simp_all add: q2_def)
  then have "transmits (ec_enc_bits q2 1)
      (\<lambda>d. case ec_dec_bits 1 d of (q, d) \<Rightarrow> ((old[k := i16 (old ! k + final_offset q fine)], bits - 1), d))
      (old[k := i16 (old ! k + final_offset q2 fine)], bits - 1)" by (rule transmits_map) simp
  then have "sends final_part (\<lambda>s. ((old[k := i16 (old ! k + final_offset q2 fine)], err[k := i16 (err ! k - final_offset q2 fine)], bits - 1), ec_enc_bits q2 1 s))
      (\<lambda>d. case ec_dec_bits 1 d of (q, d) \<Rightarrow> ((old[k := i16 (old ! k + final_offset q fine)], bits - 1), d))"
    by (rule sends_transmits) simp
  then show ?thesis
    by (rule codes_cong) (simp_all add: x quant_final_channel_def unquant_final_channel_def Let_def k_def [symmetric] q2_def)
qed

lemma sends_final_band:
  "sends final_part (quant_final_band nb fq fp C b x) (unquant_final_band nb fq fp C b (final_part x))"
proof -
  obtain prio i where b: "b = (prio, i)" by (cases b)
  show ?thesis
  proof (cases "snd (snd x) < int C \<or> fq ! i \<ge> MAX_FINE_BITS \<or> fp ! i \<noteq> prio")
  case True
  have "sends final_part (\<lambda>s. (x, s)) (\<lambda>d. (final_part x, d))" by (rule sends_return) simp
  then show ?thesis by (rule codes_cong) (use True in \<open>auto simp: b quant_final_band_def unquant_final_band_def split: prod.splits\<close>)
next
  case False
  have "sends final_part (code_fold (quant_final_channel nb (nat (fq ! i)) i) [0..<C] x)
      (code_fold (unquant_final_channel nb (nat (fq ! i)) i) [0..<C] (final_part x))"
    by (rule sends_fold [where Q = "\<lambda>_. True"]) (rule sends_final_channel, simp_all)
  then show ?thesis by (rule codes_cong) (use False in \<open>auto simp: b quant_final_band_def unquant_final_band_def split: prod.splits\<close>)
  qed
qed

lemma sends_final:
  "sends final_part (quant_energy_finalise nb start end old err fq fp bits C)
    (unquant_energy_finalise nb start end old fq fp bits C)"
proof -
  have "sends final_part (code_fold (quant_final_band nb fq fp C) (final_order start end) (old, err, bits))
      (code_fold (unquant_final_band nb fq fp C) (final_order start end) (final_part (old, err, bits)))"
    by (rule sends_fold [where Q = "\<lambda>_. True"]) (rule sends_final_band, simp_all)
  then show ?thesis by (rule codes_cong) (simp_all add: quant_energy_finalise_def unquant_energy_finalise_def)
qed

section \<open>Precision\<close>

lemma fine_step:
  assumes n: "0 < n" "n \<le> 8" and e: "- 512 \<le> e" "e < (512 :: int)"
  defines "q \<equiv> drop_bit (DB_SHIFT - n) (e + 512)"
  shows "0 \<le> q" "q < 2 ^ n" "- (2 ^ (9 - n)) \<le> e - fine_offset q n" "e - fine_offset q n < 2 ^ (9 - n)"
    "- 512 \<le> fine_offset q n" "fine_offset q n < 512"
proof -
  have p: "(1024::int) = 2 ^ n * 2 ^ (10 - n)" "(2::int) ^ (10 - n) = 2 * 2 ^ (9 - n)" "(512::int) = 2 ^ n * 2 ^ (9 - n)"
    using n by (simp_all add: power_add [symmetric] power_Suc [symmetric] del: power_Suc)
  define h where "h = (2::int) ^ (9 - n)"
  define w where "w = (2::int) ^ n"
  have w: "0 < w" "0 < h" "w * h = 512" using p(3) by (simp_all add: w_def h_def)
  have q: "q = (e + 512) div (2 * h)" using p(2) by (simp add: q_def shift_arith DB_SHIFT_def h_def)
  show q0: "0 \<le> q" using e w by (simp add: q pos_imp_zdiv_nonneg_iff)
  have "e + 512 < w * (2 * h)" using e w(3) by simp
  then show qw: "q < 2 ^ n" using w by (simp add: q w_def [symmetric] int_div_less_iff mult.commute)
  have "q * 1024 < 2 ^ n * 1024" using qw by simp
  moreover have "(2::int) ^ n * 1024 \<le> 2 ^ 8 * 1024" using n by (intro mult_right_mono power_increasing) simp_all
  ultimately have "SHL32 q DB_SHIFT = q * 1024" using q0 by (simp add: SHL32_def shift_arith DB_SHIFT_def)
  moreover have "w * (q * (2 * h) + h) = q * 1024 + 512"
  proof -
    have "w * (q * (2 * h) + h) = 2 * q * (w * h) + w * h" by (simp add: algebra_simps)
    then show ?thesis by (simp add: w(3))
  qed
  ultimately have "drop_bit n (SHL32 q DB_SHIFT + 512) = (w * (q * (2 * h) + h)) div w"
    by (simp add: shift_arith w_def)
  also have "\<dots> = q * (2 * h) + h" using w by simp
  finally have d: "drop_bit n (SHL32 q DB_SHIFT + 512) = q * (2 * h) + h" .
  have m: "(e + 512) - q * (2 * h) = (e + 512) mod (2 * h)" by (simp add: q minus_div_mult_eq_mod)
  have "0 \<le> (e + 512) mod (2 * h)" "(e + 512) mod (2 * h) < 2 * h" using w by simp_all
  then have b: "- h \<le> e + 512 - (q * (2 * h) + h)" "e + 512 - (q * (2 * h) + h) < h" using m by linarith+
  have h: "h \<le> 256"
  proof -
    have "h \<le> 2 ^ 8" unfolding h_def using n by (intro power_increasing) simp_all
    then show ?thesis by simp
  qed
  have lo: "0 \<le> q * (2 * h) + h" using q0 w by simp
  have "q * (2 * h) \<le> e + 512" using m \<open>0 \<le> (e + 512) mod (2 * h)\<close> by linarith
  then have hi: "q * (2 * h) + h < 1280" using e h by linarith
  have o: "fine_offset q n = q * (2 * h) + h - 512" using lo hi by (simp add: fine_offset_def d)
  show "- (2 ^ (9 - n)) \<le> e - fine_offset q n" "e - fine_offset q n < 2 ^ (9 - n)" using b by (simp_all add: o h_def)
  show "- 512 \<le> fine_offset q n" using lo by (simp add: o)
  have "q + 1 \<le> w" using qw by (simp add: w_def)
  then have "(q + 1) * (2 * h) \<le> w * (2 * h)" using w by (intro mult_right_mono) simp_all
  then have "q * (2 * h) + 2 * h \<le> 1024" using w(3) by (simp add: algebra_simps)
  then show "fine_offset q n < 512" using w by (simp add: o)
qed

lemma final_step:
  assumes n: "n < 8" and e: "- (2 ^ (9 - n)) \<le> e" "e < (2 ^ (9 - n) :: int)"
  defines "q \<equiv> if e < 0 then 0 else 1"
  shows "- (2 ^ (8 - n)) \<le> e - final_offset q n" "e - final_offset q n < 2 ^ (8 - n)"
proof -
  define h where "h = (2::int) ^ (8 - n)"
  have p: "(2::int) ^ (9 - n) = 2 * h" "(512::int) = 2 ^ (n + 1) * h"
  proof -
    have "9 - n = Suc (8 - n)" using n by simp
    then show "(2::int) ^ (9 - n) = 2 * h" by (simp add: h_def)
    have "(2::int) ^ (n + 1) * h = 2 ^ (n + 1 + (8 - n))" by (simp add: h_def power_add)
    also have "n + 1 + (8 - n) = 9" using n by simp
    finally show "(512::int) = 2 ^ (n + 1) * h" by simp
  qed
  have "h \<le> 2 ^ 8" unfolding h_def by (intro power_increasing) simp_all
  then have h: "0 < h" "h \<le> 256" by (simp_all add: h_def)
  have "2 ^ (n + 1) * h div 2 ^ (n + 1) = h" "2 ^ (n + 1) * (- h) div 2 ^ (n + 1) = - h"
    by (rule nonzero_mult_div_cancel_left, simp)+
  then have d: "drop_bit (n + 1) 512 = h" "drop_bit (n + 1) (- 512) = - h"
    unfolding drop_bit_div mult_minus_right p(2) [symmetric] .
  have "SHL16 1 DB_SHIFT - 512 = 512" "SHL16 0 DB_SHIFT - 512 = - 512" by (simp_all add: SHL16_def DB_SHIFT_def)
  then have "final_offset 1 n = i16 h" "final_offset 0 n = i16 (- h)" unfolding final_offset_def by (simp_all only: d)
  then have "final_offset 1 n = h" "final_offset 0 n = - h" using h by simp_all
  then show "- (2 ^ (8 - n)) \<le> e - final_offset q n" "e - final_offset q n < 2 ^ (8 - n)"
    using e unfolding p(1) by (auto simp: q_def h_def [symmetric])
qed

section \<open>Properties\<close>

text \<open>
  The energy part of a frame, in the order of \<open>celt_encode_with_ec\<close> and \<open>celt_decode_with_ec\<close>: coarse
  energy (one pass, with the flag forced to 0 when it does not fit), fine energy, left-over bits.
\<close>

definition encode_energy where
  "encode_energy nb start end eBands old err budget C LM intra max_decay lfe fine_quant fine_priority s =
    (let tell = ec_tell s;
         intra = (if tell + 3 > budget then 0 else intra);
         ((bad, old, err), s) = quant_coarse_energy_impl nb start end eBands old budget tell
           (e_prob_model ! LM ! nat intra) err C LM intra max_decay lfe s;
         ((old, err), s) = quant_fine_energy nb start end old err fine_quant C s;
         ((old, err, bits), s) = quant_energy_finalise nb start end old err fine_quant fine_priority
           (budget - ec_tell s) C s
     in (old, s))"

definition decode_energy where
  "decode_energy nb start end old C LM fine_quant fine_priority d =
    (let budget = storage d * 8;
         (intra, d) = celt_intra_ener budget (ec_tell d) d;
         (old, d) = unquant_coarse_energy nb start end old intra C LM d;
         (old, d) = unquant_fine_energy nb start end old fine_quant C d;
         ((old, bits), d) = unquant_energy_finalise nb start end old fine_quant fine_priority (budget - ec_tell d) C d
     in (old, d))"

definition energy_room where
  "energy_room nb start end eBands old err budget C LM intra max_decay lfe s \<longleftrightarrow>
    (let fits = (ec_tell s + 3 \<le> budget); intra = (if fits then intra else 0)
     in storage s * 8 = budget \<and> coarse_room nb start end eBands budget (e_prob_model ! LM ! nat intra) C
          (coarse_coefs LM intra) max_decay lfe
          \<lparr>bs_old = old, bs_prev = [0, 0], bs_error = err, bs_badness = 0\<rparr>
          (if fits then ec_enc_bit_logp intra 3 s else s))"

lemma codes_fine_final:
  assumes "\<And>i. start \<le> i \<Longrightarrow> i < end \<Longrightarrow> fine_quant ! i \<le> MAX_FINE_BITS"
  shows "sends (\<lambda>x. x)
    (\<lambda>s. let ((old, err), s) = quant_fine_energy nb start end old err fine_quant C s;
             ((old, err, bits), s) = quant_energy_finalise nb start end old err fine_quant fp (budget - ec_tell s) C s
         in (old, s))
    (\<lambda>d. let (old, d) = unquant_fine_energy nb start end old fine_quant C d;
             ((old, bits), d) = unquant_energy_finalise nb start end old fine_quant fp (budget - ec_tell d) C d
         in (old, d))"
proof -
  have 1: "sends (\<lambda>x. x)
      (\<lambda>s. case quant_energy_finalise nb start end old err fine_quant fp (budget - ec_tell s) C s of (x, s) \<Rightarrow> (fst x, s))
      (\<lambda>d. case unquant_energy_finalise nb start end old fine_quant fp (budget - ec_tell d) C d of (x, d) \<Rightarrow> (fst x, d))" for old err
  proof (rule codes_map [where g = final_part])
    show "sends final_part (\<lambda>s. quant_energy_finalise nb start end old err fine_quant fp (budget - ec_tell s) C s)
      (\<lambda>d. unquant_energy_finalise nb start end old fine_quant fp (budget - ec_tell d) C d)"
      by (rule codes_tell [where enc = "\<lambda>t. quant_energy_finalise nb start end old err fine_quant fp (budget - t) C"
            and dec = "\<lambda>t. unquant_energy_finalise nb start end old fine_quant fp (budget - t) C"])
        (rule codes_weaken, rule sends_final)
  qed auto
  let ?enc = "\<lambda>(old, err) s. case quant_energy_finalise nb start end old err fine_quant fp (budget - ec_tell s) C s of (x, s) \<Rightarrow> (fst x, s)"
  let ?dec = "\<lambda>old d. case unquant_energy_finalise nb start end old fine_quant fp (budget - ec_tell d) C d of (x, d) \<Rightarrow> (fst x, d)"
  have 2: "sends (\<lambda>x. x) (?enc x) (?dec (fst x))" for x
    using 1 [of "fst x" "snd x"] by (simp add: case_prod_beta)
  have f: "sends fst (quant_fine_energy nb start end old err fine_quant C) (unquant_fine_energy nb start end old fine_quant C)"
    by (rule sends_fine [OF assms])
  from codes_bind [OF f, where ?enc2.0 = ?enc and ?dec2.0 = ?dec, OF 2]
  show ?thesis by (rule codes_cong) (auto simp: Let_def split: prod.splits)
qed

lemma codes_energy:
  assumes LM: "LM < 4" and intra: "intra \<in> {0, 1}"
    and fq: "\<And>i. start \<le> i \<Longrightarrow> i < end \<Longrightarrow> fine_quant ! i \<le> MAX_FINE_BITS"
  shows "codes (energy_room nb start end eBands old err budget C LM intra max_decay lfe) (\<lambda>x. x)
    (encode_energy nb start end eBands old err budget C LM intra max_decay lfe fine_quant fp)
    (decode_energy nb start end old C LM fine_quant fp)"
proof -
  let ?ff = "\<lambda>(bad, old, err) s. let ((old, err), s) = quant_fine_energy nb start end old err fine_quant C s;
             ((old, err, bits), s) = quant_energy_finalise nb start end old err fine_quant fp (budget - ec_tell s) C s
         in (old, s)"
  let ?gg = "\<lambda>b old d. let (old, d) = unquant_fine_energy nb start end old fine_quant C d;
             ((old, bits), d) = unquant_energy_finalise nb start end old fine_quant fp (b - ec_tell d) C d
         in (old, d)"
  have ff: "sends (\<lambda>x. x) (?ff x) (?gg budget ((\<lambda>(bad, old, err). old) x))" for x
  proof (cases x)
    case (fields bad old err)
    show ?thesis unfolding fields prod.case by (rule codes_fine_final [OF fq])
  qed
  let ?P = "energy_room nb start end eBands old err budget C LM intra max_decay lfe"
  let ?i = "\<lambda>t. if t + 3 > budget then 0 else intra"
  let ?E = "\<lambda>t s. case quant_coarse_energy_impl nb start end eBands old budget t (e_prob_model ! LM ! nat (?i t)) err C LM (?i t) max_decay lfe s of (x, s) \<Rightarrow> ?ff x s"
  let ?D = "\<lambda>t b d. case (case celt_intra_ener b t d of (intra, d) \<Rightarrow> unquant_coarse_energy nb start end old intra C LM d) of (old, d) \<Rightarrow> ?gg b old d"
  have main: "codes (\<lambda>s. ?P s \<and> ec_tell s = t) (\<lambda>x. x) (?E t) (?D t budget)" for t
  proof -
    have m: "model_ok (e_prob_model ! LM ! nat (?i t))" using LM intra by (intro e_prob_model_model_ok) auto
    have i: "?i t \<in> {0, 1}" "\<not> t + 3 \<le> budget \<Longrightarrow> ?i t = 0" using intra by auto
    have "codes (\<lambda>s. storage s * 8 = budget \<and> coarse_room nb start end eBands budget (e_prob_model ! LM ! nat (?i t)) C
          (coarse_coefs LM (?i t)) max_decay lfe \<lparr>bs_old = old, bs_prev = [0, 0], bs_error = err, bs_badness = 0\<rparr>
          (if t + 3 \<le> budget then ec_enc_bit_logp (?i t) 3 s else s)) (\<lambda>(bad, old, err). old)
      (quant_coarse_energy_impl nb start end eBands old budget t (e_prob_model ! LM ! nat (?i t)) err C LM (?i t) max_decay lfe)
      (\<lambda>d. case celt_intra_ener budget t d of (intra, d) \<Rightarrow> unquant_coarse_energy nb start end old intra C LM d)"
      by (rule codes_coarse_impl [OF m i])
    from codes_bind [OF this, where ?enc2.0 = ?ff and ?dec2.0 = "?gg budget", OF ff]
    show ?thesis
      by (rule codes_pre) (auto simp: energy_room_def Let_def linorder_not_le)
  qed
  have "codes ?P (\<lambda>x. x) (\<lambda>s. ?E (fst (ec_tell s, storage s)) s) (\<lambda>d. ?D (fst (ec_tell d, storage d)) (snd (ec_tell d, storage d) * 8) d)"
  proof (rule codes_look [where h = "\<lambda>s. (ec_tell s, storage s)" and enc = "\<lambda>p. ?E (fst p)" and dec = "\<lambda>p. ?D (fst p) (snd p * 8)"])
    fix p :: "int \<times> int"
    show "codes (\<lambda>s. ?P s \<and> (ec_tell s, storage s) = p) (\<lambda>x. x) (?E (fst p)) (?D (fst p) (snd p * 8))"
    proof (cases "snd p * 8 = budget")
      case True
      show ?thesis unfolding True by (rule codes_pre [OF main]) auto
    next
      case False
      then show ?thesis by (intro codes_never [OF main]) (auto simp: energy_room_def Let_def)
    qed
  qed (auto dest: coupled_looks)
  then show ?thesis
    by (rule codes_cong) (auto simp: encode_energy_def decode_energy_def Let_def split: prod.splits)
qed

text \<open>
  C4. The decoder tracks the energies of the encoder bit by bit.  Code the coarse energies, the fine
  energies and the left-over bits of a frame and finish without an error: the decoder, given the same
  energies of the previous frame and the same allocation, ends with exactly the quantised energies
  that the encoder keeps.  The encoder adapts to the bits that are left in every band.  The one
  condition on these bits is \<open>energy_room\<close>: in no channel does the first band meet exactly one
  remaining bit, where the two can differ.
\<close>

theorem energy_stream_sync:
  fixes fp :: "int list"
  assumes "LM < 4" "intra \<in> {0, 1}" "\<And>i. start \<le> i \<Longrightarrow> i < end \<Longrightarrow> fine_quant ! i \<le> MAX_FINE_BITS"
    "bytes b" "int (length b) = sz" "sz < 4294967296"
    "energy_room nb start end eBands old err (sz * 8) C LM intra max_decay lfe (ec_enc_init b sz)"
  defines "e \<equiv> encode_energy nb start end eBands old err (sz * 8) C LM intra max_decay lfe fine_quant fp (ec_enc_init b sz)"
  assumes "nbits_total (snd e) < 2147483648" "error (ec_enc_done (snd e)) = 0"
  shows "fst (decode_energy nb start end old C LM fine_quant fp (ec_dec_init (buf (ec_enc_done (snd e))) sz)) = fst e"
  using codes_stream(1) [OF codes_energy [OF assms(1-3)] assms(4-7)] assms(9,10) unfolding e_def by simp

theorem energy_stream_sync_witness:
  "fst (decode_energy 3 0 3 [1000, - 500, 300] 1 2 [2, 1, 0] [0, 1, 0] (ec_dec_init (buf (ec_enc_done (snd
     (encode_energy 3 0 3 [4000, 2500, - 1200] [1000, - 500, 300] [0, 0, 0] 80 1 2 1 16384 0 [2, 1, 0] [0, 1, 0]
       (ec_enc_init (replicate 10 0) 10))))) 10))
   = fst (encode_energy 3 0 3 [4000, 2500, - 1200] [1000, - 500, 300] [0, 0, 0] 80 1 2 1 16384 0 [2, 1, 0] [0, 1, 0]
       (ec_enc_init (replicate 10 0) 10))"
proof -
  let ?e = "encode_energy 3 0 3 [4000, 2500, - 1200] [1000, - 500, 300] [0, 0, 0] 80 1 2 1 16384 0 [2, 1, 0] [0, 1, 0]
       (ec_enc_init (replicate 10 0) 10)"
  have r: "energy_room 3 0 3 [4000, 2500, - 1200] [1000, - 500, 300] [0, 0, 0] 80 1 2 1 16384 0 (ec_enc_init (replicate 10 0) 10)"
    by code_simp
  have n: "nbits_total (snd ?e) < 2147483648" "error (ec_enc_done (snd ?e)) = 0" by code_simp+
  have f: "[2, 1, 0] ! i \<le> MAX_FINE_BITS" if "0 \<le> i" "i < 3" for i
    using that by (simp add: MAX_FINE_BITS_def nth_Cons split: nat.splits)
  show ?thesis
    using energy_stream_sync [of 2 1 0 3 "[2, 1, 0]" "replicate 10 0" 10 3 "[4000, 2500, - 1200]" "[1000, - 500, 300]" "[0, 0, 0]" 1 16384 0 "[0, 1, 0]"]
      r n f by (simp del: replicate.simps)
qed

text \<open>
  C26. Precision of the fine and final energy bits.  A residual within half a coarse step becomes a
  residual within \<open>2 ^ (9 - fine)\<close> (in steps of 1/1024) after \<open>fine\<close> fine bits, and a left-over
  bit halves that bound again; in both cases the energy and the residual change by the same amount.
\<close>

theorem fine_energy_precision:
  fixes bits :: int
  assumes "0 < fine_quant ! i" "fine_quant ! i < MAX_FINE_BITS" "- 512 \<le> err ! k" "err ! k < 512"
    "k = i + c * nb" "k < length old" "k < length err" "- 20000 \<le> old ! k" "old ! k < 20000"
  defines "n \<equiv> nat (fine_quant ! i)"
  shows "(case fst (quant_fine_band nb fine_quant (i, c) (old, err) s) of (old1, err1) \<Rightarrow>
      - (2 ^ (9 - n)) \<le> err1 ! k \<and> err1 ! k < 2 ^ (9 - n) \<and> old1 ! k + err1 ! k = old ! k + err ! k
      \<and> (case fst (quant_final_channel nb n i c (old1, err1, bits) s') of (old2, err2, bits2) \<Rightarrow>
          - (2 ^ (8 - n)) \<le> err2 ! k \<and> err2 ! k < 2 ^ (8 - n) \<and> old2 ! k + err2 ! k = old ! k + err ! k))"
proof -
  have n: "0 < n" "n \<le> 8" "n < 8" "fine_quant ! i = int n" using assms(1,2) by (simp_all add: n_def MAX_FINE_BITS_def)
  define q where "q = drop_bit (DB_SHIFT - n) (err ! k + 512)"
  note f = fine_step [OF n(1,2) assms(3,4), folded q_def]
  have p: "i16 (2 ^ n) = 2 ^ n" using i16_pow [OF n(2)] by (simp add: push_bit_mult)
  have fine: "fst (quant_fine_band nb fine_quant (i, c) (old, err) s)
      = (old[k := old ! k + fine_offset q n], err[k := err ! k - fine_offset q n])"
    using n f(1,2,5,6) assms(3,4,8,9)
    by (simp add: quant_fine_band_def Let_def assms(5) [symmetric] q_def [symmetric] p)
  define e where "e = err ! k - fine_offset q n"
  define z where "z = final_offset (if e < 0 then 0 else 1) n"
  have e: "- (2 ^ (9 - n)) \<le> e" "e < 2 ^ (9 - n)" using f(3,4) by (simp_all add: e_def)
  note g = final_step [OF n(3) e, folded z_def]
  have "(2::int) ^ (9 - n) \<le> 2 ^ 9" "(2::int) ^ (8 - n) \<le> 2 ^ 8" by (intro power_increasing; simp)+
  then have b: "- 512 \<le> e" "e < 512" "- 1000 < z" "z < 1000" using e g by simp_all
  have "fst (quant_final_channel nb n i c (old[k := old ! k + fine_offset q n], err[k := e], bits) s')
      = (old[k := old ! k + fine_offset q n + z], err[k := e - z], bits - 1)"
    using b f(5,6) assms(6-9) by (simp add: quant_final_channel_def Let_def assms(5) [symmetric] z_def [symmetric])
  then show ?thesis using fine e g assms(6,7) by (simp add: e_def [symmetric]) (simp add: e_def)
qed

theorem fine_energy_precision_witness:
  "case fst (quant_fine_band 2 [3] (0, 0) ([100], [77]) (ec_enc_init [0, 0] 2)) of (old1, err1) \<Rightarrow>
      - 64 \<le> err1 ! 0 \<and> err1 ! 0 < 64 \<and> old1 ! 0 + err1 ! 0 = 177"
  using fine_energy_precision [where fine_quant = "[3]" and i = 0 and err = "[77]" and k = 0 and c = 0 and nb = 2
    and old = "[100]" and s = "ec_enc_init [0, 0] 2"]
  by (auto simp: MAX_FINE_BITS_def split: prod.splits)

text \<open>
  C40. One case escapes the synchronisation.  When exactly one bit is left for the first band, the
  encoder does not limit the residual to the two values that the bit can express: for a wanted
  residual \<open>qi\<close> it keeps \<open>min 0 qi\<close> for its own energies, while every decoder that follows its stream gets
  \<open>- 1\<close> or 0, the sign of that residual.  The two agree exactly when \<open>qi\<close> is at least \<open>- 1\<close>, so they
  diverge for every \<open>qi\<close> below, for example for \<open>- 5\<close>.  On other input too the decoder arrives at 0 or \<open>- 1\<close>.
\<close>

theorem coarse_one_bit_diverges:
  fixes budget lfe qi :: int and pm :: "int list" and C start stop :: nat
  defines "encode \<equiv> coarse_encode budget pm start (coarse_limit budget (budget - 1) C start stop start lfe qi) (budget - 1)"
  shows "fst (encode s) = min 0 qi
      \<and> transmits (\<lambda>s. snd (encode s)) (coarse_decode budget pm start (budget - 1)) (max (- 1) (min 0 qi))
      \<and> (fst (encode s) = max (- 1) (min 0 qi) \<longleftrightarrow> - 1 \<le> qi)
      \<and> (dec_ok d \<longrightarrow> fst (coarse_decode budget pm start (budget - 1) d) \<in> {0, - 1})"
proof -
  have l: "min 0 (coarse_limit budget (budget - 1) C start stop start lfe qi) = min 0 qi" by (simp add: coarse_limit_def Let_def min.commute)
  have k: "encode s = (min 0 qi, ec_enc_bit_logp (- min 0 qi) 1 s)" for s
    unfolding encode_def coarse_encode_def Let_def l by simp
  have d: "coarse_decode budget pm start (budget - 1) d = (case ec_dec_bit_logp 1 d of (b, d) \<Rightarrow> (- b, d))" for d
    by (simp add: coarse_decode_def)
  have "transmits (ec_enc_bit_logp (- min 0 qi) 1) (\<lambda>d. case ec_dec_bit_logp 1 d of (b, d) \<Rightarrow> (- b, d)) (- cbool (- min 0 qi \<noteq> 0))"
    by (rule transmits_map [OF transmits_bit_logp]) auto
  moreover have "- cbool (- min 0 qi \<noteq> 0) = max (- 1) (min 0 qi)" by (auto simp: cbool_def)
  ultimately have "transmits (\<lambda>s. snd (encode s)) (coarse_decode budget pm start (budget - 1)) (max (- 1) (min 0 qi))"
    by (simp only: k snd_conv d [abs_def])
  then show ?thesis using dec_bit_logp_ok(2) [of d 1] by (auto simp: k d split: prod.splits)
qed

theorem coarse_one_bit_diverges_witness:
  "fst (coarse_encode 20 [] 0 (coarse_limit 20 19 1 0 21 0 0 (- 5)) 19 (ec_enc_init [0] 1)) = - 5
    \<and> transmits (\<lambda>s. snd (coarse_encode 20 [] 0 (coarse_limit 20 19 1 0 21 0 0 (- 5)) 19 s)) (coarse_decode 20 [] 0 19) (- 1)
    \<and> fst (coarse_decode 20 [] 0 19 (ec_dec_init [200] 1)) \<in> {0, - 1}"
proof -
  have "dec_ok (ec_dec_init [200] 1)" by code_simp
  then show ?thesis using coarse_one_bit_diverges [where budget = 20 and pm = "[]" and C = 1 and start = 0 and stop = 21 and lfe = 0 and qi = "- 5" and d = "ec_dec_init [200] 1"] by simp
qed

end
