(* ===== verification/Ec_Fields.thy ===== *)
theory Ec_Fields
  imports Ec_Sync
begin

text \<open>
  Shared by the bit-stream formats built on the range coder: tables of 8-bit inverse cumulative
  frequencies, lists of fields written one after the other, and what a decoder may rely on for an
  arbitrary stream.
\<close>

section \<open>Tables\<close>

text \<open>A table of \<open>n\<close> symbols, each with a nonzero probability, for \<open>ftb = 8\<close>.\<close>

definition icdf8 :: "nat \<Rightarrow> int list \<Rightarrow> bool" where
  "icdf8 n t \<longleftrightarrow> sorted_wrt (>) t \<and> length t = n \<and> last t = 0 \<and> hd t < 256 \<and> 0 < n"

lemma icdf8_length: "icdf8 n t \<Longrightarrow> length t = n"
  by (simp add: icdf8_def)

lemma transmits_icdf8:
  assumes "icdf8 n t" "0 \<le> k" "k < int n"
  shows "transmits (ec_enc_icdf k t 8) (ec_dec_icdf t 8) k"
  using assms by (intro transmits_icdf(1) sorted_icdf_sym) (auto simp: icdf8_def)

lemma icdf8_table:
  assumes "icdf8 n t"
  shows "icdf_table t 8"
proof -
  have "icdf_sym t 8 0" using assms by (intro sorted_icdf_sym) (auto simp: icdf8_def)
  moreover have "f \<le> hd t" if "f \<in> set t" for f using assms that by (cases t) (auto simp: icdf8_def)
  ultimately show ?thesis using assms by (fastforce simp: icdf_table_def icdf8_def icdf_sym_def list_all_iff)
qed

section \<open>Lists of fields\<close>

lemma transmits_each:
  "length ys = length xs \<Longrightarrow> length zs = length xs \<Longrightarrow>
    (\<And>i. i < length xs \<Longrightarrow> transmits (enc (xs ! i)) (dec (ys ! i)) (zs ! i)) \<Longrightarrow>
    transmits (fold enc xs) (dec_seq dec ys) zs"
proof (induction xs arbitrary: ys zs)
  case Nil
  show ?case by (rule transmits_cong [OF transmits_return]) (use Nil in simp_all)
next
  case (Cons x xs)
  obtain y ys' where ys: "ys = y # ys'" using Cons.prems(1) by (cases ys) auto
  obtain z zs' where zs: "zs = z # zs'" using Cons.prems(2) by (cases zs) auto
  let ?d = "\<lambda>z d. case dec_seq dec ys' d of (zs, d) \<Rightarrow> (z # zs, d)"
  have 1: "transmits (enc x) (dec y) z" using Cons.prems(3) [of 0] by (simp add: ys zs)
  have "transmits (fold enc xs) (dec_seq dec ys') zs'"
    using Cons.prems(1,2) Cons.prems(3) [of "Suc _"] by (intro Cons.IH) (auto simp: ys zs)
  then have "transmits (fold enc xs) (?d z) (z # zs')" by (rule transmits_map) simp
  from transmits_bind [OF 1, where ?dec2.0 = ?d, OF this]
  show ?case by (simp add: ys zs case_prod_beta)
qed

section \<open>Decoding an arbitrary stream\<close>

text \<open>From every sound decoder state \<open>dec\<close> reaches a sound state, with a result that satisfies \<open>P\<close>.\<close>

definition yields :: "(ec_ctx \<Rightarrow> 'a \<times> ec_ctx) \<Rightarrow> ('a \<Rightarrow> bool) \<Rightarrow> bool" where
  "yields dec P \<longleftrightarrow> (\<forall>d. dec_ok d \<longrightarrow> dec_ok (snd (dec d)) \<and> P (fst (dec d)))"

lemma yieldsD: "yields dec P \<Longrightarrow> dec_ok d \<Longrightarrow> dec_ok (snd (dec d)) \<and> P (fst (dec d))"
  by (simp add: yields_def)

lemma yields_return: "P x \<Longrightarrow> yields (\<lambda>d. (x, d)) P"
  by (simp add: yields_def)

lemma yields_mono: "yields dec P \<Longrightarrow> (\<And>x. P x \<Longrightarrow> Q x) \<Longrightarrow> yields dec Q"
  by (simp add: yields_def)

lemma yields_bind:
  "yields dec P \<Longrightarrow> (\<And>x. P x \<Longrightarrow> yields (f x) Q) \<Longrightarrow> yields (\<lambda>d. case dec d of (x, d) \<Rightarrow> f x d) Q"
  by (simp add: yields_def case_prod_beta)

lemma yields_map:
  "yields dec P \<Longrightarrow> (\<And>x. P x \<Longrightarrow> Q (f x)) \<Longrightarrow> yields (\<lambda>d. case dec d of (x, d) \<Rightarrow> (f x, d)) Q"
  by (simp add: yields_def case_prod_beta)

lemma yields_if:
  "(b \<Longrightarrow> yields dec P) \<Longrightarrow> (\<not> b \<Longrightarrow> yields dec' P) \<Longrightarrow> yields (\<lambda>d. if b then dec d else dec' d) P"
  by (simp add: yields_def)

lemma yields_cong: "yields dec P \<Longrightarrow> (\<And>d. dec' d = dec d) \<Longrightarrow> yields dec' P"
  by (simp add: yields_def)

lemma yields_icdf8:
  assumes "icdf8 n t"
  shows "yields (ec_dec_icdf t 8) (\<lambda>k. 0 \<le> k \<and> k < int n)"
  using dec_icdf_ok(1,2) [OF _ icdf8_table [OF assms]] icdf8_length [OF assms]
  unfolding yields_def icdf_sym_def by force

lemma yields_seq:
  "(\<And>x. x \<in> set xs \<Longrightarrow> yields (dec x) (P x)) \<Longrightarrow> yields (dec_seq dec xs) (\<lambda>ys. list_all2 P xs ys)"
proof (induction xs)
  case Nil
  show ?case by (simp add: yields_def)
next
  case (Cons x xs)
  have "yields (dec x) (P x)" "yields (dec_seq dec xs) (\<lambda>ys. list_all2 P xs ys)" using Cons by auto
  then show ?case by (simp add: yields_def case_prod_beta)
qed

end
