(* ===== verification/Silk_Pulses.thy ===== *)
theory Silk_Pulses
  imports Ec_Fields
begin

text \<open>
  The excitation of a SILK frame (\<open>silk/encode_pulses.c\<close>, \<open>silk/decode_pulses.c\<close>,
  \<open>silk/shell_coder.c\<close>, \<open>silk/code_signs.c\<close>, \<open>silk/tables_pulses_per_block.c\<close>): blocks of 16
  pulses, each sent as the sum of its magnitudes, a binary tree of partial sums, extra low bits for
  large magnitudes, and signs.
\<close>

section \<open>Tables\<close>

definition silk_max_pulses_table :: "int list" where
  "silk_max_pulses_table = [
   8, 10, 12, 16]"

definition silk_pulses_per_block_iCDF :: "int list list" where
  "silk_pulses_per_block_iCDF = [
   [125, 51, 26, 18, 15, 12, 11, 10, 9, 8, 7, 6, 5, 4, 3, 2, 1, 0],
   [198, 105, 45, 22, 15, 12, 11, 10, 9, 8, 7, 6, 5, 4, 3, 2, 1, 0],
   [213, 162, 116, 83, 59, 43, 32, 24, 18, 15, 12, 9, 7, 6, 5, 3, 2, 0],
   [239, 187, 116, 59, 28, 16, 11, 10, 9, 8, 7, 6, 5, 4, 3, 2, 1, 0],
   [250, 229, 188, 135, 86, 51, 30, 19, 13, 10, 8, 6, 5, 4, 3, 2, 1, 0],
   [249, 235, 213, 185, 156, 128, 103, 83, 66, 53, 42, 33, 26, 21, 17, 13, 10, 0],
   [254, 249, 235, 206, 164, 118, 77, 46, 27, 16, 10, 7, 5, 4, 3, 2, 1, 0],
   [255, 253, 249, 239, 220, 191, 156, 119, 85, 57, 37, 23, 15, 10, 6, 4, 2, 0],
   [255, 253, 251, 246, 237, 223, 203, 179, 152, 124, 98, 75, 55, 40, 29, 21, 15, 0],
   [255, 254, 253, 247, 220, 162, 106, 67, 42, 28, 18, 12, 9, 6, 4, 3, 2, 0]]"

definition silk_pulses_per_block_BITS_Q5 :: "int list list" where
  "silk_pulses_per_block_BITS_Q5 = [
   [31, 57, 107, 160, 205, 205, 255, 255, 255, 255, 255, 255, 255, 255, 255, 255, 255, 255],
   [69, 47, 67, 111, 166, 205, 255, 255, 255, 255, 255, 255, 255, 255, 255, 255, 255, 255],
   [82, 74, 79, 95, 109, 128, 145, 160, 173, 205, 205, 205, 224, 255, 255, 224, 255, 224],
   [125, 74, 59, 69, 97, 141, 182, 255, 255, 255, 255, 255, 255, 255, 255, 255, 255, 255],
   [173, 115, 85, 73, 76, 92, 115, 145, 173, 205, 224, 224, 255, 255, 255, 255, 255, 255],
   [166, 134, 113, 102, 101, 102, 107, 118, 125, 138, 145, 155, 166, 182, 192, 192, 205,
    150],
   [224, 182, 134, 101, 83, 79, 85, 97, 120, 145, 173, 205, 224, 255, 255, 255, 255, 255],
   [255, 224, 192, 150, 120, 101, 92, 89, 93, 102, 118, 134, 160, 182, 192, 224, 224, 224],
   [255, 224, 224, 182, 155, 134, 118, 109, 104, 102, 106, 111, 118, 131, 145, 160, 173,
    131]]"

definition silk_rate_levels_iCDF :: "int list list" where
  "silk_rate_levels_iCDF = [
   [241, 190, 178, 132, 87, 74, 41, 14, 0],
   [223, 193, 157, 140, 106, 57, 39, 18, 0]]"

definition silk_rate_levels_BITS_Q5 :: "int list list" where
  "silk_rate_levels_BITS_Q5 = [
   [131, 74, 141, 79, 80, 138, 95, 104, 134],
   [95, 99, 91, 125, 93, 76, 123, 115, 123]]"

definition silk_shell_code_table0 :: "int list" where
  "silk_shell_code_table0 = [
   128, 0, 214, 42, 0, 235, 128, 21, 0, 244, 184, 72, 11, 0, 248, 214, 128, 42, 7, 0, 248,
   225, 170, 80, 25, 5, 0, 251, 236, 198, 126, 54, 18, 3, 0, 250, 238, 211, 159, 82, 35,
   15, 5, 0, 250, 231, 203, 168, 128, 88, 53, 25, 6, 0, 252, 238, 216, 185, 148, 108, 71,
   40, 18, 4, 0, 253, 243, 225, 199, 166, 128, 90, 57, 31, 13, 3, 0, 254, 246, 233, 212,
   183, 147, 109, 73, 44, 23, 10, 2, 0, 255, 250, 240, 223, 198, 166, 128, 90, 58, 33, 16,
   6, 1, 0, 255, 251, 244, 231, 210, 181, 146, 110, 75, 46, 25, 12, 5, 1, 0, 255, 253, 248,
   238, 221, 196, 164, 128, 92, 60, 35, 18, 8, 3, 1, 0, 255, 253, 249, 242, 229, 208, 180,
   146, 110, 76, 48, 27, 14, 7, 3, 1, 0]"

definition silk_shell_code_table1 :: "int list" where
  "silk_shell_code_table1 = [
   129, 0, 207, 50, 0, 236, 129, 20, 0, 245, 185, 72, 10, 0, 249, 213, 129, 42, 6, 0, 250,
   226, 169, 87, 27, 4, 0, 251, 233, 194, 130, 62, 20, 4, 0, 250, 236, 207, 160, 99, 47,
   17, 3, 0, 255, 240, 217, 182, 131, 81, 41, 11, 1, 0, 255, 254, 233, 201, 159, 107, 61,
   20, 2, 1, 0, 255, 249, 233, 206, 170, 128, 86, 50, 23, 7, 1, 0, 255, 250, 238, 217, 186,
   148, 108, 70, 39, 18, 6, 1, 0, 255, 252, 243, 226, 200, 166, 128, 90, 56, 30, 13, 4, 1,
   0, 255, 252, 245, 231, 209, 180, 146, 110, 76, 47, 25, 11, 4, 1, 0, 255, 253, 248, 237,
   219, 194, 163, 128, 93, 62, 37, 19, 8, 3, 1, 0, 255, 254, 250, 241, 226, 205, 177, 145,
   111, 79, 51, 30, 15, 6, 2, 1, 0]"

definition silk_shell_code_table2 :: "int list" where
  "silk_shell_code_table2 = [
   129, 0, 203, 54, 0, 234, 129, 23, 0, 245, 184, 73, 10, 0, 250, 215, 129, 41, 5, 0, 252,
   232, 173, 86, 24, 3, 0, 253, 240, 200, 129, 56, 15, 2, 0, 253, 244, 217, 164, 94, 38,
   10, 1, 0, 253, 245, 226, 189, 132, 71, 27, 7, 1, 0, 253, 246, 231, 203, 159, 105, 56,
   23, 6, 1, 0, 255, 248, 235, 213, 179, 133, 85, 47, 19, 5, 1, 0, 255, 254, 243, 221, 194,
   159, 117, 70, 37, 12, 2, 1, 0, 255, 254, 248, 234, 208, 171, 128, 85, 48, 22, 8, 2, 1,
   0, 255, 254, 250, 240, 220, 189, 149, 107, 67, 36, 16, 6, 2, 1, 0, 255, 254, 251, 243,
   227, 201, 166, 128, 90, 55, 29, 13, 5, 2, 1, 0, 255, 254, 252, 246, 234, 213, 183, 147,
   109, 73, 43, 22, 10, 4, 2, 1, 0]"

definition silk_shell_code_table3 :: "int list" where
  "silk_shell_code_table3 = [
   130, 0, 200, 58, 0, 231, 130, 26, 0, 244, 184, 76, 12, 0, 249, 214, 130, 43, 6, 0, 252,
   232, 173, 87, 24, 3, 0, 253, 241, 203, 131, 56, 14, 2, 0, 254, 246, 221, 167, 94, 35, 8,
   1, 0, 254, 249, 232, 193, 130, 65, 23, 5, 1, 0, 255, 251, 239, 211, 162, 99, 45, 15, 4,
   1, 0, 255, 251, 243, 223, 186, 131, 74, 33, 11, 3, 1, 0, 255, 252, 245, 230, 202, 158,
   105, 57, 24, 8, 2, 1, 0, 255, 253, 247, 235, 214, 179, 132, 84, 44, 19, 7, 2, 1, 0, 255,
   254, 250, 240, 223, 196, 159, 112, 69, 36, 15, 6, 2, 1, 0, 255, 254, 253, 245, 231, 209,
   176, 136, 93, 55, 27, 11, 3, 2, 1, 0, 255, 254, 253, 252, 239, 221, 194, 158, 117, 76,
   42, 18, 4, 3, 2, 1, 0]"

definition silk_shell_code_table_offsets :: "nat list" where
  "silk_shell_code_table_offsets = [
   0, 0, 2, 5, 9, 14, 20, 27, 35, 44, 54, 65, 77, 90, 104, 119, 135]"

definition silk_sign_iCDF :: "int list" where
  "silk_sign_iCDF = [
   254, 49, 67, 77, 82, 93, 99, 198, 11, 18, 24, 31, 36, 45, 255, 46, 66, 78, 87, 94, 104,
   208, 14, 21, 32, 42, 51, 66, 255, 94, 104, 109, 112, 115, 118, 248, 53, 69, 80, 88, 95,
   102]"

definition silk_lsb_iCDF :: "int list" where
  "silk_lsb_iCDF = [
   120, 0]"

definition SHELL_CODEC_FRAME_LENGTH :: nat where "SHELL_CODEC_FRAME_LENGTH = 16"

definition LOG2_SHELL_CODEC_FRAME_LENGTH :: nat where "LOG2_SHELL_CODEC_FRAME_LENGTH = 4"

definition N_RATE_LEVELS :: nat where "N_RATE_LEVELS = 10"

definition SILK_MAX_PULSES :: int where "SILK_MAX_PULSES = 16"

text \<open>
  A pointer into an array of concatenated iCDFs.  The coder reads a table up to its first 0, which
  ends it, so the table at an offset is what follows up to and including the next 0.
\<close>

definition icdf_at :: "int list \<Rightarrow> nat \<Rightarrow> int list" where
  "icdf_at table off = takeWhile (\<lambda>f. f \<noteq> 0) (drop off table) @ [0]"

section \<open>Shell coder\<close>

definition combine_pulses :: "int list \<Rightarrow> nat \<Rightarrow> int list" where
  "combine_pulses inp len = map (\<lambda>k. inp ! (2 * k) + inp ! (2 * k + 1)) [0..<len]"

definition encode_split :: "int \<Rightarrow> int \<Rightarrow> int list \<Rightarrow> ec_ctx \<Rightarrow> ec_ctx" where
  "encode_split p_child1 p shell_table enc =
    (if p > 0 then ec_enc_icdf p_child1 (icdf_at shell_table (silk_shell_code_table_offsets ! nat p)) 8 enc else enc)"

definition decode_split :: "int \<Rightarrow> int list \<Rightarrow> ec_ctx \<Rightarrow> (int \<times> int) \<times> ec_ctx" where
  "decode_split p shell_table dec =
    (if p > 0 then
       let (c, dec) = ec_dec_icdf (icdf_at shell_table (silk_shell_code_table_offsets ! nat p)) 8 dec
       in ((i16 c, i16 (p - i16 c)), dec)
     else ((0, 0), dec))"

text \<open>The three splits below \<open>pulses2[k]\<close>.\<close>

definition shell_encode_quad :: "int list \<Rightarrow> int list \<Rightarrow> int list \<Rightarrow> nat \<Rightarrow> ec_ctx \<Rightarrow> ec_ctx" where
  "shell_encode_quad pulses0 pulses1 pulses2 k enc =
    (let enc = encode_split (pulses1 ! (2 * k)) (pulses2 ! k) silk_shell_code_table1 enc;
         enc = encode_split (pulses0 ! (4 * k)) (pulses1 ! (2 * k)) silk_shell_code_table0 enc
     in encode_split (pulses0 ! (4 * k + 2)) (pulses1 ! (2 * k + 1)) silk_shell_code_table0 enc)"

definition silk_shell_encoder :: "int list \<Rightarrow> ec_ctx \<Rightarrow> ec_ctx" where
  "silk_shell_encoder pulses0 enc =
    (let pulses1 = combine_pulses pulses0 8;
         pulses2 = combine_pulses pulses1 4;
         pulses3 = combine_pulses pulses2 2;
         pulses4 = combine_pulses pulses3 1;
         enc = encode_split (pulses3 ! 0) (pulses4 ! 0) silk_shell_code_table3 enc;
         enc = encode_split (pulses2 ! 0) (pulses3 ! 0) silk_shell_code_table2 enc;
         enc = shell_encode_quad pulses0 pulses1 pulses2 0 enc;
         enc = shell_encode_quad pulses0 pulses1 pulses2 1 enc;
         enc = encode_split (pulses2 ! 2) (pulses3 ! 1) silk_shell_code_table2 enc;
         enc = shell_encode_quad pulses0 pulses1 pulses2 2 enc
     in shell_encode_quad pulses0 pulses1 pulses2 3 enc)"

definition shell_decode_quad :: "int \<Rightarrow> ec_ctx \<Rightarrow> int list \<times> ec_ctx" where
  "shell_decode_quad p dec =
    (let ((a, b), dec) = decode_split p silk_shell_code_table1 dec;
         ((a1, a2), dec) = decode_split a silk_shell_code_table0 dec;
         ((b1, b2), dec) = decode_split b silk_shell_code_table0 dec
     in ([a1, a2, b1, b2], dec))"

definition shell_decode_half :: "int \<Rightarrow> ec_ctx \<Rightarrow> int list \<times> ec_ctx" where
  "shell_decode_half p dec =
    (let ((a, b), dec) = decode_split p silk_shell_code_table2 dec;
         (xs, dec) = shell_decode_quad a dec;
         (ys, dec) = shell_decode_quad b dec
     in (xs @ ys, dec))"

definition silk_shell_decoder :: "int \<Rightarrow> ec_ctx \<Rightarrow> int list \<times> ec_ctx" where
  "silk_shell_decoder pulses4 dec =
    (let ((a, b), dec) = decode_split pulses4 silk_shell_code_table3 dec;
         (xs, dec) = shell_decode_half a dec;
         (ys, dec) = shell_decode_half b dec
     in (xs @ ys, dec))"

section \<open>Signs\<close>

definition silk_enc_map :: "int \<Rightarrow> int" where "silk_enc_map a = drop_bit 15 a + 1"

definition silk_dec_map :: "int \<Rightarrow> int" where "silk_dec_map a = push_bit 1 a - 1"

definition sign_icdf_ptr :: "int \<Rightarrow> int \<Rightarrow> int list" where
  "sign_icdf_ptr signalType quantOffsetType =
    drop (nat (7 * (quantOffsetType + push_bit 1 signalType))) silk_sign_iCDF"

definition sign_table :: "int list \<Rightarrow> int \<Rightarrow> int list" where
  "sign_table icdf_ptr p = [icdf_ptr ! nat (min (p AND 31) 6), 0]"

text \<open>The \<open>j\<close>-th block of 16 pulses of a frame.\<close>

definition shell_block :: "int list \<Rightarrow> nat \<Rightarrow> int list" where
  "shell_block pulses j = take 16 (drop (16 * j) pulses)"

definition encode_sign :: "int list \<Rightarrow> int \<Rightarrow> ec_ctx \<Rightarrow> ec_ctx" where
  "encode_sign icdf q enc = (if q \<noteq> 0 then ec_enc_icdf (silk_enc_map q) icdf 8 enc else enc)"

definition silk_encode_signs :: "int list \<Rightarrow> int \<Rightarrow> int \<Rightarrow> int \<Rightarrow> int list \<Rightarrow> ec_ctx \<Rightarrow> ec_ctx" where
  "silk_encode_signs pulses len signalType quantOffsetType sum_pulses enc =
    (let icdf_ptr = sign_icdf_ptr signalType quantOffsetType;
         len = nat (drop_bit LOG2_SHELL_CODEC_FRAME_LENGTH (len + int SHELL_CODEC_FRAME_LENGTH div 2))
     in fold (\<lambda>i enc. if sum_pulses ! i > 0
           then fold (encode_sign (sign_table icdf_ptr (sum_pulses ! i))) (shell_block pulses i) enc
           else enc) [0..<len] enc)"

definition decode_sign :: "int list \<Rightarrow> int \<Rightarrow> ec_ctx \<Rightarrow> int \<times> ec_ctx" where
  "decode_sign icdf q dec =
    (if q > 0 then let (b, dec) = ec_dec_icdf icdf 8 dec in (i16 (q * silk_dec_map b), dec) else (q, dec))"

text \<open>The signed blocks, in order.\<close>

definition silk_decode_signs :: "int list \<Rightarrow> int \<Rightarrow> int \<Rightarrow> int \<Rightarrow> int list \<Rightarrow> ec_ctx \<Rightarrow> int list \<times> ec_ctx" where
  "silk_decode_signs pulses len signalType quantOffsetType sum_pulses dec =
    (let icdf_ptr = sign_icdf_ptr signalType quantOffsetType;
         len = nat (drop_bit LOG2_SHELL_CODEC_FRAME_LENGTH (len + int SHELL_CODEC_FRAME_LENGTH div 2));
         (blocks, dec) = dec_seq (\<lambda>i dec. if sum_pulses ! i > 0
           then dec_seq (decode_sign (sign_table icdf_ptr (sum_pulses ! i))) (shell_block pulses i) dec
           else (shell_block pulses i, dec)) [0..<len] dec
     in (concat blocks @ drop (16 * len) pulses, dec))"

section \<open>Pulses\<close>

text \<open>
  On failure the rest of the output array keeps its old contents.  Input and output may be the same
  array: entry \<open>k\<close> is written after entries \<open>2 * k\<close> and \<open>2 * k + 1\<close> are read.
\<close>

definition combine_and_check :: "int list \<Rightarrow> int list \<Rightarrow> int \<Rightarrow> nat \<Rightarrow> int \<times> int list" where
  "combine_and_check pulses_comb pulses_in max_pulses len =
    (let sums = map (\<lambda>k. pulses_in ! (2 * k) + pulses_in ! (2 * k + 1)) [0..<len];
         good = takeWhile (\<lambda>s. s \<le> max_pulses) sums
     in (if length good < len then 1 else 0, good @ drop (length good) pulses_comb))"

definition scale_check :: "int list \<Rightarrow> int list \<Rightarrow> int \<Rightarrow> int \<times> int list \<times> int" where
  "scale_check pulses_comb abs_pulses sm =
    (let (a, pulses_comb) = combine_and_check pulses_comb abs_pulses (silk_max_pulses_table ! 0) 8;
         (b, pulses_comb) = combine_and_check pulses_comb pulses_comb (silk_max_pulses_table ! 1) 4;
         (c, pulses_comb) = combine_and_check pulses_comb pulses_comb (silk_max_pulses_table ! 2) 2;
         (d, sums) = combine_and_check [sm] pulses_comb (silk_max_pulses_table ! 3) 1
     in (a + b + c + d, pulses_comb, sums ! 0))"

lemma combine_and_check_fst: "fst (combine_and_check comb inp mx len) \<in> {0, 1}"
  by (simp add: combine_and_check_def Let_def)

lemma length_takeWhile_less_iff: "length (takeWhile P xs) < length xs \<longleftrightarrow> \<not> list_all P xs"
  by (induction xs) auto

lemma combine_and_check_iff:
  "fst (combine_and_check comb inp mx len) = 0 \<longleftrightarrow> list_all (\<lambda>s. s \<le> mx) (combine_pulses inp len)"
  "fst (combine_and_check comb inp mx len) = 0 \<Longrightarrow> snd (combine_and_check comb inp mx len) = combine_pulses inp len @ drop len comb"
proof -
  let ?s = "combine_pulses inp len"
  have l: "length ?s = len" by (simp add: combine_pulses_def)
  have e: "length (takeWhile (\<lambda>s. s \<le> mx) ?s) < len \<longleftrightarrow> \<not> list_all (\<lambda>s. s \<le> mx) ?s"
    using length_takeWhile_less_iff [of "\<lambda>s. s \<le> mx" ?s] unfolding l .
  have d: "combine_and_check comb inp mx len
      = (if length (takeWhile (\<lambda>s. s \<le> mx) ?s) < len then 1 else 0,
         takeWhile (\<lambda>s. s \<le> mx) ?s @ drop (length (takeWhile (\<lambda>s. s \<le> mx) ?s)) comb)"
    by (simp add: combine_and_check_def combine_pulses_def Let_def)
  show 1: "fst (combine_and_check comb inp mx len) = 0 \<longleftrightarrow> list_all (\<lambda>s. s \<le> mx) ?s" unfolding d using e by simp
  assume "fst (combine_and_check comb inp mx len) = 0"
  then have t: "takeWhile (\<lambda>s. s \<le> mx) ?s = ?s" using 1 by (simp add: takeWhile_eq_all_conv list_all_iff)
  show "snd (combine_and_check comb inp mx len) = ?s @ drop len comb" unfolding d t l by simp
qed

text \<open>A block that the shell coder can code as it is.\<close>

definition shell_fits :: "int list \<Rightarrow> bool" where
  "shell_fits p \<longleftrightarrow> (let a = combine_pulses p 8; b = combine_pulses a 4; c = combine_pulses b 2; d = combine_pulses c 1
     in list_all (\<lambda>s. s \<le> 8) a \<and> list_all (\<lambda>s. s \<le> 10) b \<and> list_all (\<lambda>s. s \<le> 12) c \<and> list_all (\<lambda>s. s \<le> 16) d)"

lemma combine_pulses_append: "2 * len \<le> length xs \<Longrightarrow> combine_pulses (xs @ ys) len = combine_pulses xs len"
  by (simp add: combine_pulses_def nth_append)

lemma length_combine_pulses [simp]: "length (combine_pulses inp len) = len"
  by (simp add: combine_pulses_def)

lemma scale_check_fits:
  "fst (scale_check comb p sm) = 0 \<longleftrightarrow> shell_fits p"
  "shell_fits p \<Longrightarrow> snd (snd (scale_check comb p sm))
    = combine_pulses (combine_pulses (combine_pulses (combine_pulses p 8) 4) 2) 1 ! 0"
proof -
  define c1 where "c1 = combine_and_check comb p 8 8"
  define c2 where "c2 = combine_and_check (snd c1) (snd c1) 10 4"
  define c3 where "c3 = combine_and_check (snd c2) (snd c2) 12 2"
  define c4 where "c4 = combine_and_check [sm] (snd c3) 16 1"
  have s: "scale_check comb p sm = (fst c1 + fst c2 + fst c3 + fst c4, snd c3, snd c4 ! 0)"
    by (simp add: scale_check_def silk_max_pulses_table_def c1_def c2_def c3_def c4_def case_prod_beta Let_def)
  have f: "fst c1 \<in> {0, 1}" "fst c2 \<in> {0, 1}" "fst c3 \<in> {0, 1}" "fst c4 \<in> {0, 1}"
    unfolding c1_def c2_def c3_def c4_def by (rule combine_and_check_fst)+
  then have z: "fst (scale_check comb p sm) = 0 \<longleftrightarrow> fst c1 = 0 \<and> fst c2 = 0 \<and> fst c3 = 0 \<and> fst c4 = 0" by (auto simp: s)
  have 1: "fst c1 = 0 \<longleftrightarrow> list_all (\<lambda>s. s \<le> 8) (combine_pulses p 8)" "fst c1 = 0 \<Longrightarrow> snd c1 = combine_pulses p 8 @ drop 8 comb"
    unfolding c1_def by (rule combine_and_check_iff, assumption?)+
  have 2: "fst c1 = 0 \<Longrightarrow> fst c2 = 0 \<longleftrightarrow> list_all (\<lambda>s. s \<le> 10) (combine_pulses (combine_pulses p 8) 4)"
    "fst c1 = 0 \<Longrightarrow> fst c2 = 0 \<Longrightarrow> \<exists>ys. snd c2 = combine_pulses (combine_pulses p 8) 4 @ ys"
    using 1(2) combine_and_check_iff [of "snd c1" "snd c1" 10 4] by (auto simp: c2_def combine_pulses_append)
  have 3: "fst c1 = 0 \<Longrightarrow> fst c2 = 0 \<Longrightarrow> fst c3 = 0 \<longleftrightarrow> list_all (\<lambda>s. s \<le> 12) (combine_pulses (combine_pulses (combine_pulses p 8) 4) 2)"
    "fst c1 = 0 \<Longrightarrow> fst c2 = 0 \<Longrightarrow> fst c3 = 0 \<Longrightarrow> \<exists>ys. snd c3 = combine_pulses (combine_pulses (combine_pulses p 8) 4) 2 @ ys"
    using 2(2) combine_and_check_iff [of "snd c2" "snd c2" 12 2] by (auto simp: c3_def combine_pulses_append)
  have 4: "fst c1 = 0 \<Longrightarrow> fst c2 = 0 \<Longrightarrow> fst c3 = 0 \<Longrightarrow> fst c4 = 0 \<longleftrightarrow> list_all (\<lambda>s. s \<le> 16) (combine_pulses (combine_pulses (combine_pulses (combine_pulses p 8) 4) 2) 1)"
    "fst c1 = 0 \<Longrightarrow> fst c2 = 0 \<Longrightarrow> fst c3 = 0 \<Longrightarrow> fst c4 = 0 \<Longrightarrow> \<exists>ys. snd c4 = combine_pulses (combine_pulses (combine_pulses (combine_pulses p 8) 4) 2) 1 @ ys"
    using 3(2) combine_and_check_iff [of "[sm]" "snd c3" 16 1] by (auto simp: c4_def combine_pulses_append)
  show fits: "fst (scale_check comb p sm) = 0 \<longleftrightarrow> shell_fits p"
    unfolding z shell_fits_def Let_def using 1(1) 2(1) 3(1) 4(1) by blast
  assume "shell_fits p"
  then have "\<exists>ys. snd c4 = combine_pulses (combine_pulses (combine_pulses (combine_pulses p 8) 4) 2) 1 @ ys"
    using fits z 4(2) by blast
  then show "snd (snd (scale_check comb p sm)) = combine_pulses (combine_pulses (combine_pulses (combine_pulses p 8) 4) 2) 1 ! 0"
    by (auto simp: s nth_append)
qed

lemma combine_pulses_le:
  assumes "\<forall>x\<in>set q. x \<le> m" "2 * n \<le> length q"
  shows "\<forall>x\<in>set (combine_pulses q n). x \<le> m + m"
proof
  fix x assume "x \<in> set (combine_pulses q n)"
  then obtain k where "k < n" "x = q ! (2 * k) + q ! (2 * k + 1)" by (auto simp: combine_pulses_def)
  moreover from this have "q ! (2 * k) \<le> m" "q ! (2 * k + 1) \<le> m" using assms by simp_all
  ultimately show "x \<le> m + m" by simp
qed

lemma shell_fits_le1:
  assumes "length p = 16" "\<forall>x\<in>set p. x \<le> 1"
  shows "shell_fits p"
proof -
  have a: "\<forall>x\<in>set (combine_pulses p 8). x \<le> 1 + 1" using assms by (intro combine_pulses_le) auto
  have b: "\<forall>x\<in>set (combine_pulses (combine_pulses p 8) 4). x \<le> (1 + 1) + (1 + 1)" using a by (rule combine_pulses_le) simp
  have c: "\<forall>x\<in>set (combine_pulses (combine_pulses (combine_pulses p 8) 4) 2). x \<le> ((1 + 1) + (1 + 1)) + ((1 + 1) + (1 + 1))"
    using b by (rule combine_pulses_le) simp
  have d: "\<forall>x\<in>set (combine_pulses (combine_pulses (combine_pulses (combine_pulses p 8) 4) 2) 1).
      x \<le> (((1 + 1) + (1 + 1)) + ((1 + 1) + (1 + 1))) + (((1 + 1) + (1 + 1)) + ((1 + 1) + (1 + 1)))"
    using c by (rule combine_pulses_le) simp
  show ?thesis using a b c d unfolding shell_fits_def Let_def list_all_iff by fastforce
qed

lemma halve_measure: "\<exists>x \<in> set p. 0 < x \<Longrightarrow> (\<Sum>x\<leftarrow>map (drop_bit 1) p. nat x) < (\<Sum>x\<leftarrow>p. nat x)"
proof (induction p)
  case (Cons a p)
  have le: "(\<Sum>x\<leftarrow>map (drop_bit 1) q. nat x) \<le> (\<Sum>x\<leftarrow>q. nat x)" for q :: "int list"
    by (induction q) (auto simp: shift_arith intro!: add_mono nat_mono)
  show ?case
  proof (cases "0 < a")
    case True
    then have "nat (drop_bit 1 a) < nat a" by (simp add: shift_arith)
    then show ?thesis using le [of p] by (simp only: list.map sum_list.Cons add_less_le_mono)
  next
    case False
    then show ?thesis using Cons by (auto simp: shift_arith)
  qed
qed simp

text \<open>The loop for one block: the shifted magnitudes, the number of shifts, the sum, the work array.\<close>

function scale_block :: "int list \<Rightarrow> int list \<Rightarrow> int \<Rightarrow> nat \<Rightarrow> int list \<times> nat \<times> int \<times> int list" where
  "scale_block pulses_comb abs_pulses sm nRshifts =
    (let (scale_down, pulses_comb, sm) = scale_check pulses_comb abs_pulses sm
     in if scale_down \<noteq> 0 \<and> length abs_pulses = 16
        then scale_block pulses_comb (map (drop_bit 1) abs_pulses) sm (nRshifts + 1)
        else (abs_pulses, nRshifts, sm, pulses_comb))"
  by pat_completeness auto

termination
proof (relation "measure (\<lambda>(comb, p, sm, n). \<Sum>x\<leftarrow>p. nat x)", simp)
  fix comb p :: "int list" and sm n x xa y xb ya
  assume "x = scale_check comb p sm" "(xa, y) = x" "(xb, ya) = y" "xa \<noteq> 0 \<and> length p = 16"
  then have "\<not> shell_fits p" "length p = 16" using scale_check_fits(1) [of comb p sm] by (metis fst_conv)+
  then have "\<exists>x \<in> set p. 0 < x" using shell_fits_le1 [of p] by force
  then show "((xb, map (drop_bit 1) p, ya, n + 1), comb, p, sm, n) \<in> measure (\<lambda>(comb, p, sm, n). \<Sum>x\<leftarrow>p. nat x)"
    using halve_measure by simp
qed

declare scale_block.simps [simp del]

text \<open>All blocks, the work array carried along.\<close>

fun scale_blocks :: "int list \<Rightarrow> int list list \<Rightarrow> (int list \<times> nat \<times> int) list" where
  "scale_blocks pulses_comb [] = []"
| "scale_blocks pulses_comb (b # bs) =
    (let (p, n, sm, pulses_comb) = scale_block pulses_comb b 0 0 in (p, n, sm) # scale_blocks pulses_comb bs)"

text \<open>The bits of the sums at rate level \<open>k\<close>, and the first level with the fewest.\<close>

definition rate_level_bits :: "int \<Rightarrow> (nat \<times> int) list \<Rightarrow> nat \<Rightarrow> int" where
  "rate_level_bits signalType ns k =
    fold (\<lambda>(n, sm) bits. bits + silk_pulses_per_block_BITS_Q5 ! k ! (if n > 0 then nat (SILK_MAX_PULSES + 1) else nat sm))
      ns (silk_rate_levels_BITS_Q5 ! nat (drop_bit 1 signalType) ! k)"

definition rate_level :: "int \<Rightarrow> (nat \<times> int) list \<Rightarrow> nat" where
  "rate_level signalType ns =
    snd (fold (\<lambda>k (best, index). let bits = rate_level_bits signalType ns k in if bits < best then (bits, k) else (best, index))
      [0..<N_RATE_LEVELS - 1] (2147483647, 0))"

definition encode_sum :: "int list \<Rightarrow> nat \<times> int \<Rightarrow> ec_ctx \<Rightarrow> ec_ctx" where
  "encode_sum cdf_ptr = (\<lambda>(n, sm) enc.
    if n = 0 then ec_enc_icdf sm cdf_ptr 8 enc
    else
      let enc = ec_enc_icdf (SILK_MAX_PULSES + 1) cdf_ptr 8 enc;
          enc = (ec_enc_icdf (SILK_MAX_PULSES + 1) (silk_pulses_per_block_iCDF ! (N_RATE_LEVELS - 1)) 8 ^^ (n - 1)) enc
      in ec_enc_icdf sm (silk_pulses_per_block_iCDF ! (N_RATE_LEVELS - 1)) 8 enc)"

text \<open>Bits \<open>n - 1\<close> down to 0 of a magnitude.\<close>

fun encode_lsbs :: "nat \<Rightarrow> int \<Rightarrow> ec_ctx \<Rightarrow> ec_ctx" where
  "encode_lsbs 0 abs_q enc = enc"
| "encode_lsbs (Suc j) abs_q enc = encode_lsbs j abs_q (ec_enc_icdf (drop_bit j abs_q AND 1) silk_lsb_iCDF 8 enc)"

definition shell_iter :: "int \<Rightarrow> nat" where
  "shell_iter frame_length =
    (let iter = nat (drop_bit LOG2_SHELL_CODEC_FRAME_LENGTH frame_length)
     in if int (iter * SHELL_CODEC_FRAME_LENGTH) < frame_length then iter + 1 else iter)"

text \<open>The pulses that are coded: a last block that the frame fills in part is filled with zeros.\<close>

definition shell_pad :: "int list \<Rightarrow> int \<Rightarrow> int list" where
  "shell_pad pulses frame_length =
    (let n = nat frame_length
     in if 16 * shell_iter frame_length > n then take n pulses @ replicate 16 0 else pulses)"

definition silk_encode_pulses :: "int \<Rightarrow> int \<Rightarrow> int list \<Rightarrow> int \<Rightarrow> ec_ctx \<Rightarrow> ec_ctx" where
  "silk_encode_pulses signalType quantOffsetType pulses frame_length enc =
    (let iter = shell_iter frame_length;
         pulses = shell_pad pulses frame_length;
         blocks = map (shell_block pulses) [0..<iter];
         scaled = scale_blocks (replicate 8 0) (map (map abs) blocks);
         ns = map snd scaled;
         RateLevelIndex = rate_level signalType ns;
         enc = ec_enc_icdf (int RateLevelIndex) (silk_rate_levels_iCDF ! nat (drop_bit 1 signalType)) 8 enc;
         enc = fold (encode_sum (silk_pulses_per_block_iCDF ! RateLevelIndex)) ns enc;
         enc = fold (\<lambda>(p, n, sm) enc. if sm > 0 then silk_shell_encoder p enc else enc) scaled enc;
         enc = fold (\<lambda>(b, p, n, sm) enc. if n > 0 then fold (\<lambda>q. encode_lsbs n (i8 \<bar>q\<bar>)) b enc else enc)
           (zip blocks scaled) enc
     in silk_encode_signs pulses frame_length signalType quantOffsetType (map snd ns) enc)"

text \<open>
  The escapes of a block sum.  The first argument bounds the rounds: after 10 escapes the table
  starts at its second entry, where the escape symbol is out of reach.
\<close>

fun decode_sum_loop :: "nat \<Rightarrow> nat \<Rightarrow> int \<Rightarrow> ec_ctx \<Rightarrow> (nat \<times> int) \<times> ec_ctx" where
  "decode_sum_loop 0 nLshifts sm dec = ((nLshifts, sm), dec)"
| "decode_sum_loop (Suc fuel) nLshifts sm dec =
    (if sm = SILK_MAX_PULSES + 1 then
       let nLshifts = nLshifts + 1;
           table = silk_pulses_per_block_iCDF ! (N_RATE_LEVELS - 1);
           (sm, dec) = ec_dec_icdf (if nLshifts = 10 then drop 1 table else table) 8 dec
       in decode_sum_loop fuel nLshifts sm dec
     else ((nLshifts, sm), dec))"

definition decode_sum :: "int list \<Rightarrow> ec_ctx \<Rightarrow> (nat \<times> int) \<times> ec_ctx" where
  "decode_sum cdf_ptr dec = (let (sm, dec) = ec_dec_icdf cdf_ptr 8 dec in decode_sum_loop 10 0 sm dec)"

fun decode_lsbs :: "nat \<Rightarrow> int \<Rightarrow> ec_ctx \<Rightarrow> int \<times> ec_ctx" where
  "decode_lsbs 0 abs_q dec = (i16 abs_q, dec)"
| "decode_lsbs (Suc j) abs_q dec =
    (let abs_q = push_bit 1 abs_q; (b, dec) = ec_dec_icdf silk_lsb_iCDF 8 dec in decode_lsbs j (abs_q + b) dec)"

definition silk_decode_pulses :: "int \<Rightarrow> int \<Rightarrow> int \<Rightarrow> ec_ctx \<Rightarrow> int list \<times> ec_ctx" where
  "silk_decode_pulses signalType quantOffsetType frame_length dec =
    (let (RateLevelIndex, dec) = ec_dec_icdf (silk_rate_levels_iCDF ! nat (drop_bit 1 signalType)) 8 dec;
         iter = shell_iter frame_length;
         (ns, dec) = dec_seq (\<lambda>_. decode_sum (silk_pulses_per_block_iCDF ! nat RateLevelIndex)) [0..<iter] dec;
         (blocks, dec) = dec_seq (\<lambda>(n, sm) dec. if sm > 0 then silk_shell_decoder sm dec else (replicate 16 0, dec)) ns dec;
         (blocks, dec) = dec_seq (\<lambda>((n, sm), b) dec. if n > 0 then dec_seq (decode_lsbs n) b dec else (b, dec)) (zip ns blocks) dec;
         sums = map (\<lambda>(n, sm). if n > 0 then sm OR push_bit 5 (int n) else sm) ns
     in silk_decode_signs (concat blocks) frame_length signalType quantOffsetType sums dec)"
section \<open>Shell coder round trip\<close>

definition shell_split_ok :: "int list \<Rightarrow> bool" where
  "shell_split_ok table \<longleftrightarrow> list_all (\<lambda>p. let t = icdf_at table (silk_shell_code_table_offsets ! p)
     in icdf8 (p + 1) t) [1..<17]"

lemma shell_tables_ok:
  "shell_split_ok silk_shell_code_table0" "shell_split_ok silk_shell_code_table1"
  "shell_split_ok silk_shell_code_table2" "shell_split_ok silk_shell_code_table3"
  by code_simp+

lemma transmits_split:
  assumes t: "shell_split_ok table" and p: "0 \<le> c" "c \<le> p" "p \<le> 16"
  shows "transmits (encode_split c p table) (decode_split p table) (c, p - c)"
proof (cases "p > 0")
  case True
  let ?t = "icdf_at table (silk_shell_code_table_offsets ! nat p)"
  have "nat p \<in> set [1..<17]" using True p by auto
  then have "icdf8 (nat p + 1) ?t"
    using t unfolding shell_split_ok_def list_all_iff Let_def by blast
  then have "transmits (ec_enc_icdf c ?t 8) (ec_dec_icdf ?t 8) c"
    using p by (intro transmits_icdf8) auto
  then have "transmits (ec_enc_icdf c ?t 8) (\<lambda>d. case ec_dec_icdf ?t 8 d of (c, d) \<Rightarrow> ((i16 c, i16 (p - i16 c)), d)) (c, p - c)"
    by (rule transmits_map) (use p in simp)
  then show ?thesis by (rule transmits_cong) (use True in \<open>simp_all add: encode_split_def decode_split_def\<close>)
next
  case False
  then have "c = 0" "p = 0" using p by auto
  then show ?thesis using transmits_return [of "(0::int, 0::int)"]
    by (intro transmits_cong [OF transmits_return]) (simp_all add: encode_split_def decode_split_def)
qed

text \<open>A split, then the two subtrees.\<close>

lemma transmits_tree:
  assumes s: "shell_split_ok table" "0 \<le> a" "0 \<le> b" "a + b \<le> 16"
    and l: "transmits enc1 (dec1 a) xs" and r: "transmits enc2 (dec1 b) ys"
  shows "transmits (\<lambda>s. enc2 (enc1 (encode_split a (a + b) table s)))
    (\<lambda>d. case decode_split (a + b) table d of ((a, b), d) \<Rightarrow> case dec1 a d of (xs, d) \<Rightarrow> case dec1 b d of (ys, d) \<Rightarrow> (xs @ ys, d))
    (xs @ ys)"
proof -
  let ?d2 = "\<lambda>(a, b) d. case dec1 a d of (xs, d) \<Rightarrow> case dec1 b d of (ys, d) \<Rightarrow> (xs @ ys, d)"
  let ?d3 = "\<lambda>xs d. case dec1 b d of (ys, d) \<Rightarrow> (xs @ ys, d)"
  have "transmits enc2 (?d3 xs) (xs @ ys)" by (rule transmits_map [OF r refl])
  from transmits_bind [OF l, where ?dec2.0 = ?d3, OF this]
  have "transmits (\<lambda>s. enc2 (enc1 s)) (?d2 (a, b)) (xs @ ys)" by simp
  moreover have "transmits (encode_split a (a + b) table) (decode_split (a + b) table) (a, b)"
    using transmits_split [OF s(1), of a "a + b"] s by simp
  ultimately have "transmits (\<lambda>s. enc2 (enc1 (encode_split a (a + b) table s)))
      (\<lambda>d. case decode_split (a + b) table d of (x, d) \<Rightarrow> ?d2 x d) (xs @ ys)"
    by (rule_tac transmits_bind [where ?dec2.0 = ?d2])
  then show ?thesis by (rule transmits_cong) (simp_all add: case_prod_beta)
qed

lemma transmits_pair:
  assumes "0 \<le> a" "0 \<le> b" "a + b \<le> 16"
  shows "transmits (encode_split a (a + b) silk_shell_code_table0)
    (\<lambda>d. case decode_split (a + b) silk_shell_code_table0 d of ((x, y), d) \<Rightarrow> ([x, y], d)) [a, b]"
proof -
  have "transmits (encode_split a (a + b) silk_shell_code_table0) (decode_split (a + b) silk_shell_code_table0) (a, a + b - a)"
    using assms by (intro transmits_split shell_tables_ok) simp_all
  from transmits_map [OF this, of "[a, b]" "\<lambda>(x, y). [x, y]"] show ?thesis
    by (rule transmits_cong) (simp_all add: case_prod_beta)
qed

lemma transmits_quad:
  assumes "0 \<le> a" "0 \<le> b" "0 \<le> c" "0 \<le> e" "a + b + (c + e) \<le> 16"
  shows "transmits (\<lambda>s. encode_split c (c + e) silk_shell_code_table0 (encode_split a (a + b) silk_shell_code_table0
      (encode_split (a + b) (a + b + (c + e)) silk_shell_code_table1 s)))
    (shell_decode_quad (a + b + (c + e))) [a, b, c, e]"
proof -
  let ?dec = "\<lambda>p d. case decode_split p silk_shell_code_table0 d of ((x, y), d) \<Rightarrow> ([x, y], d)"
  have "transmits (\<lambda>s. encode_split c (c + e) silk_shell_code_table0 (encode_split a (a + b) silk_shell_code_table0
      (encode_split (a + b) (a + b + (c + e)) silk_shell_code_table1 s)))
    (\<lambda>d. case decode_split (a + b + (c + e)) silk_shell_code_table1 d of ((a, b), d) \<Rightarrow> case ?dec a d of (xs, d) \<Rightarrow> case ?dec b d of (ys, d) \<Rightarrow> (xs @ ys, d))
    ([a, b] @ [c, e])"
    using assms by (intro transmits_tree transmits_pair shell_tables_ok) simp_all
  then have "transmits (\<lambda>s. encode_split c (c + e) silk_shell_code_table0 (encode_split a (a + b) silk_shell_code_table0
      (encode_split (a + b) (a + b + (c + e)) silk_shell_code_table1 s))) (shell_decode_quad (a + b + (c + e))) ([a, b] @ [c, e])"
    by (rule transmits_cong) (simp_all add: shell_decode_quad_def case_prod_beta Let_def)
  then show ?thesis by simp
qed

lemma transmits_half:
  assumes "0 \<le> a" "0 \<le> b" "a + b \<le> 16" "transmits e1 (shell_decode_quad a) xs" "transmits e2 (shell_decode_quad b) ys"
  shows "transmits (\<lambda>s. e2 (e1 (encode_split a (a + b) silk_shell_code_table2 s))) (shell_decode_half (a + b)) (xs @ ys)"
  by (rule transmits_cong [OF transmits_tree [OF shell_tables_ok(3) assms]])
    (simp_all add: shell_decode_half_def case_prod_beta Let_def)

lemma transmits_whole:
  assumes "0 \<le> a" "0 \<le> b" "a + b \<le> 16" "transmits e1 (shell_decode_half a) xs" "transmits e2 (shell_decode_half b) ys"
  shows "transmits (\<lambda>s. e2 (e1 (encode_split a (a + b) silk_shell_code_table3 s))) (silk_shell_decoder (a + b)) (xs @ ys)"
  by (rule transmits_cong [OF transmits_tree [OF shell_tables_ok(4) assms]])
    (simp_all add: silk_shell_decoder_def case_prod_beta Let_def)

lemma combine_pulses_Cons:
  "combine_pulses (a # b # xs) (Suc n) = (a + b) # combine_pulses xs n" "combine_pulses xs 0 = []"
  by (simp_all add: combine_pulses_def upt_conv_Cons map_Suc_upt [symmetric] del: upt_Suc)

lemma length_16E:
  assumes "length p = 16"
  obtains a b c d e f g h i j k l m n q r where "p = [a, b, c, d, e, f, g, h, i, j, k, l, m, n, q, r]"
  using assms by (auto simp: numeral_eq_Suc length_Suc_conv)

definition block_sum :: "int list \<Rightarrow> int" where
  "block_sum p = combine_pulses (combine_pulses (combine_pulses (combine_pulses p 8) 4) 2) 1 ! 0"

lemma transmits_shell:
  assumes "length p = 16" "\<forall>x\<in>set p. 0 \<le> x" "block_sum p \<le> 16"
  shows "transmits (silk_shell_encoder p) (silk_shell_decoder (block_sum p)) p"
proof -
  obtain a b c d e f g h i j k l m n q r where p: "p = [a, b, c, d, e, f, g, h, i, j, k, l, m, n, q, r]"
    using length_16E [OF assms(1)] .
  let ?s1 = "a + b + (c + d)" and ?s2 = "e + f + (g + h)" and ?s3 = "i + j + (k + l)" and ?s4 = "m + n + (q + r)"
  have nn: "0 \<le> a" "0 \<le> b" "0 \<le> c" "0 \<le> d" "0 \<le> e" "0 \<le> f" "0 \<le> g" "0 \<le> h" "0 \<le> i" "0 \<le> j" "0 \<le> k" "0 \<le> l"
    "0 \<le> m" "0 \<le> n" "0 \<le> q" "0 \<le> r" using assms(2) by (simp_all add: p)
  have c: "combine_pulses p 8 = [a + b, c + d, e + f, g + h, i + j, k + l, m + n, q + r]"
    "combine_pulses [a + b, c + d, e + f, g + h, i + j, k + l, m + n, q + r] 4 = [?s1, ?s2, ?s3, ?s4]"
    "combine_pulses [?s1, ?s2, ?s3, ?s4] 2 = [?s1 + ?s2, ?s3 + ?s4]"
    "combine_pulses [?s1 + ?s2, ?s3 + ?s4] 1 = [?s1 + ?s2 + (?s3 + ?s4)]"
    by (simp_all add: p numeral_eq_Suc combine_pulses_Cons)
  have sm: "block_sum p = ?s1 + ?s2 + (?s3 + ?s4)" unfolding block_sum_def c by simp
  then have le: "?s1 + ?s2 + (?s3 + ?s4) \<le> 16" using assms(3) by simp
  have nth: "p ! 0 = a" "p ! Suc (Suc 0) = c" "p ! 4 = e" "p ! 6 = g" "p ! 8 = i" "p ! 10 = k" "p ! 12 = m" "p ! 14 = q"
    by (simp_all add: p)
  have "transmits (silk_shell_encoder p) (silk_shell_decoder (?s1 + ?s2 + (?s3 + ?s4)))
      (([a, b, c, d] @ [e, f, g, h]) @ ([i, j, k, l] @ [m, n, q, r]))"
    by (rule transmits_cong [OF transmits_whole [OF _ _ le transmits_half [OF _ _ _ transmits_quad transmits_quad]
        transmits_half [OF _ _ _ transmits_quad transmits_quad]]])
      (use nn le in \<open>simp_all add: silk_shell_encoder_def shell_encode_quad_def c [unfolded One_nat_def] nth Let_def\<close>)
  then show ?thesis unfolding sm by (simp add: p)
qed

section \<open>Scaling\<close>

lemma block_sum_eq: "length p = 16 \<Longrightarrow> block_sum p = sum_list p"
  by (elim length_16E) (simp add: block_sum_def numeral_eq_Suc combine_pulses_Cons)

lemma shell_fits_sum: "shell_fits p \<Longrightarrow> block_sum p \<le> 16"
  by (simp add: shell_fits_def block_sum_def Let_def list_all_length)

lemma member_le_sum_list_int: "\<forall>y\<in>set q. 0 \<le> y \<Longrightarrow> x \<in> set q \<Longrightarrow> (x :: int) \<le> sum_list q"
proof (induction q)
  case (Cons a q)
  then have "0 \<le> sum_list q" by (intro sum_list_nonneg) auto
  then show ?case using Cons by force
qed simp

lemma scale_block_eq:
  assumes "length p = 16" "\<forall>x\<in>set p. 0 \<le> x \<and> x \<le> 2 ^ m"
  shows "\<exists>k comb'. scale_block comb p sm n = (map (drop_bit k) p, n + k, block_sum (map (drop_bit k) p), comb') \<and> k \<le> m
    \<and> block_sum (map (drop_bit k) p) \<le> 16 \<and> (0 < k \<longrightarrow> 0 < block_sum (map (drop_bit k) p))"
  using assms
proof (induction m arbitrary: comb p sm n)
  case 0
  then have f: "shell_fits p" by (intro shell_fits_le1) auto
  obtain fl c v where sc: "scale_check comb p sm = (fl, c, v)" by (cases "scale_check comb p sm")
  have "fl = 0" "v = block_sum p" using scale_check_fits [where comb = comb and p = p and sm = sm] f by (simp_all add: sc block_sum_def)
  then show ?case using shell_fits_sum [OF f] by (intro exI [of _ 0] exI [of _ c]) (simp add: scale_block.simps [of comb] sc)
next
  case (Suc m)
  obtain fl c v where sc: "scale_check comb p sm = (fl, c, v)" by (cases "scale_check comb p sm")
  show ?case
  proof (cases "shell_fits p")
    case True
    have "fl = 0" "v = block_sum p" using scale_check_fits [where comb = comb and p = p and sm = sm] True by (simp_all add: sc block_sum_def)
    then show ?thesis using shell_fits_sum [OF True] by (intro exI [of _ 0] exI [of _ c]) (simp add: scale_block.simps [of comb] sc)
  next
    case False
    let ?q = "map (drop_bit 1) p"
    have "fl \<noteq> 0" using scale_check_fits(1) [of comb p sm] False by (simp add: sc)
    then have st: "scale_block comb p sm n = scale_block c ?q v (n + 1)"
      using Suc.prems(1) by (subst scale_block.simps) (simp add: sc)
    have q: "length ?q = 16" "\<forall>x\<in>set ?q. 0 \<le> x \<and> x \<le> 2 ^ m" using Suc.prems by (auto simp: shift_arith)
    obtain k c' where k: "scale_block c ?q v (n + 1) = (map (drop_bit k) ?q, n + 1 + k, block_sum (map (drop_bit k) ?q), c')"
      "k \<le> m" "block_sum (map (drop_bit k) ?q) \<le> 16" "0 < k \<longrightarrow> 0 < block_sum (map (drop_bit k) ?q)"
      using Suc.IH [OF q] by blast
    have e: "map (drop_bit k) ?q = map (drop_bit (Suc k)) p" by (simp add: comp_def drop_bit_drop_bit)
    note k = k [unfolded e]
    have "0 < block_sum (map (drop_bit (Suc k)) p)"
    proof (cases "k = 0")
      case True
      obtain x where x: "x \<in> set p" "1 < x" using False shell_fits_le1 [OF Suc.prems(1)] by force
      have "\<forall>y\<in>set ?q. 0 \<le> y" "drop_bit 1 x \<in> set ?q" "0 < drop_bit 1 x" using q(2) x by (auto simp: shift_arith)
      then have "0 < sum_list ?q" by (metis member_le_sum_list_int order_less_le_trans)
      then show ?thesis using True block_sum_eq [OF q(1)] by simp
    next
      case False
      then show ?thesis using k(4) by simp
    qed
    then show ?thesis using st k by (intro exI [of _ "Suc k"] exI [of _ c']) simp
  qed
qed

lemma scale_blocks_eq:
  assumes "\<forall>b\<in>set bs. length b = 16 \<and> (\<forall>x\<in>set b. 0 \<le> x \<and> x \<le> 128)"
  shows "list_all2 (\<lambda>b (p, n, sm). p = map (drop_bit n) b \<and> sm = block_sum p \<and> n \<le> 7 \<and> sm \<le> 16 \<and> (0 < n \<longrightarrow> 0 < sm))
    bs (scale_blocks comb bs)"
  using assms
proof (induction bs arbitrary: comb)
  case (Cons b bs)
  have b: "length b = 16" "\<forall>x\<in>set b. 0 \<le> x \<and> x \<le> 2 ^ 7" using Cons.prems by simp_all
  obtain k c where "scale_block comb b 0 0 = (map (drop_bit k) b, 0 + k, block_sum (map (drop_bit k) b), c)" "k \<le> 7"
    "block_sum (map (drop_bit k) b) \<le> 16" "0 < k \<longrightarrow> 0 < block_sum (map (drop_bit k) b)"
    using scale_block_eq [OF b] by blast
  then show ?case using Cons by simp
qed simp

section \<open>Sums, low bits and signs\<close>

lemma pulses_tables_ok:
  "list_all (icdf8 18) silk_pulses_per_block_iCDF"
  "length silk_pulses_per_block_iCDF = 10"
  "list_all (icdf8 9) silk_rate_levels_iCDF"
  "length silk_rate_levels_iCDF = 2"
  "list_all (\<lambda>x. 0 < x \<and> x < 256) silk_sign_iCDF" "length silk_sign_iCDF = 42"
  by code_simp+

lemma transmits_sum_symbol:
  assumes "r < 10" "0 \<le> k" "k \<le> 17"
  shows "transmits (ec_enc_icdf k (silk_pulses_per_block_iCDF ! r) 8) (ec_dec_icdf (silk_pulses_per_block_iCDF ! r) 8) k"
proof -
  let ?t = "silk_pulses_per_block_iCDF ! r"
  have "icdf8 18 ?t" using pulses_tables_ok(1,2) assms(1) by (simp add: list_all_length)
  then show ?thesis using assms by (intro transmits_icdf8) auto
qed

lemma transmits_escapes:
  assumes sm: "0 \<le> sm" "sm \<le> 16"
  defines "t \<equiv> silk_pulses_per_block_iCDF ! 9"
  shows "k + j \<le> 9 \<Longrightarrow> j \<le> fuel \<Longrightarrow> transmits (\<lambda>s. ec_enc_icdf sm t 8 ((ec_enc_icdf 17 t 8 ^^ j) s))
    (\<lambda>d. case ec_dec_icdf t 8 d of (x, d) \<Rightarrow> decode_sum_loop fuel k x d) (k + j, sm)"
proof (induction j arbitrary: k fuel)
  case 0
  have "transmits (ec_enc_icdf sm t 8) (ec_dec_icdf t 8) sm" unfolding t_def using sm by (intro transmits_sum_symbol) auto
  moreover have "decode_sum_loop fuel k sm d = ((k, sm), d)" for d using sm by (cases fuel) (simp_all add: SILK_MAX_PULSES_def)
  then have "transmits (\<lambda>s. s) (decode_sum_loop fuel k sm) (k, sm)" by (rule_tac transmits_cong [OF transmits_return]) simp_all
  ultimately have "transmits (\<lambda>s. ec_enc_icdf sm t 8 s) (\<lambda>d. case ec_dec_icdf t 8 d of (x, d) \<Rightarrow> decode_sum_loop fuel k x d) (k, sm)"
    by (rule transmits_bind [where ?enc2.0 = "\<lambda>s. s" and ?dec2.0 = "decode_sum_loop fuel k"])
  then show ?case by simp
next
  case (Suc j)
  obtain f where f: "fuel = Suc f" using Suc.prems by (cases fuel) auto
  have 1: "transmits (ec_enc_icdf 17 t 8) (ec_dec_icdf t 8) 17" unfolding t_def by (intro transmits_sum_symbol) auto
  have "transmits (\<lambda>s. ec_enc_icdf sm t 8 ((ec_enc_icdf 17 t 8 ^^ j) s))
      (\<lambda>d. case ec_dec_icdf t 8 d of (x, d) \<Rightarrow> decode_sum_loop f (k + 1) x d) (k + 1 + j, sm)"
    using Suc.prems by (intro Suc.IH) (simp_all add: f)
  then have "transmits (\<lambda>s. ec_enc_icdf sm t 8 ((ec_enc_icdf 17 t 8 ^^ j) s))
      (\<lambda>d. case ec_dec_icdf t 8 d of (x, d) \<Rightarrow> decode_sum_loop f (k + 1) x d) (k + Suc j, sm)" by simp
  then have 2: "transmits (\<lambda>s. ec_enc_icdf sm t 8 ((ec_enc_icdf 17 t 8 ^^ j) s)) (decode_sum_loop fuel k 17) (k + Suc j, sm)"
    by (rule transmits_cong) (use Suc.prems in \<open>simp_all add: f SILK_MAX_PULSES_def N_RATE_LEVELS_def t_def Let_def\<close>)
  from transmits_bind [OF 1, where ?dec2.0 = "decode_sum_loop fuel k", OF 2] show ?case
    by (rule transmits_cong) (simp_all add: funpow_swap1)
qed

lemma decode_sum_loop_first:
  "decode_sum_loop 10 0 17 d = (case ec_dec_icdf (silk_pulses_per_block_iCDF ! 9) 8 d of (x, d) \<Rightarrow> decode_sum_loop 9 (Suc 0) x d)"
  using decode_sum_loop.simps(2) [of 9 0 17 d]
  by (simp add: SILK_MAX_PULSES_def N_RATE_LEVELS_def Let_def del: decode_sum_loop.simps)

lemma transmits_sum:
  assumes "r < 10" "0 \<le> sm" "sm \<le> 16" "n \<le> 9"
  shows "transmits (encode_sum (silk_pulses_per_block_iCDF ! r) (n, sm)) (decode_sum (silk_pulses_per_block_iCDF ! r)) (n, sm)"
proof (cases n)
  case 0
  have 1: "transmits (ec_enc_icdf sm (silk_pulses_per_block_iCDF ! r) 8) (ec_dec_icdf (silk_pulses_per_block_iCDF ! r) 8) sm"
    using assms by (intro transmits_sum_symbol) auto
  have "transmits (\<lambda>s. s) (decode_sum_loop 10 0 sm) (0, sm)"
    by (rule transmits_cong [OF transmits_return]) (use assms in \<open>simp_all add: SILK_MAX_PULSES_def numeral_eq_Suc\<close>)
  from transmits_bind [OF 1, where ?dec2.0 = "decode_sum_loop 10 0", OF this] show ?thesis unfolding 0
    by (rule transmits_cong) (simp_all add: encode_sum_def decode_sum_def)
next
  case (Suc j)
  let ?t = "silk_pulses_per_block_iCDF ! 9"
  have 1: "transmits (ec_enc_icdf 17 (silk_pulses_per_block_iCDF ! r) 8) (ec_dec_icdf (silk_pulses_per_block_iCDF ! r) 8) 17"
    using assms by (intro transmits_sum_symbol) auto
  have "transmits (\<lambda>s. ec_enc_icdf sm ?t 8 ((ec_enc_icdf 17 ?t 8 ^^ j) s))
      (\<lambda>d. case ec_dec_icdf ?t 8 d of (x, d) \<Rightarrow> decode_sum_loop 9 1 x d) (1 + j, sm)"
    using assms Suc by (intro transmits_escapes) auto
  then have "transmits (\<lambda>s. ec_enc_icdf sm ?t 8 ((ec_enc_icdf 17 ?t 8 ^^ j) s))
      (\<lambda>d. case ec_dec_icdf ?t 8 d of (x, d) \<Rightarrow> decode_sum_loop 9 1 x d) (n, sm)" using Suc by simp
  then have "transmits (\<lambda>s. ec_enc_icdf sm ?t 8 ((ec_enc_icdf 17 ?t 8 ^^ j) s)) (decode_sum_loop 10 0 17) (n, sm)"
    by (rule transmits_cong) (simp_all add: decode_sum_loop_first)
  from transmits_bind [OF 1, where ?dec2.0 = "decode_sum_loop 10 0", OF this] show ?thesis unfolding Suc
    by (rule transmits_cong) (simp_all add: encode_sum_def decode_sum_def SILK_MAX_PULSES_def N_RATE_LEVELS_def Let_def)
qed

lemma transmits_lsbs:
  assumes "0 \<le> q" "q < 32768"
  shows "transmits (encode_lsbs n q) (decode_lsbs n (drop_bit n q)) q"
proof (induction n)
  case 0
  show ?case by (rule transmits_cong [OF transmits_return]) (use assms in simp_all)
next
  case (Suc n)
  define b where "b = drop_bit n q AND 1"
  have b: "b \<in> {0, 1}" "push_bit 1 (drop_bit (Suc n) q) + b = drop_bit n q"
  proof -
    have "drop_bit (Suc n) q = drop_bit n q div 2" by (simp add: drop_bit_Suc drop_bit_half)
    then show "b \<in> {0, 1}" "push_bit 1 (drop_bit (Suc n) q) + b = drop_bit n q"
      by (auto simp: b_def and_1_mod push_bit_mult)
  qed
  have 1: "transmits (ec_enc_icdf b silk_lsb_iCDF 8) (ec_dec_icdf silk_lsb_iCDF 8) b"
    using b(1) by (intro transmits_icdf(1) sorted_icdf_sym) (auto simp: silk_lsb_iCDF_def)
  have "transmits (encode_lsbs n q) (decode_lsbs n (push_bit 1 (drop_bit (Suc n) q) + b)) q" using Suc unfolding b(2) .
  from transmits_bind [OF 1, where ?dec2.0 = "\<lambda>b. decode_lsbs n (push_bit 1 (drop_bit (Suc n) q) + b)", OF this]
  show ?case by (rule transmits_cong) (simp_all add: b_def Let_def)
qed

lemma transmits_sign:
  assumes x: "0 < x" "x < 256" and q: "- 32768 < q" "q < 32768"
  shows "transmits (encode_sign [x, 0] q) (decode_sign [x, 0] \<bar>q\<bar>) q"
proof (cases "q = 0")
  case True
  show ?thesis by (rule transmits_cong [OF transmits_return]) (simp_all add: True encode_sign_def decode_sign_def)
next
  case False
  have m: "silk_enc_map q = (if q < 0 then 0 else 1)"
  proof -
    have "q div 32768 = (if q < 0 then - 1 else 0)" using q by (auto intro: int_div_neg_eq)
    then show ?thesis by (simp add: silk_enc_map_def shift_arith)
  qed
  have "transmits (ec_enc_icdf (silk_enc_map q) [x, 0] 8) (ec_dec_icdf [x, 0] 8) (silk_enc_map q)"
    using x by (intro transmits_icdf(1) sorted_icdf_sym) (simp_all add: m)
  then have "transmits (ec_enc_icdf (silk_enc_map q) [x, 0] 8)
      (\<lambda>d. case ec_dec_icdf [x, 0] 8 d of (b, d) \<Rightarrow> (i16 (\<bar>q\<bar> * silk_dec_map b), d)) q"
    by (rule transmits_map) (use q in \<open>simp add: m silk_dec_map_def\<close>)
  then show ?thesis by (rule transmits_cong) (use False in \<open>simp_all add: encode_sign_def decode_sign_def\<close>)
qed

section \<open>Round trip of a frame of pulses\<close>

text \<open>A block of 8-bit pulses as it was scaled: the magnitudes without their low \<open>n\<close> bits.\<close>

definition scaled_ok :: "int list \<Rightarrow> int list \<times> nat \<times> int \<Rightarrow> bool" where
  "scaled_ok b = (\<lambda>(p, n, sm). length b = 16 \<and> (\<forall>x\<in>set b. - 128 \<le> x \<and> x \<le> 127)
     \<and> p = map (drop_bit n) (map abs b) \<and> sm = sum_list p \<and> n \<le> 7 \<and> sm \<le> 16 \<and> (0 < n \<longrightarrow> 0 < sm))"

lemma sum_list_zero_int: "\<forall>x\<in>set p. 0 \<le> x \<Longrightarrow> sum_list p \<le> 0 \<Longrightarrow> p = replicate (length p) (0 :: int)"
proof (induction p)
  case (Cons a p)
  then have "0 \<le> sum_list p" by (intro sum_list_nonneg) auto
  then have "a = 0" "sum_list p \<le> 0" using Cons.prems by auto
  then show ?case using Cons by simp
qed simp

lemma transmits_shell_stage:
  assumes "scaled_ok b (p, n, sm)"
  shows "transmits (\<lambda>enc. if sm > 0 then silk_shell_encoder p enc else enc)
    (\<lambda>dec. if sm > 0 then silk_shell_decoder sm dec else (replicate 16 0, dec)) p"
proof -
  have p: "length p = 16" "\<forall>x\<in>set p. 0 \<le> x" "sm = sum_list p" "sm \<le> 16" using assms by (auto simp: scaled_ok_def)
  have s: "sm = block_sum p" using p block_sum_eq by simp
  show ?thesis
  proof (cases "sm > 0")
    case True
    show ?thesis using transmits_shell [of p] p s True by simp
  next
    case False
    then have "p = replicate 16 0" using sum_list_zero_int [OF p(2)] p by simp
    then show ?thesis using False by (intro transmits_cong [OF transmits_return]) simp_all
  qed
qed

lemma encode_lsbs_eq: "(\<And>j. j < n \<Longrightarrow> drop_bit j a AND 1 = drop_bit j b AND 1) \<Longrightarrow> encode_lsbs n a = encode_lsbs n b"
  by (induction n) auto

lemma encode_lsbs_i8:
  assumes "- 128 \<le> q" "q \<le> 127" "n \<le> 7"
  shows "encode_lsbs n (i8 \<bar>q\<bar>) = encode_lsbs n \<bar>q\<bar>"
proof (cases "q = - 128")
  case True
  have "drop_bit j (i8 128) AND 1 = drop_bit j 128 AND (1 :: int)" if "j \<in> set [0..<7]" for j
    using that by (auto simp: upt_rec i8_def shift_arith)
  then show ?thesis using assms(3) unfolding True by (intro encode_lsbs_eq) simp
next
  case False
  then have "i8 \<bar>q\<bar> = \<bar>q\<bar>" using assms by (simp add: abs_if)
  then show ?thesis by simp
qed

lemma transmits_lsb_stage:
  assumes "scaled_ok b (p, n, sm)"
  shows "transmits (\<lambda>enc. if n > 0 then fold (\<lambda>q. encode_lsbs n (i8 \<bar>q\<bar>)) b enc else enc)
    (\<lambda>dec. if n > 0 then dec_seq (decode_lsbs n) p dec else (p, dec)) (map abs b)"
proof (cases "n > 0")
  case True
  have "transmits (encode_lsbs n (i8 \<bar>b ! i\<bar>)) (decode_lsbs n (drop_bit n \<bar>b ! i\<bar>)) \<bar>b ! i\<bar>" if "i < length b" for i
  proof -
    have q: "- 128 \<le> b ! i" "b ! i \<le> 127" "n \<le> 7" using assms that by (auto simp: scaled_ok_def)
    show ?thesis unfolding encode_lsbs_i8 [OF q] using q by (intro transmits_lsbs) auto
  qed
  then have "transmits (fold (\<lambda>q. encode_lsbs n (i8 \<bar>q\<bar>)) b) (dec_seq (decode_lsbs n) p) (map abs b)"
    using assms by (intro transmits_each) (auto simp: scaled_ok_def)
  then show ?thesis using True by simp
next
  case False
  then have "p = map abs b" using assms by (auto simp: scaled_ok_def)
  then show ?thesis using False by (intro transmits_cong [OF transmits_return]) simp_all
qed

lemma transmits_sign_stage:
  assumes b: "scaled_ok b (p, n, sm)" and s: "0 < sm' \<longleftrightarrow> 0 < sm" and x: "0 < x" "x < 256"
  shows "transmits (\<lambda>enc. if sm > 0 then fold (encode_sign [x, 0]) b enc else enc)
    (\<lambda>dec. if sm' > 0 then dec_seq (decode_sign [x, 0]) (map abs b) dec else (map abs b, dec)) b"
proof (cases "sm > 0")
  case True
  have "transmits (encode_sign [x, 0] (b ! i)) (decode_sign [x, 0] \<bar>b ! i\<bar>) (b ! i)" if "i < length b" for i
  proof -
    have "- 128 \<le> b ! i" "b ! i \<le> 127" using b that by (auto simp: scaled_ok_def)
    then show ?thesis by (intro transmits_sign x) auto
  qed
  then have "transmits (fold (encode_sign [x, 0]) b) (dec_seq (decode_sign [x, 0]) (map abs b)) b"
    by (intro transmits_each) auto
  then show ?thesis using True s by simp
next
  case False
  then have "n = 0" "p = map abs b" "sum_list p \<le> 0" using b by (auto simp: scaled_ok_def)
  then have "map abs b = replicate 16 0" using sum_list_zero_int [of "map abs b"] b by (auto simp: scaled_ok_def)
  then have "map abs b = b" by (metis (no_types, lifting) abs_eq_0_iff in_set_replicate length_map map_idI map_replicate_const list.set_map image_eqI)
  then show ?thesis using False s by (intro transmits_cong [OF transmits_return]) simp_all
qed

lemma rate_level_less: "rate_level signalType ns < 9"
proof -
  have "snd (fold (\<lambda>k (best, index). let bits = f k in if bits < best then (bits, k) else (best, index)) ks (b, i)) < 9"
    if "i < 9" "\<forall>k\<in>set ks. k < 9" for ks b i and f :: "nat \<Rightarrow> int"
    using that by (induction ks arbitrary: b i) (auto simp: Let_def)
  then show ?thesis unfolding rate_level_def by (simp add: N_RATE_LEVELS_def)
qed

lemma transmits_rate_level:
  assumes "signalType \<in> {0, 1, 2}"
  shows "transmits (ec_enc_icdf (int (rate_level signalType ns)) (silk_rate_levels_iCDF ! nat (drop_bit 1 signalType)) 8)
    (ec_dec_icdf (silk_rate_levels_iCDF ! nat (drop_bit 1 signalType)) 8) (int (rate_level signalType ns))"
proof -
  let ?t = "silk_rate_levels_iCDF ! nat (drop_bit 1 signalType)"
  have "nat (drop_bit 1 signalType) < 2" using assms by (auto simp: shift_arith)
  then have "icdf8 9 ?t" using pulses_tables_ok(3,4) by (simp add: list_all_length)
  then show ?thesis using rate_level_less [of signalType ns] by (intro transmits_icdf8) auto
qed

lemma shell_block_concat:
  assumes "\<forall>b\<in>set bs. length b = 16" "i < length bs"
  shows "shell_block (concat bs) i = bs ! i"
  using assms
proof (induction bs arbitrary: i)
  case (Cons b bs)
  then show ?case by (cases i) (auto simp: shell_block_def)
qed simp

lemma sign_table_ok:
  assumes "signalType \<in> {0, 1, 2}" "quantOffsetType \<in> {0, 1}"
  shows "\<exists>x. sign_table (sign_icdf_ptr signalType quantOffsetType) p = [x, 0] \<and> 0 < x \<and> x < 256"
proof -
  define o1 where "o1 = nat (7 * (quantOffsetType + push_bit 1 signalType))"
  define o2 where "o2 = nat (min (p AND 31) 6)"
  have "o1 \<le> 35" "o2 \<le> 6" using assms by (auto simp: o1_def o2_def push_bit_mult)
  then have i: "o1 + o2 < length silk_sign_iCDF" unfolding pulses_tables_ok by simp
  have "sign_table (sign_icdf_ptr signalType quantOffsetType) p = [silk_sign_iCDF ! (o1 + o2), 0]"
    using i unfolding sign_table_def sign_icdf_ptr_def o1_def [symmetric] o2_def [symmetric] by simp
  then show ?thesis using i pulses_tables_ok(5) by (simp add: list_all_length)
qed

lemma transmits_signs:
  assumes st: "signalType \<in> {0, 1, 2}" "quantOffsetType \<in> {0, 1}"
    and len: "nat (drop_bit 4 (len + 8)) = length blocks" and ok: "list_all2 scaled_ok blocks scs"
    and p: "\<And>i. i < length blocks \<Longrightarrow> shell_block pulses i = blocks ! i"
    and sums: "sums = map (\<lambda>(p, n, sm). sm) scs" "length sums' = length sums"
      "\<And>i. i < length sums \<Longrightarrow> (0 < sums' ! i \<longleftrightarrow> 0 < sums ! i) \<and> sums' ! i AND 31 = sums ! i AND 31"
  shows "transmits (silk_encode_signs pulses len signalType quantOffsetType sums)
    (silk_decode_signs (concat (map (map abs) blocks)) len signalType quantOffsetType sums') (concat blocks)"
proof -
  let ?t = "\<lambda>s. sign_table (sign_icdf_ptr signalType quantOffsetType) s"
  let ?e = "\<lambda>i enc. if sums ! i > 0 then fold (encode_sign (?t (sums ! i))) (shell_block pulses i) enc else enc"
  let ?q = "shell_block (concat (map (map abs) blocks))"
  let ?d = "\<lambda>i dec. if sums' ! i > 0 then dec_seq (decode_sign (?t (sums' ! i))) (?q i) dec else (?q i, dec)"
  let ?n = "length blocks"
  have l: "length scs = ?n" "length sums = ?n" using ok sums(1) by (simp_all add: list_all2_lengthD)
  have b16: "\<forall>b\<in>set blocks. length b = 16"
    using ok by (auto simp: list_all2_conv_all_nth in_set_conv_nth scaled_ok_def case_prod_beta)
  have "transmits (?e ([0..<?n] ! i)) (?d ([0..<?n] ! i)) (blocks ! i)" if "i < length [0..<?n]" for i
  proof -
    have i: "i < ?n" using that by simp
    obtain pp n sm where sc: "scs ! i = (pp, n, sm)" by (cases "scs ! i")
    have s: "scaled_ok (blocks ! i) (pp, n, sm)" "sums ! i = sm" using ok i l sc sums(1) by (auto simp: list_all2_conv_all_nth)
    have q: "?q i = map abs (blocks ! i)" using i b16 by (subst shell_block_concat) auto
    have e: "?t (sums' ! i) = ?t (sums ! i)" using sums(3) [of i] i l by (simp add: sign_table_def)
    obtain x where x: "?t (sums ! i) = [x, 0]" "0 < x" "x < 256" using sign_table_ok [OF st] by blast
    have "transmits (\<lambda>enc. if sm > 0 then fold (encode_sign [x, 0]) (blocks ! i) enc else enc)
      (\<lambda>dec. if sums' ! i > 0 then dec_seq (decode_sign [x, 0]) (map abs (blocks ! i)) dec else (map abs (blocks ! i), dec)) (blocks ! i)"
      using sums(3) [of i] i l s by (intro transmits_sign_stage [OF s(1) _ x(2,3)]) auto
    moreover have ni: "[0..<?n] ! i = i" using i by simp
    ultimately show ?thesis unfolding ni q e p [OF i] x(1) [unfolded s(2)] s(2) by blast
  qed
  then have "transmits (fold ?e [0..<?n]) (dec_seq ?d [0..<?n]) blocks" by (intro transmits_each) simp_all
  then have "transmits (fold ?e [0..<?n]) (\<lambda>d. case dec_seq ?d [0..<?n] d of
      (bs, d) \<Rightarrow> (concat bs @ drop (16 * ?n) (concat (map (map abs) blocks)), d)) (concat blocks)"
  proof (rule transmits_map)
    have "length (concat (map (map abs) blocks)) = 16 * ?n" using b16 by (induction blocks) auto
    then show "concat blocks = concat blocks @ drop (16 * ?n) (concat (map (map abs) blocks))" by simp
  qed
  then show ?thesis
    by (rule transmits_cong)
      (simp_all add: silk_encode_signs_def silk_decode_signs_def LOG2_SHELL_CODEC_FRAME_LENGTH_def SHELL_CODEC_FRAME_LENGTH_def len Let_def)
qed

lemma marked_sum:
  assumes "0 \<le> sm" "sm \<le> 16" "0 < n \<longrightarrow> 0 < sm"
  shows "(0 < (if 0 < n then sm OR push_bit 5 (int n) else sm)) = (0 < sm) \<and> (if 0 < n then sm OR push_bit 5 (int n) else sm) AND 31 = sm AND 31"
proof -
  define w where "w = sm OR push_bit 5 (int n)"
  have "take_bit 5 w = take_bit 5 sm" by (simp add: w_def take_bit_or take_bit_push_bit)
  moreover have "take_bit 5 sm = sm" using assms by (simp add: take_bit_int_eq_self_iff)
  moreover have "0 \<le> w" using assms(1) by (simp add: w_def)
  ultimately have "0 < w \<longleftrightarrow> 0 < sm \<or> 0 < w" "w AND 31 = sm AND 31" "0 < sm \<Longrightarrow> 0 < w"
    by (auto simp: order_le_less take_bit_eq_mask mask_eq_exp_minus_1)
  then show ?thesis using assms(3) unfolding w_def by auto
qed


text \<open>The pulses of a frame as the decoder returns them: whole blocks.\<close>

definition pulse_frame :: "int list \<Rightarrow> int \<Rightarrow> int list" where
  "pulse_frame pulses frame_length = take (16 * shell_iter frame_length) (shell_pad pulses frame_length)"

definition pulse_frame_ok :: "int \<Rightarrow> int \<Rightarrow> int \<Rightarrow> int list \<Rightarrow> bool" where
  "pulse_frame_ok signalType quantOffsetType frame_length pulses \<longleftrightarrow>
    signalType \<in> {0, 1, 2} \<and> quantOffsetType \<in> {0, 1} \<and>
    0 \<le> frame_length \<and> (frame_length mod 16 = 0 \<or> frame_length = 120) \<and>
    frame_length \<le> int (length pulses) \<and> list_all (\<lambda>x. - 128 \<le> x \<and> x \<le> 127) pulses"

lemma shell_iter_eq:
  assumes "0 \<le> frame_length" "frame_length mod 16 = 0 \<or> frame_length = 120"
  shows "shell_iter frame_length = nat (drop_bit 4 (frame_length + 8))" "frame_length \<le> 16 * int (shell_iter frame_length)"
    "16 * int (shell_iter frame_length) \<le> frame_length + 8"
  using assms by (auto simp: shell_iter_def Let_def LOG2_SHELL_CODEC_FRAME_LENGTH_def SHELL_CODEC_FRAME_LENGTH_def shift_arith)

lemma shell_pad_props:
  assumes "pulse_frame_ok signalType quantOffsetType frame_length pulses"
  shows "16 * shell_iter frame_length \<le> length (shell_pad pulses frame_length)"
    "list_all (\<lambda>x. - 128 \<le> x \<and> x \<le> 127) (shell_pad pulses frame_length)"
proof -
  have f: "0 \<le> frame_length" "frame_length mod 16 = 0 \<or> frame_length = 120" "frame_length \<le> int (length pulses)"
    "list_all (\<lambda>x. - 128 \<le> x \<and> x \<le> 127) pulses"
    using assms by (simp_all add: pulse_frame_ok_def)
  show "16 * shell_iter frame_length \<le> length (shell_pad pulses frame_length)"
    using shell_iter_eq [OF f(1,2)] f by (auto simp: shell_pad_def Let_def)
  show "list_all (\<lambda>x. - 128 \<le> x \<and> x \<le> 127) (shell_pad pulses frame_length)"
    using f(4) by (auto simp: shell_pad_def Let_def list_all_iff dest: in_set_takeD)
qed

lemma concat_blocks: "16 * n \<le> length p \<Longrightarrow> concat (map (shell_block p) [0..<n]) = take (16 * n) p"
proof (induction n)
  case (Suc n)
  then show ?case using take_add [of "16 * n" 16 p] by (simp add: shell_block_def add.commute [of 16])
qed simp

lemma scaled_blocks_ok:
  assumes "\<forall>b\<in>set bs. length b = 16 \<and> (\<forall>x\<in>set b. - 128 \<le> x \<and> x \<le> 127)"
  shows "list_all2 scaled_ok bs (scale_blocks comb (map (map abs) bs))"
proof -
  have "list_all2 (\<lambda>b (p, n, sm). p = map (drop_bit n) b \<and> sm = block_sum p \<and> n \<le> 7 \<and> sm \<le> 16 \<and> (0 < n \<longrightarrow> 0 < sm))
      (map (map abs) bs) (scale_blocks comb (map (map abs) bs))"
    using assms by (intro scale_blocks_eq) force
  then show ?thesis using assms
    by (auto simp: list_all2_conv_all_nth scaled_ok_def case_prod_beta block_sum_eq)
qed

text \<open>The stages of the two functions after the rate level is known.\<close>

lemma transmits_stages:
  assumes ok: "list_all2 scaled_ok blocks scs" and r: "r < 10"
  defines "ns \<equiv> map snd scs"
  shows "transmits (fold (encode_sum (silk_pulses_per_block_iCDF ! r)) ns)
      (dec_seq (\<lambda>_. decode_sum (silk_pulses_per_block_iCDF ! r)) [0..<length blocks]) ns"
    "transmits (fold (\<lambda>(p, n, sm) enc. if sm > 0 then silk_shell_encoder p enc else enc) scs)
      (dec_seq (\<lambda>(n, sm) dec. if sm > 0 then silk_shell_decoder sm dec else (replicate 16 0, dec)) ns) (map fst scs)"
    "transmits (fold (\<lambda>(b, p, n, sm) enc. if n > 0 then fold (\<lambda>q. encode_lsbs n (i8 \<bar>q\<bar>)) b enc else enc) (zip blocks scs))
      (dec_seq (\<lambda>((n, sm), b) dec. if n > 0 then dec_seq (decode_lsbs n) b dec else (b, dec)) (zip ns (map fst scs)))
      (map (map abs) blocks)"
proof -
  have l: "length scs = length blocks" using ok by (simp add: list_all2_lengthD)
  have s: "scaled_ok (blocks ! i) (fst (scs ! i), fst (snd (scs ! i)), snd (snd (scs ! i)))" if "i < length blocks" for i
    using ok that by (simp add: list_all2_conv_all_nth)
  show "transmits (fold (encode_sum (silk_pulses_per_block_iCDF ! r)) ns)
      (dec_seq (\<lambda>_. decode_sum (silk_pulses_per_block_iCDF ! r)) [0..<length blocks]) ns"
  proof (rule transmits_each)
    fix i assume i: "i < length ns"
    obtain p n sm where sc: "scs ! i = (p, n, sm)" by (cases "scs ! i")
    then have "scaled_ok (blocks ! i) (p, n, sm)" using s [of i] i l by (simp add: ns_def)
    then have "0 \<le> sm" "sm \<le> 16" "n \<le> 9" by (auto simp: scaled_ok_def intro!: sum_list_nonneg)
    then have "transmits (encode_sum (silk_pulses_per_block_iCDF ! r) (n, sm)) (decode_sum (silk_pulses_per_block_iCDF ! r)) (n, sm)"
      by (rule transmits_sum [OF r])
    then show "transmits (encode_sum (silk_pulses_per_block_iCDF ! r) (ns ! i)) (decode_sum (silk_pulses_per_block_iCDF ! r)) (ns ! i)"
      using i sc by (simp add: ns_def)
  qed (simp_all add: ns_def l)
  show "transmits (fold (\<lambda>(p, n, sm) enc. if sm > 0 then silk_shell_encoder p enc else enc) scs)
      (dec_seq (\<lambda>(n, sm) dec. if sm > 0 then silk_shell_decoder sm dec else (replicate 16 0, dec)) ns) (map fst scs)"
    using transmits_shell_stage [OF s] l by (intro transmits_each) (simp_all add: ns_def case_prod_beta)
  show "transmits (fold (\<lambda>(b, p, n, sm) enc. if n > 0 then fold (\<lambda>q. encode_lsbs n (i8 \<bar>q\<bar>)) b enc else enc) (zip blocks scs))
      (dec_seq (\<lambda>((n, sm), b) dec. if n > 0 then dec_seq (decode_lsbs n) b dec else (b, dec)) (zip ns (map fst scs)))
      (map (map abs) blocks)"
    using transmits_lsb_stage [OF s] l by (intro transmits_each) (simp_all add: ns_def case_prod_beta cong: if_cong)
qed

lemma transmits_silk_pulses:
  assumes ok: "pulse_frame_ok signalType quantOffsetType frame_length pulses"
  shows "transmits (silk_encode_pulses signalType quantOffsetType pulses frame_length)
    (silk_decode_pulses signalType quantOffsetType frame_length) (pulse_frame pulses frame_length)"
proof -
  define p where "p = shell_pad pulses frame_length"
  define iter where "iter = shell_iter frame_length"
  define blocks where "blocks = map (shell_block p) [0..<iter]"
  define scs where "scs = scale_blocks (replicate 8 0) (map (map abs) blocks)"
  define ns where "ns = map snd scs"
  define r where "r = rate_level signalType ns"
  define marked where "marked = (\<lambda>ns :: (nat \<times> int) list. map (\<lambda>(n, sm). if n > 0 then sm OR push_bit 5 (int n) else sm) ns)"
  have st: "signalType \<in> {0, 1, 2}" "quantOffsetType \<in> {0, 1}" and fl: "0 \<le> frame_length" "frame_length mod 16 = 0 \<or> frame_length = 120"
    using ok by (simp_all add: pulse_frame_ok_def)
  have n: "length blocks = iter" "16 * iter \<le> length p" by (simp_all add: blocks_def p_def iter_def shell_pad_props [OF ok])
  have "\<forall>b\<in>set blocks. length b = 16 \<and> (\<forall>x\<in>set b. - 128 \<le> x \<and> x \<le> 127)"
    using n(2) shell_pad_props(2) [OF ok, folded p_def]
    by (auto simp: blocks_def shell_block_def list_all_iff dest!: in_set_takeD in_set_dropD)
  then have sc: "list_all2 scaled_ok blocks scs" unfolding scs_def by (rule scaled_blocks_ok)
  have pf: "pulse_frame pulses frame_length = concat blocks"
    using n(2) by (simp add: blocks_def concat_blocks pulse_frame_def p_def iter_def)
  have r: "r < 10" using rate_level_less [of signalType ns] by (simp add: r_def)
  note stages = transmits_stages [OF sc r, folded ns_def]
  let ?d5 = "\<lambda>ns bs. silk_decode_signs (concat bs) frame_length signalType quantOffsetType (marked ns)"
  let ?d4 = "\<lambda>ns bs d. case dec_seq (\<lambda>((n, sm), b) dec. if n > 0 then dec_seq (decode_lsbs n) b dec else (b, dec)) (zip ns bs) d of
    (bs, d) \<Rightarrow> ?d5 ns bs d"
  let ?d3 = "\<lambda>ns d. case dec_seq (\<lambda>(n, sm) dec. if sm > 0 then silk_shell_decoder sm dec else (replicate 16 0, dec)) ns d of
    (bs, d) \<Rightarrow> ?d4 ns bs d"
  let ?d2 = "\<lambda>r d. case dec_seq (\<lambda>_. decode_sum (silk_pulses_per_block_iCDF ! nat r)) [0..<iter] d of (ns, d) \<Rightarrow> ?d3 ns d"
  have "transmits (silk_encode_signs p frame_length signalType quantOffsetType (map snd ns)) (?d5 ns (map (map abs) blocks)) (concat blocks)"
    using st
  proof (rule transmits_signs)
    show "nat (drop_bit 4 (frame_length + 8)) = length blocks" using shell_iter_eq(1) [OF fl] n by (simp add: iter_def)
    show "map snd ns = map (\<lambda>(p, n, sm). sm) scs" by (simp add: ns_def case_prod_beta)
    fix i assume i: "i < length (map snd ns)"
    obtain q k sm where sci: "scs ! i = (q, k, sm)" by (cases "scs ! i")
    then have "scaled_ok (blocks ! i) (q, k, sm)" using sc i by (auto simp: list_all2_conv_all_nth ns_def)
    then have "0 \<le> sm" "sm \<le> 16" "0 < k \<longrightarrow> 0 < sm" by (auto simp: scaled_ok_def intro!: sum_list_nonneg)
    from marked_sum [OF this] show "(0 < marked ns ! i \<longleftrightarrow> 0 < map snd ns ! i) \<and> marked ns ! i AND 31 = map snd ns ! i AND 31"
      using i sci by (simp add: marked_def ns_def)
  qed (use sc in \<open>simp_all add: marked_def blocks_def\<close>)
  from transmits_bind [OF stages(3), where ?dec2.0 = "?d5 ns", OF this]
  have 3: "transmits (\<lambda>s. silk_encode_signs p frame_length signalType quantOffsetType (map snd ns)
      (fold (\<lambda>(b, p, n, sm) enc. if n > 0 then fold (\<lambda>q. encode_lsbs n (i8 \<bar>q\<bar>)) b enc else enc) (zip blocks scs) s))
      (?d4 ns (map fst scs)) (concat blocks)" .
  note 2 = transmits_bind [OF stages(2), where ?dec2.0 = "?d4 ns", OF 3]
  from transmits_bind [OF stages(1), where ?dec2.0 = ?d3, OF 2]
  have 1: "transmits (\<lambda>s. silk_encode_signs p frame_length signalType quantOffsetType (map snd ns)
      (fold (\<lambda>(b, p, n, sm) enc. if n > 0 then fold (\<lambda>q. encode_lsbs n (i8 \<bar>q\<bar>)) b enc else enc) (zip blocks scs)
      (fold (\<lambda>(p, n, sm) enc. if sm > 0 then silk_shell_encoder p enc else enc) scs
      (fold (encode_sum (silk_pulses_per_block_iCDF ! r)) ns s)))) (?d2 (int r)) (concat blocks)"
    by (simp only: n nat_int)
  from transmits_bind [OF transmits_rate_level [OF st(1), where ns = ns, folded r_def], where ?dec2.0 = ?d2, OF 1]
  show ?thesis unfolding pf
    by (rule transmits_cong)
      (simp_all add: silk_encode_pulses_def silk_decode_pulses_def Let_def p_def iter_def blocks_def scs_def ns_def r_def marked_def case_prod_beta)
qed

section \<open>Decoding an arbitrary stream\<close>

lemma yields_split:
  assumes "shell_split_ok table" "0 \<le> p" "p \<le> 16"
  shows "yields (decode_split p table) (\<lambda>(a, b). 0 \<le> a \<and> 0 \<le> b \<and> a + b = p)"
proof (cases "p > 0")
  case True
  let ?t = "icdf_at table (silk_shell_code_table_offsets ! nat p)"
  have "nat p \<in> set [1..<17]" using True assms by auto
  then have "icdf8 (nat p + 1) ?t"
    using assms(1) unfolding shell_split_ok_def list_all_iff Let_def by blast
  then have "yields (ec_dec_icdf ?t 8) (\<lambda>k. 0 \<le> k \<and> k < int (nat p + 1))" by (rule yields_icdf8)
  then have "yields (\<lambda>d. case ec_dec_icdf ?t 8 d of (c, d) \<Rightarrow> ((i16 c, i16 (p - i16 c)), d)) (\<lambda>(a, b). 0 \<le> a \<and> 0 \<le> b \<and> a + b = p)"
    by (rule yields_map) (use assms in auto)
  then show ?thesis by (rule yields_cong) (use True in \<open>simp add: decode_split_def\<close>)
next
  case False
  then show ?thesis using assms by (intro yields_cong [OF yields_return [where x = "(0, 0)"]]) (auto simp: decode_split_def)
qed

text \<open>A subtree of the shell code with \<open>n\<close> leaves.\<close>

definition shell_leaves :: "nat \<Rightarrow> int \<Rightarrow> int list \<Rightarrow> bool" where
  "shell_leaves n p xs \<longleftrightarrow> length xs = n \<and> (\<forall>x\<in>set xs. 0 \<le> x \<and> x \<le> p)"

lemma shell_leaves_append: "shell_leaves n a xs \<Longrightarrow> shell_leaves n b ys \<Longrightarrow> 0 \<le> a \<Longrightarrow> 0 \<le> b \<Longrightarrow> shell_leaves (2 * n) (a + b) (xs @ ys)"
  by (fastforce simp: shell_leaves_def)

lemma yields_tree:
  assumes t: "shell_split_ok table" "0 \<le> p" "p \<le> 16"
    and sub: "\<And>q. 0 \<le> q \<Longrightarrow> q \<le> 16 \<Longrightarrow> yields (f q) (shell_leaves n q)"
  shows "yields (\<lambda>d. case decode_split p table d of ((a, b), d) \<Rightarrow> case f a d of (xs, d) \<Rightarrow> case f b d of (ys, d) \<Rightarrow> (xs @ ys, d))
    (shell_leaves (2 * n) p)"
proof -
  let ?g = "\<lambda>(a, b) d. case f a d of (xs, d) \<Rightarrow> case f b d of (ys, d) \<Rightarrow> (xs @ ys, d)"
  have "yields (?g x) (shell_leaves (2 * n) p)" if "case x of (a, b) \<Rightarrow> 0 \<le> a \<and> 0 \<le> b \<and> a + b = p" for x
  proof -
    obtain a b where ab: "x = (a, b)" by (cases x)
    then have x: "x = (a, b)" "0 \<le> a" "0 \<le> b" "a + b = p" using that by simp_all
    have f: "yields (f a) (shell_leaves n a)" "yields (f b) (shell_leaves n b)" using sub x t by auto
    have "yields (\<lambda>d. case f b d of (ys, d) \<Rightarrow> (xs @ ys, d)) (shell_leaves (2 * n) p)" if "shell_leaves n a xs" for xs
      using f(2) by (rule yields_map) (use shell_leaves_append [OF that] x in blast)
    with f(1) have "yields (\<lambda>d. case f a d of (xs, d) \<Rightarrow> case f b d of (ys, d) \<Rightarrow> (xs @ ys, d)) (shell_leaves (2 * n) p)"
      by (rule yields_bind)
    then show ?thesis by (simp add: x(1))
  qed
  with yields_split [OF t] have "yields (\<lambda>d. case decode_split p table d of (x, d) \<Rightarrow> ?g x d) (shell_leaves (2 * n) p)"
    by (rule yields_bind)
  then show ?thesis by (rule yields_cong) (simp add: case_prod_beta)
qed

lemma yields_shell:
  assumes "0 \<le> p" "p \<le> 16"
  shows "yields (silk_shell_decoder p) (shell_leaves 16 p)"
proof -
  have 1: "yields (\<lambda>d. case decode_split q silk_shell_code_table0 d of ((a, b), d) \<Rightarrow> ([a, b], d)) (shell_leaves 2 q)"
    if "0 \<le> q" "q \<le> 16" for q
  proof -
    have "yields (\<lambda>d. case decode_split q silk_shell_code_table0 d of (x, d) \<Rightarrow> ([fst x, snd x], d)) (shell_leaves 2 q)"
      using yields_split [OF shell_tables_ok(1) that] by (rule yields_map) (auto simp: shell_leaves_def)
    then show ?thesis by (simp add: case_prod_beta)
  qed
  have 2: "yields (shell_decode_quad q) (shell_leaves 4 q)" if "0 \<le> q" "q \<le> 16" for q
  proof -
    have "yields (\<lambda>d. case decode_split q silk_shell_code_table1 d of ((a, b), d) \<Rightarrow>
        case (case decode_split a silk_shell_code_table0 d of ((a, b), d) \<Rightarrow> ([a, b], d)) of (xs, d) \<Rightarrow>
        case (case decode_split b silk_shell_code_table0 d of ((a, b), d) \<Rightarrow> ([a, b], d)) of (ys, d) \<Rightarrow> (xs @ ys, d)) (shell_leaves (2 * 2) q)"
      by (rule yields_tree [OF shell_tables_ok(2) that]) (rule 1)
    then show ?thesis by (simp add: shell_decode_quad_def [abs_def] case_prod_beta Let_def)
  qed
  have 3: "yields (shell_decode_half q) (shell_leaves (2 * 4) q)" if "0 \<le> q" "q \<le> 16" for q
    using yields_tree [where f = shell_decode_quad and n = 4, OF shell_tables_ok(3) that 2]
    by (simp add: shell_decode_half_def [abs_def] case_prod_beta Let_def)
  have "yields (silk_shell_decoder p) (shell_leaves (2 * (2 * 4)) p)"
    using yields_tree [where f = shell_decode_half and n = "2 * 4", OF shell_tables_ok(4) assms 3]
    by (simp add: silk_shell_decoder_def [abs_def] case_prod_beta Let_def)
  then show ?thesis by simp
qed

lemma yields_sum_loop:
  "\<lbrakk>n + fuel = 10; 0 \<le> sm; sm \<le> (if fuel = 0 then 16 else 17)\<rbrakk> \<Longrightarrow>
    yields (decode_sum_loop fuel n sm) (\<lambda>(n, sm). n \<le> 10 \<and> 0 \<le> sm \<and> sm \<le> 16)"
proof (induction fuel arbitrary: n sm)
  case 0
  then show ?case by (intro yields_cong [OF yields_return [where x = "(n, sm)"]]) auto
next
  case (Suc fuel)
  let ?t = "silk_pulses_per_block_iCDF ! 9"
  let ?u = "if n + 1 = 10 then drop 1 ?t else ?t"
  show ?case
  proof (cases "sm = 17")
    case True
    have "icdf8 18 ?t" using pulses_tables_ok(1,2) by (simp add: list_all_length)
    moreover have "icdf8 17 (drop 1 ?t)" by code_simp
    ultimately have "icdf8 (if n + 1 = 10 then 17 else 18) ?u" by simp
    from yields_icdf8 [OF this]
    have "yields (\<lambda>d. case ec_dec_icdf ?u 8 d of (sm, d) \<Rightarrow> decode_sum_loop fuel (n + 1) sm d) (\<lambda>(n, sm). n \<le> 10 \<and> 0 \<le> sm \<and> sm \<le> 16)"
      by (rule yields_bind, intro Suc.IH) (use Suc.prems(1) in \<open>auto split: if_splits\<close>)
    then show ?thesis
      by (rule yields_cong) (use True in \<open>simp add: SILK_MAX_PULSES_def N_RATE_LEVELS_def Let_def\<close>)
  next
    case False
    then show ?thesis using Suc.prems
      by (intro yields_cong [OF yields_return [where x = "(n, sm)"]]) (auto simp: SILK_MAX_PULSES_def)
  qed
qed

lemma yields_sum:
  assumes "icdf8 18 t"
  shows "yields (decode_sum t) (\<lambda>(n, sm). n \<le> 10 \<and> 0 \<le> sm \<and> sm \<le> 16)"
proof -
  have "yields (\<lambda>d. case ec_dec_icdf t 8 d of (sm, d) \<Rightarrow> decode_sum_loop 10 0 sm d) (\<lambda>(n, sm). n \<le> 10 \<and> 0 \<le> sm \<and> sm \<le> 16)"
    using yields_icdf8 [OF assms] by (rule yields_bind) (rule yields_sum_loop, auto)
  then show ?thesis by (rule yields_cong) (simp add: decode_sum_def)
qed

lemma yields_lsbs:
  assumes "0 \<le> q" "2 ^ n * (q + 1) \<le> 32768"
  shows "yields (decode_lsbs n q) (\<lambda>x. 0 \<le> x \<and> x < 2 ^ n * (q + 1))"
  using assms
proof (induction n arbitrary: q)
  case 0
  then show ?case by (intro yields_cong [OF yields_return [where x = q]]) auto
next
  case (Suc n)
  have "icdf8 2 silk_lsb_iCDF" by code_simp
  from yields_icdf8 [OF this]
  have "yields (\<lambda>d. case ec_dec_icdf silk_lsb_iCDF 8 d of (b, d) \<Rightarrow> decode_lsbs n (push_bit 1 q + b) d) (\<lambda>x. 0 \<le> x \<and> x < 2 ^ Suc n * (q + 1))"
  proof (rule yields_bind)
    fix b :: int assume b: "0 \<le> b \<and> b < int 2"
    have "2 ^ n * (push_bit 1 q + b + 1) \<le> 2 ^ n * (2 * (q + 1))" using b by (intro mult_left_mono) (auto simp: push_bit_mult)
    then have m: "2 ^ n * (push_bit 1 q + b + 1) \<le> 2 ^ Suc n * (q + 1)" by (simp add: algebra_simps)
    have "yields (decode_lsbs n (push_bit 1 q + b)) (\<lambda>x. 0 \<le> x \<and> x < 2 ^ n * (push_bit 1 q + b + 1))"
    proof (rule Suc.IH)
      show "2 ^ n * (push_bit 1 q + b + 1) \<le> 32768" using m Suc.prems(2) by (rule order_trans)
    qed (use b Suc.prems(1) in \<open>simp add: push_bit_mult\<close>)
    then show "yields (decode_lsbs n (push_bit 1 q + b)) (\<lambda>x. 0 \<le> x \<and> x < 2 ^ Suc n * (q + 1))"
      by (rule yields_mono) (use m in linarith)
  qed
  then show ?case by (rule yields_cong) (simp add: Let_def)
qed

lemma yields_sign:
  assumes "0 < x" "x < 256" "0 \<le> q" "q < 32768"
  shows "yields (decode_sign [x, 0] q) (\<lambda>y. \<bar>y\<bar> = q)"
proof (cases "q > 0")
  case True
  have "icdf8 2 [x, 0]" using assms by (simp add: icdf8_def)
  from yields_icdf8 [OF this] have "yields (\<lambda>d. case ec_dec_icdf [x, 0] 8 d of (b, d) \<Rightarrow> (i16 (q * silk_dec_map b), d)) (\<lambda>y. \<bar>y\<bar> = q)"
  proof (rule yields_map)
    fix b :: int assume "0 \<le> b \<and> b < int 2"
    then have "b = 0 \<or> b = 1" by auto
    then show "\<bar>i16 (q * silk_dec_map b)\<bar> = q" using assms by (auto simp: silk_dec_map_def)
  qed
  then show ?thesis by (rule yields_cong) (use True in \<open>simp add: decode_sign_def\<close>)
next
  case False
  then show ?thesis using assms by (intro yields_cong [OF yields_return [where x = 0]]) (auto simp: decode_sign_def)
qed

lemma list_all2_const: "list_all2 (\<lambda>_. P) xs ys \<longleftrightarrow> length ys = length xs \<and> (\<forall>y\<in>set ys. P y)"
  by (auto simp: list_all2_conv_all_nth all_set_conv_all_nth)

lemma shell_block_in: "shell_block xs i = ys \<Longrightarrow> x \<in> set ys \<Longrightarrow> x \<in> set xs"
  by (auto simp: shell_block_def dest: in_set_takeD in_set_dropD)

lemma length_concat_const: "\<forall>b\<in>set bs. length b = n \<Longrightarrow> length (concat bs) = n * length bs"
  by (induction bs) auto

text \<open>Signs are attached in place: magnitudes and length stay.\<close>

lemma yields_signs:
  assumes st: "signalType \<in> {0, 1, 2}" "quantOffsetType \<in> {0, 1}"
    and p: "\<forall>x\<in>set pulses. 0 \<le> x \<and> x < m" "m \<le> 32768" and len: "16 * nat (drop_bit 4 (len + 8)) \<le> length pulses"
  shows "yields (silk_decode_signs pulses len signalType quantOffsetType sums)
    (\<lambda>ys. length ys = length pulses \<and> (\<forall>y\<in>set ys. \<bar>y\<bar> < m))"
proof -
  let ?t = "sign_table (sign_icdf_ptr signalType quantOffsetType)"
  let ?n = "nat (drop_bit 4 (len + 8))"
  let ?P = "\<lambda>ys. length ys = 16 \<and> (\<forall>y\<in>set ys. \<bar>y\<bar> < m)"
  let ?d = "\<lambda>i dec. if sums ! i > 0 then dec_seq (decode_sign (?t (sums ! i))) (shell_block pulses i) dec else (shell_block pulses i, dec)"
  have d: "yields (?d i) ?P" if "i \<in> set [0..<?n]" for i
  proof -
    have "16 * Suc i \<le> 16 * ?n" using that by auto
    then have l: "length (shell_block pulses i) = 16" using len by (simp add: shell_block_def)
    have q: "\<forall>x\<in>set (shell_block pulses i). 0 \<le> x \<and> x < m" using p(1) by (auto dest: shell_block_in [OF refl])
    obtain x where x: "?t (sums ! i) = [x, 0]" "0 < x" "x < 256" using sign_table_ok [OF st] by blast
    have "yields (dec_seq (decode_sign [x, 0]) (shell_block pulses i)) (list_all2 (\<lambda>q y. \<bar>y\<bar> = q) (shell_block pulses i))"
      using q p(2) by (intro yields_seq yields_sign x(2,3)) auto
    then have "yields (dec_seq (decode_sign [x, 0]) (shell_block pulses i)) ?P"
      by (rule yields_mono) (use l q in \<open>auto simp: list_all2_conv_all_nth all_set_conv_all_nth\<close>)
    moreover have "?P (shell_block pulses i)" using l q by auto
    ultimately show ?thesis unfolding x(1) by (intro yields_if yields_return)
  qed
  have "yields (dec_seq ?d [0..<?n]) (list_all2 (\<lambda>_. ?P) [0..<?n])" using d by (rule yields_seq)
  then have "yields (\<lambda>dec. case dec_seq ?d [0..<?n] dec of (bs, dec) \<Rightarrow> (concat bs @ drop (16 * ?n) pulses, dec))
      (\<lambda>ys. length ys = length pulses \<and> (\<forall>y\<in>set ys. \<bar>y\<bar> < m))"
  proof (rule yields_map)
    fix bs assume "list_all2 (\<lambda>_. ?P) [0..<?n] bs"
    then have b: "length bs = ?n" "\<forall>b\<in>set bs. ?P b" unfolding list_all2_const by auto
    then have "length (concat bs) = 16 * ?n" using length_concat_const [of bs 16] by simp
    then show "length (concat bs @ drop (16 * ?n) pulses) = length pulses \<and> (\<forall>y\<in>set (concat bs @ drop (16 * ?n) pulses). \<bar>y\<bar> < m)"
      using b(2) p(1) len by (auto dest!: in_set_dropD)
  qed
  then show ?thesis
    by (rule yields_cong) (simp add: silk_decode_signs_def LOG2_SHELL_CODEC_FRAME_LENGTH_def SHELL_CODEC_FRAME_LENGTH_def Let_def)
qed

lemma lsb_bound:
  assumes "n \<le> 10" "sm \<le> 16" "x \<le> sm"
  shows "2 ^ n * (x + 1) \<le> (17408 :: int)"
proof -
  have "(2::int) ^ n \<le> 2 ^ 10" using assms by (intro power_increasing) auto
  then have "2 ^ n * 17 \<le> (17408 :: int)" by simp
  moreover have "2 ^ n * (x + 1) \<le> 2 ^ n * (17 :: int)" using assms by (intro mult_left_mono) auto
  ultimately show ?thesis by (rule order_trans [rotated])
qed

lemma yields_blocks:
  assumes "list_all (\<lambda>(n, sm). n \<le> 10 \<and> 0 \<le> sm \<and> sm \<le> 16) ns"
  shows "yields (\<lambda>d. case dec_seq (\<lambda>(n, sm) dec. if sm > 0 then silk_shell_decoder sm dec else (replicate 16 0, dec)) ns d of
      (blocks, d) \<Rightarrow> dec_seq (\<lambda>((n, sm), b) dec. if n > 0 then dec_seq (decode_lsbs n) b dec else (b, dec)) (zip ns blocks) d)
    (\<lambda>bs. length bs = length ns \<and> (\<forall>b\<in>set bs. length b = 16 \<and> (\<forall>x\<in>set b. 0 \<le> x \<and> x < 17408)))"
proof -
  let ?sh = "\<lambda>(n, sm) dec. if sm > 0 then silk_shell_decoder sm dec else (replicate 16 0, dec)"
  let ?lsb = "\<lambda>((n, sm), b) dec. if n > 0 then dec_seq (decode_lsbs n) b dec else (b, dec)"
  let ?P = "\<lambda>b. length b = 16 \<and> (\<forall>x\<in>set b. 0 \<le> x \<and> x < 17408)"
  have ns: "n \<le> 10 \<and> 0 \<le> sm \<and> sm \<le> 16" if "(n, sm) \<in> set ns" for n sm
    using assms that by (auto simp: list_all_iff)
  have "yields (?sh x) (shell_leaves 16 (snd x))" if "x \<in> set ns" for x
  proof -
    obtain n sm where x: "x = (n, sm)" by (cases x)
    have "yields (\<lambda>dec. if sm > 0 then silk_shell_decoder sm dec else (replicate 16 0, dec)) (shell_leaves 16 sm)"
      using ns [of n sm] that x by (intro yields_if yields_shell yields_return) (auto simp: shell_leaves_def)
    then show ?thesis by (simp add: x)
  qed
  then have "yields (dec_seq ?sh ns) (list_all2 (\<lambda>x. shell_leaves 16 (snd x)) ns)" by (rule yields_seq)
  then show ?thesis
  proof (rule yields_bind)
    fix bs assume bs: "list_all2 (\<lambda>x. shell_leaves 16 (snd x)) ns bs"
    have "yields (?lsb z) ?P" if z: "z \<in> set (zip ns bs)" for z
    proof -
      obtain n sm b where zz: "z = ((n, sm), b)" by (metis surj_pair)
      have b: "shell_leaves 16 sm b" and nsm: "n \<le> 10" "0 \<le> sm" "sm \<le> 16"
        using bs z ns [of n sm] by (auto simp: zz list_all2_iff dest: set_zip_leftD)
      have q: "0 \<le> q \<and> q \<le> sm" "2 ^ n * (q + 1) \<le> 17408" if "q \<in> set b" for q
        using b that lsb_bound [OF nsm(1,3), of q] by (auto simp: shell_leaves_def)
      have "yields (dec_seq (decode_lsbs n) b) (list_all2 (\<lambda>q x. 0 \<le> x \<and> x < 2 ^ n * (q + 1)) b)"
        using q by (intro yields_seq yields_lsbs) force+
      then have "yields (dec_seq (decode_lsbs n) b) ?P"
      proof (rule yields_mono)
        fix xs assume "list_all2 (\<lambda>q x. 0 \<le> x \<and> x < 2 ^ n * (q + 1)) b xs"
        then have x: "length xs = length b" "\<And>i. i < length b \<Longrightarrow> 0 \<le> xs ! i" "\<And>i. i < length b \<Longrightarrow> xs ! i < 2 ^ n * (b ! i + 1)"
          by (simp_all add: list_all2_conv_all_nth)
        have "xs ! i < 17408" if "i < length b" for i using x(3) [OF that] q(2) [OF nth_mem [OF that]] by (rule order_less_le_trans)
        then show "?P xs" using x(1,2) b by (simp add: all_set_conv_all_nth shell_leaves_def)
      qed
      moreover have "?P b" using b nsm by (auto simp: shell_leaves_def)
      ultimately have "yields (\<lambda>dec. if n > 0 then dec_seq (decode_lsbs n) b dec else (b, dec)) ?P" by (intro yields_if yields_return)
      then show ?thesis by (simp add: zz)
    qed
    then have "yields (dec_seq ?lsb (zip ns bs)) (list_all2 (\<lambda>_. ?P) (zip ns bs))" by (rule yields_seq)
    then show "yields (dec_seq ?lsb (zip ns bs)) (\<lambda>cs. length cs = length ns \<and> (\<forall>b\<in>set cs. ?P b))"
      unfolding list_all2_const by (rule yields_mono) (use bs in \<open>simp add: list_all2_lengthD\<close>)
  qed
qed

lemma yields_pulses:
  assumes st: "signalType \<in> {0, 1, 2}" "quantOffsetType \<in> {0, 1}"
    and fl: "0 \<le> frame_length" "frame_length mod 16 = 0 \<or> frame_length = 120"
  shows "yields (silk_decode_pulses signalType quantOffsetType frame_length)
    (\<lambda>ys. length ys = 16 * shell_iter frame_length \<and> (\<forall>y\<in>set ys. \<bar>y\<bar> < 17408))"
proof -
  let ?Q = "\<lambda>ys. length ys = 16 * shell_iter frame_length \<and> (\<forall>y\<in>set ys. \<bar>y\<bar> < 17408)"
  let ?sums = "\<lambda>ns. map (\<lambda>(n, sm). if n > 0 then sm OR push_bit 5 (int n) else sm) ns"
  let ?b = "\<lambda>ns d. case dec_seq (\<lambda>(n, sm) dec. if sm > 0 then silk_shell_decoder sm dec else (replicate 16 0, dec)) ns d of
      (blocks, d) \<Rightarrow> dec_seq (\<lambda>((n, sm), b) dec. if n > 0 then dec_seq (decode_lsbs n) b dec else (b, dec)) (zip ns blocks) d"
  let ?c = "\<lambda>ns d. case ?b ns d of (bs, d) \<Rightarrow> silk_decode_signs (concat bs) frame_length signalType quantOffsetType (?sums ns) d"
  let ?s = "\<lambda>r. dec_seq (\<lambda>_. decode_sum (silk_pulses_per_block_iCDF ! nat r)) [0..<shell_iter frame_length]"
  let ?S = "\<lambda>(n, sm). n \<le> 10 \<and> 0 \<le> sm \<and> sm \<le> (16 :: int)"
  have c: "yields (?c ns) ?Q" if ns: "list_all2 (\<lambda>_. ?S) [0..<shell_iter frame_length] ns" for ns
  proof -
    have n: "length ns = shell_iter frame_length" "list_all ?S ns" using ns unfolding list_all2_const by (simp_all add: list_all_iff)
    show ?thesis using yields_blocks [OF n(2)]
    proof (rule yields_bind)
      fix bs :: "int list list"
      assume bs: "length bs = length ns \<and> (\<forall>b\<in>set bs. length b = 16 \<and> (\<forall>x\<in>set b. 0 \<le> x \<and> x < 17408))"
      then have l: "length (concat bs) = 16 * shell_iter frame_length" using length_concat_const [of bs 16] n(1) by simp
      have "yields (silk_decode_signs (concat bs) frame_length signalType quantOffsetType (?sums ns))
          (\<lambda>ys. length ys = length (concat bs) \<and> (\<forall>y\<in>set ys. \<bar>y\<bar> < 17408))"
        using bs l by (intro yields_signs [OF st]) (auto simp: shell_iter_eq(1) [OF fl])
      then show "yields (silk_decode_signs (concat bs) frame_length signalType quantOffsetType (?sums ns)) ?Q" unfolding l .
    qed
  qed
  let ?t = "silk_rate_levels_iCDF ! nat (drop_bit 1 signalType)"
  have "nat (drop_bit 1 signalType) < 2" using st by (auto simp: shift_arith)
  then have "icdf8 9 ?t" using pulses_tables_ok(3,4) by (simp add: list_all_length)
  from yields_icdf8 [OF this] have "yields (\<lambda>d. case ec_dec_icdf ?t 8 d of (r, d) \<Rightarrow> case ?s r d of (ns, d) \<Rightarrow> ?c ns d) ?Q"
  proof (rule yields_bind)
    fix r :: int assume "0 \<le> r \<and> r < int 9"
    then have "nat r < 10" by auto
    then have "icdf8 18 (silk_pulses_per_block_iCDF ! nat r)" using pulses_tables_ok(1,2) by (simp add: list_all_length)
    then have "yields (?s r) (list_all2 (\<lambda>_. ?S) [0..<shell_iter frame_length])" by (intro yields_seq yields_sum)
    then show "yields (\<lambda>d. case ?s r d of (ns, d) \<Rightarrow> ?c ns d) ?Q" using c by (rule yields_bind)
  qed
  then show ?thesis by (rule yields_cong) (simp add: silk_decode_pulses_def case_prod_beta Let_def)
qed

section \<open>Results\<close>

text \<open>
  C6. A frame of pulses written by \<open>silk_encode_pulses\<close> is read back by \<open>silk_decode_pulses\<close>: for
  every signal type and quantisation offset, every frame length the codec uses and all 8-bit pulse
  values, \<open>-128\<close> included, the decoder returns the pulses (with a last block that the frame does
  not fill completed by zeros) and stays in step with the encoder.
\<close>

theorem silk_pulses_roundtrip:
  assumes "pulse_frame_ok signalType quantOffsetType frame_length pulses"
    "bytes b" "int (length b) = sz" "sz < 4294967296"
  defines "s \<equiv> silk_encode_pulses signalType quantOffsetType pulses frame_length (ec_enc_init b sz)"
  defines "d \<equiv> silk_decode_pulses signalType quantOffsetType frame_length (ec_dec_init (buf (ec_enc_done s)) sz)"
  assumes "nbits_total s < 2147483648" "error (ec_enc_done s) = 0"
  shows "fst d = pulse_frame pulses frame_length \<and> ec_tell_frac (snd d) = ec_tell_frac s"
proof -
  note r = stream_roundtrip [OF transmits_silk_pulses [OF assms(1)] assms(2-4), folded s_def, OF assms(7,8), folded d_def]
  show ?thesis using r(1) coupled_tell [OF r(2)] by simp
qed

theorem silk_pulses_roundtrip_witness:
  "fst (silk_decode_pulses 1 0 16 (ec_dec_init (buf (ec_enc_done
      (silk_encode_pulses 1 0 [0, 3, - 1, 0, 0, - 9, 0, 0, 0, 0, 0, 0, 0, 0, 0, 0] 16 (ec_enc_init (replicate 40 0) 40)))) 40))
    = [0, 3, - 1, 0, 0, - 9, 0, 0, 0, 0, 0, 0, 0, 0, 0, 0]"
proof -
  let ?p = "[0, 3, - 1, 0, 0, - 9, 0, 0, 0, 0, 0, 0, 0, 0, 0, 0] :: int list"
  let ?s = "silk_encode_pulses 1 0 ?p 16 (ec_enc_init (replicate 40 0) 40)"
  have f: "pulse_frame_ok 1 0 16 ?p" by code_simp
  let ?q = "[0, 1, 0, 0, 0, 4, 0, 0, 0, 0, 0, 0, 0, 0, 0, 0] :: int list"
  have e1: "map (shell_block ?p) [0..<shell_iter 16] = [?p]" "shell_pad ?p 16 = ?p" by code_simp+
  have e2: "scale_blocks (replicate 8 0) (map (map abs) [?p]) = [(?q, 1, 5)]" by code_simp
  have e3: "rate_level 1 [(1, 5)] = 8" by code_simp
  have "?s = silk_encode_signs ?p 16 1 0 [5] (fold (\<lambda>q. encode_lsbs 1 (i8 \<bar>q\<bar>)) ?p (silk_shell_encoder ?q
      (encode_sum (silk_pulses_per_block_iCDF ! 8) (1, 5) (ec_enc_icdf 8 (silk_rate_levels_iCDF ! 0) 8 (ec_enc_init (replicate 40 0) 40)))))"
    unfolding silk_encode_pulses_def Let_def e1 unfolding e2 unfolding list.map snd_conv e3
    by (simp del: replicate.simps fold_simps(2) encode_lsbs.simps add: fold_Cons shift_arith)
  moreover have "nbits_total \<dots> < 2147483648 \<and> error (ec_enc_done \<dots>) = 0" by code_simp
  ultimately have s: "nbits_total ?s < 2147483648 \<and> error (ec_enc_done ?s) = 0" by (simp only:)
  have b: "bytes (replicate 40 0)" "int (length (replicate 40 (0 :: int))) = 40" "(40 :: int) < 4294967296" by simp_all
  have e: "pulse_frame ?p 16 = ?p" by code_simp
  show ?thesis using silk_pulses_roundtrip [OF f b conjunct1 [OF s] conjunct2 [OF s]] unfolding e by (rule conjunct1)
qed

text \<open>
  C19. \<open>silk_decode_pulses\<close> is safe on arbitrary input: from every sound decoder state it fills
  exactly the blocks of the frame, reads at most ten escapes per block, so that every magnitude is
  below 17408 and fits the 16-bit output, and leaves a sound decoder state.
\<close>

theorem silk_decode_pulses_safe:
  assumes "dec_ok d" "signalType \<in> {0, 1, 2}" "quantOffsetType \<in> {0, 1}"
    "0 \<le> frame_length" "frame_length mod 16 = 0 \<or> frame_length = 120"
  defines "r \<equiv> silk_decode_pulses signalType quantOffsetType frame_length d"
  shows "dec_ok (snd r) \<and> length (fst r) = 16 * shell_iter frame_length \<and> list_all (\<lambda>y. - 17408 < y \<and> y < 17408) (fst r)"
  using yieldsD [OF yields_pulses [OF assms(2-5)] assms(1)] unfolding r_def by (auto simp: list_all_iff)

theorem silk_decode_pulses_safe_witness:
  "list_all (\<lambda>y. - 17408 < y \<and> y < 17408) (fst (silk_decode_pulses 2 1 120 (ec_dec_init [0, 17, 3, 255] 4)))"
proof -
  have "dec_ok (ec_dec_init [0, 17, 3, 255] 4)" by code_simp
  then show ?thesis using silk_decode_pulses_safe [of "ec_dec_init [0, 17, 3, 255] 4" 2 1 120] by simp
qed

end
