(* ===== verification/Silk_Stereo.thy ===== *)
theory Silk_Stereo
  imports Silk_Tables Silk_Pulses
begin

text \<open>
  The stereo predictors of SILK (\<open>silk/stereo_quant_pred.c\<close>, \<open>silk/stereo_encode_pred.c\<close>,
  \<open>silk/stereo_decode_pred.c\<close>): quantisation by a search that stops at the first level that is no
  better, and entropy coding of the indices and of the mid-only flag.
\<close>

section \<open>Quantisation\<close>

text \<open>The step is half the distance of two table entries divided by the number of sub-steps, 0.1 in Q16.\<close>

definition stereo_level :: "nat \<Rightarrow> nat \<Rightarrow> int" where
  "stereo_level i j =
    (let low_Q13 = silk_stereo_pred_quant_Q13 ! i;
         step_Q13 = silk_SMULWB (silk_stereo_pred_quant_Q13 ! (i + 1) - low_Q13) 6554
     in silk_SMLABB low_Q13 step_Q13 (2 * int j + 1))"

definition stereo_steps :: "(nat \<times> nat) list" where
  "stereo_steps = List.product [0..<STEREO_QUANT_TAB_SIZE - 1] [0..<nat STEREO_QUANT_SUB_STEPS]"

fun quant_search :: "int \<Rightarrow> (nat \<times> nat) list \<Rightarrow> int \<times> int \<times> nat \<times> nat \<Rightarrow> int \<times> int \<times> nat \<times> nat" where
  "quant_search p [] st = st"
| "quant_search p ((i, j) # steps) (err_min, q, ix0, ix1) =
    (let lvl = stereo_level i j; err = \<bar>p - lvl\<bar>
     in if err < err_min then quant_search p steps (err, lvl, i, j) else (err_min, q, ix0, ix1))"

text \<open>One predictor: the level and the three indices; \<open>q\<close>, \<open>ix0\<close> and \<open>ix1\<close> are the values before the search.\<close>

definition quant_one :: "int \<Rightarrow> int \<Rightarrow> nat \<times> nat \<times> nat \<Rightarrow> int \<times> nat \<times> nat \<times> nat" where
  "quant_one p q ix =
    (let (_, q, i, j) = quant_search p stereo_steps (2147483647, q, fst ix, fst (snd ix))
     in (q, i - i div 3 * 3, j, i div 3))"

definition silk_stereo_quant_pred :: "int \<times> int \<Rightarrow> (nat \<times> nat \<times> nat) \<times> (nat \<times> nat \<times> nat) \<Rightarrow> (int \<times> int) \<times> (nat \<times> nat \<times> nat) \<times> (nat \<times> nat \<times> nat)" where
  "silk_stereo_quant_pred pred ix =
    (let (q0, a) = quant_one (fst pred) 0 (fst ix);
         (q1, b) = quant_one (snd pred) q0 (snd ix)
     in ((q0 - q1, q1), a, b))"

section \<open>Entropy coding\<close>

definition silk_stereo_encode_pred :: "(nat \<times> nat \<times> nat) \<times> (nat \<times> nat \<times> nat) \<Rightarrow> ec_ctx \<Rightarrow> ec_ctx" where
  "silk_stereo_encode_pred ix enc =
    (let ((a0, a1, a2), (b0, b1, b2)) = ix;
         enc = ec_enc_icdf (5 * int a2 + int b2) silk_stereo_pred_joint_iCDF 8 enc;
         enc = ec_enc_icdf (int a1) silk_uniform5_iCDF 8 (ec_enc_icdf (int a0) silk_uniform3_iCDF 8 enc)
     in ec_enc_icdf (int b1) silk_uniform5_iCDF 8 (ec_enc_icdf (int b0) silk_uniform3_iCDF 8 enc))"

definition silk_stereo_encode_mid_only :: "int \<Rightarrow> ec_ctx \<Rightarrow> ec_ctx" where
  "silk_stereo_encode_mid_only mid_only_flag enc = ec_enc_icdf mid_only_flag silk_stereo_only_code_mid_iCDF 8 enc"

definition decode_stereo_pair :: "ec_ctx \<Rightarrow> (int \<times> int) \<times> ec_ctx" where
  "decode_stereo_pair dec =
    (let (i, dec) = ec_dec_icdf silk_uniform3_iCDF 8 dec;
         (j, dec) = ec_dec_icdf silk_uniform5_iCDF 8 dec
     in ((i, j), dec))"

definition dequant_one :: "int \<times> int \<Rightarrow> int \<Rightarrow> int" where
  "dequant_one ij k = stereo_level (nat (fst ij + 3 * k)) (nat (snd ij))"

definition silk_stereo_decode_pred :: "ec_ctx \<Rightarrow> (int \<times> int) \<times> ec_ctx" where
  "silk_stereo_decode_pred dec =
    (let (n, dec) = ec_dec_icdf silk_stereo_pred_joint_iCDF 8 dec;
         a2 = cdiv n 5; b2 = n - 5 * a2;
         (a, dec) = decode_stereo_pair dec;
         (b, dec) = decode_stereo_pair dec;
         q0 = dequant_one a a2; q1 = dequant_one b b2
     in ((q0 - q1, q1), dec))"

definition silk_stereo_decode_mid_only :: "ec_ctx \<Rightarrow> int \<times> ec_ctx" where
  "silk_stereo_decode_mid_only dec = ec_dec_icdf silk_stereo_only_code_mid_iCDF 8 dec"

section \<open>The search finds the nearest level\<close>

text \<open>The levels increase along the steps.\<close>

lemma stereo_levels_sorted: "sorted_wrt (<) (map (\<lambda>(i, j). stereo_level i j) stereo_steps)"
  by code_simp

lemma stereo_levels_range: "list_all (\<lambda>(i, j). - 16384 < stereo_level i j \<and> stereo_level i j < 16384 \<and> i < 15 \<and> j < 5) stereo_steps"
  by code_simp

text \<open>Beyond a level that is no nearer than the one before it, every level is farther.\<close>

lemma quant_search_nearest:
  assumes "sorted_wrt (<) (map (\<lambda>(i, j). stereo_level i j) ((i, j) # steps))"
  shows "\<exists>i' j'. quant_search p steps (\<bar>p - stereo_level i j\<bar>, stereo_level i j, i, j) = (\<bar>p - stereo_level i' j'\<bar>, stereo_level i' j', i', j') \<and>
    (i', j') \<in> set ((i, j) # steps) \<and> (\<forall>(a, b) \<in> set ((i, j) # steps). \<bar>p - stereo_level i' j'\<bar> \<le> \<bar>p - stereo_level a b\<bar>)"
  using assms
proof (induction steps arbitrary: i j)
  case (Cons s steps)
  obtain k l where s: "s = (k, l)" by (cases s)
  have lt: "stereo_level i j < stereo_level k l" "\<forall>(a, b) \<in> set steps. stereo_level k l < stereo_level a b" using Cons.prems s by auto
  show ?case
  proof (cases "\<bar>p - stereo_level k l\<bar> < \<bar>p - stereo_level i j\<bar>")
    case True
    have "sorted_wrt (<) (map (\<lambda>(i, j). stereo_level i j) ((k, l) # steps))" using Cons.prems s by simp
    from Cons.IH [OF this] show ?thesis using True s by (fastforce simp: Let_def)
  next
    case False
    have "\<bar>p - stereo_level i j\<bar> \<le> \<bar>p - stereo_level a b\<bar>" if "(a, b) \<in> set ((i, j) # s # steps)" for a b
    proof -
      have "(a, b) = (i, j) \<or> stereo_level k l \<le> stereo_level a b" using that s lt(2) by auto
      then show ?thesis using False lt(1) by auto
    qed
    then show ?thesis using False s by (auto simp: Let_def)
  qed
qed auto

text \<open>The nearest of all levels.\<close>

definition nearest_level :: "int \<Rightarrow> int \<Rightarrow> bool" where
  "nearest_level p q \<longleftrightarrow> (\<forall>(i, j) \<in> set stereo_steps. \<bar>p - q\<bar> \<le> \<bar>p - stereo_level i j\<bar>)"

definition stereo_ix_ok :: "nat \<times> nat \<times> nat \<Rightarrow> bool" where
  "stereo_ix_ok ix \<longleftrightarrow> (case ix of (a, b, c) \<Rightarrow> a < 3 \<and> b < 5 \<and> c < 5)"

definition ix_level :: "nat \<times> nat \<times> nat \<Rightarrow> int" where
  "ix_level ix = (case ix of (a, b, c) \<Rightarrow> stereo_level (a + 3 * c) b)"

lemma quant_one_nearest:
  assumes "\<bar>p\<bar> < 2147450880"
  shows "nearest_level p (fst (quant_one p q ix))" "stereo_ix_ok (snd (quant_one p q ix))" "fst (quant_one p q ix) = ix_level (snd (quant_one p q ix))"
proof -
  obtain steps where s: "stereo_steps = (0, 0) # steps" by (simp add: stereo_steps_def STEREO_QUANT_TAB_SIZE_def STEREO_QUANT_SUB_STEPS_def upt_rec)
  have "- 16384 < stereo_level 0 0" "stereo_level 0 0 < 16384" using stereo_levels_range by (simp_all add: s)
  then have "\<bar>p - stereo_level 0 0\<bar> < 2147483647" using assms by linarith
  then have e: "quant_search p stereo_steps (2147483647, q, fst ix, fst (snd ix)) = quant_search p steps (\<bar>p - stereo_level 0 0\<bar>, stereo_level 0 0, 0, 0)"
    by (simp add: s Let_def)
  obtain i j where ij: "quant_search p steps (\<bar>p - stereo_level 0 0\<bar>, stereo_level 0 0, 0, 0) = (\<bar>p - stereo_level i j\<bar>, stereo_level i j, i, j)"
      "(i, j) \<in> set stereo_steps" "\<forall>(a, b) \<in> set stereo_steps. \<bar>p - stereo_level i j\<bar> \<le> \<bar>p - stereo_level a b\<bar>"
    using quant_search_nearest [of 0 0 steps p] stereo_levels_sorted unfolding s by blast
  have "i < 15" "j < 5" using stereo_levels_range ij(2) by (auto simp: list_all_iff)
  moreover have "quant_one p q ix = (stereo_level i j, i - i div 3 * 3, j, i div 3)" by (simp add: quant_one_def e ij(1))
  moreover have "i - i div 3 * 3 + 3 * (i div 3) = i" "i - i div 3 * 3 < 3" by (simp_all add: minus_div_mult_eq_mod)
  ultimately show "nearest_level p (fst (quant_one p q ix))" "stereo_ix_ok (snd (quant_one p q ix))" "fst (quant_one p q ix) = ix_level (snd (quant_one p q ix))"
    using ij(3) by (auto simp: nearest_level_def stereo_ix_ok_def ix_level_def)
qed

section \<open>Round trip\<close>

lemma stereo_tables_ok: "icdf8 25 silk_stereo_pred_joint_iCDF" "icdf8 3 silk_uniform3_iCDF" "icdf8 5 silk_uniform5_iCDF" "icdf8 2 silk_stereo_only_code_mid_iCDF"
  by code_simp+

lemma transmits_stereo_pair:
  assumes "a < 3" "b < 5"
  shows "transmits (\<lambda>s. ec_enc_icdf (int b) silk_uniform5_iCDF 8 (ec_enc_icdf (int a) silk_uniform3_iCDF 8 s)) decode_stereo_pair (int a, int b)"
proof -
  let ?D = "\<lambda>i d. case ec_dec_icdf silk_uniform5_iCDF 8 d of (j, d) \<Rightarrow> ((i, j), d)"
  have 1: "transmits (ec_enc_icdf (int a) silk_uniform3_iCDF 8) (ec_dec_icdf silk_uniform3_iCDF 8) (int a)"
    using assms by (intro transmits_icdf8 [OF stereo_tables_ok(2)]) auto
  have 2: "transmits (ec_enc_icdf (int b) silk_uniform5_iCDF 8) (?D (int a)) (int a, int b)"
    using assms by (intro transmits_map [OF transmits_icdf8 [OF stereo_tables_ok(3)]]) auto
  show ?thesis by (rule transmits_cong [OF transmits_bind [OF 1, where ?dec2.0 = ?D, OF 2]]) (simp_all add: decode_stereo_pair_def case_prod_beta)
qed

lemma transmits_stereo_pred:
  assumes "stereo_ix_ok (fst ix)" "stereo_ix_ok (snd ix)"
  shows "transmits (silk_stereo_encode_pred ix) silk_stereo_decode_pred (ix_level (fst ix) - ix_level (snd ix), ix_level (snd ix))"
proof -
  obtain a0 a1 a2 b0 b1 b2 where ix: "ix = ((a0, a1, a2), b0, b1, b2)" by (metis prod_cases3 prod.collapse)
  then have b: "a0 < 3" "a1 < 5" "a2 < 5" "b0 < 3" "b1 < 5" "b2 < 5" using assms by (auto simp: stereo_ix_ok_def)
  let ?n = "5 * int a2 + int b2"
  let ?R = "\<lambda>n a b. (dequant_one a (cdiv n 5) - dequant_one b (n - 5 * cdiv n 5), dequant_one b (n - 5 * cdiv n 5))"
  let ?D2 = "\<lambda>n a d. case decode_stereo_pair d of (b, d) \<Rightarrow> (?R n a b, d)"
  let ?D1 = "\<lambda>n d. case decode_stereo_pair d of (a, d) \<Rightarrow> ?D2 n a d"
  have n: "cdiv ?n 5 = int a2" using b by (simp add: cdiv_nonneg)
  have 1: "transmits (ec_enc_icdf ?n silk_stereo_pred_joint_iCDF 8) (ec_dec_icdf silk_stereo_pred_joint_iCDF 8) ?n"
    using b by (intro transmits_icdf8 [OF stereo_tables_ok(1)]) auto
  have 2: "transmits (\<lambda>s. ec_enc_icdf (int b1) silk_uniform5_iCDF 8 (ec_enc_icdf (int b0) silk_uniform3_iCDF 8 s)) (?D2 ?n (int a0, int a1))
      (?R ?n (int a0, int a1) (int b0, int b1))"
    by (rule transmits_map [OF transmits_stereo_pair [OF b(4,5)]]) simp
  have "transmits (silk_stereo_encode_pred ix) silk_stereo_decode_pred (?R ?n (int a0, int a1) (int b0, int b1))"
    by (rule transmits_cong [OF transmits_bind [OF 1, where ?dec2.0 = ?D1, OF transmits_bind [OF transmits_stereo_pair [OF b(1,2)], where ?dec2.0 = "?D2 ?n", OF 2]]])
      (simp_all add: ix silk_stereo_encode_pred_def silk_stereo_decode_pred_def Let_def case_prod_beta)
  moreover have "dequant_one (int a0, int a1) (int a2) = ix_level (a0, a1, a2)" "dequant_one (int b0, int b1) (int b2) = ix_level (b0, b1, b2)"
    by (simp_all add: dequant_one_def ix_level_def nat_add_distrib nat_mult_distrib)
  ultimately show ?thesis by (simp add: n ix)
qed

lemma transmits_mid_only:
  "mid \<in> {0, 1} \<Longrightarrow> transmits (silk_stereo_encode_mid_only mid) silk_stereo_decode_mid_only mid"
  unfolding silk_stereo_encode_mid_only_def [abs_def] silk_stereo_decode_mid_only_def [abs_def]
  by (rule transmits_icdf8 [OF stereo_tables_ok(4)]) auto

lemma quant_pred_eq:
  "silk_stereo_quant_pred pred ix = (let a = quant_one (fst pred) 0 (fst ix); b = quant_one (snd pred) (fst a) (snd ix)
     in ((fst a - fst b, fst b), snd a, snd b))"
  by (simp add: silk_stereo_quant_pred_def case_prod_beta Let_def)

section \<open>Properties\<close>

text \<open>
  C29. The stereo predictors survive quantisation and coding: for all inputs whose difference to a
  level cannot overflow, the search, although it stops early, quantises each predictor to a level
  nearest to it among all levels, and decoding the stream into which the chosen indices were coded
  gives exactly the quantised predictors of the encoder, at the same bit position.
\<close>

theorem stereo_pred_roundtrip:
  assumes "\<bar>p0\<bar> < 2147450880" "\<bar>p1\<bar> < 2147450880" "bytes b" "int (length b) = sz" "sz < 4294967296"
  defines "r \<equiv> silk_stereo_quant_pred (p0, p1) ((0, 0, 0), (0, 0, 0))"
  defines "s \<equiv> silk_stereo_encode_pred (snd r) (ec_enc_init b sz)"
  defines "d \<equiv> silk_stereo_decode_pred (ec_dec_init (buf (ec_enc_done s)) sz)"
  assumes "nbits_total s < 2147483648" "error (ec_enc_done s) = 0"
  shows "nearest_level p0 (fst (fst r) + snd (fst r)) \<and> nearest_level p1 (snd (fst r)) \<and> fst d = fst r \<and> ec_tell_frac (snd d) = ec_tell_frac s"
proof -
  let ?a = "quant_one p0 0 (0, 0, 0)"
  let ?b = "quant_one p1 (fst ?a) (0, 0, 0)"
  have r: "r = ((fst ?a - fst ?b, fst ?b), snd ?a, snd ?b)" by (simp add: r_def quant_pred_eq Let_def)
  note a = quant_one_nearest [OF assms(1), of 0 "(0, 0, 0)"] and b = quant_one_nearest [OF assms(2), of "fst ?a" "(0, 0, 0)"]
  have "transmits (silk_stereo_encode_pred (snd r)) silk_stereo_decode_pred (fst r)"
    using transmits_stereo_pred [of "snd r"] a b unfolding r by simp
  from stream_roundtrip [OF this assms(3-5), folded s_def, OF assms(9,10), folded d_def]
  have "fst d = fst r" "ec_tell_frac (snd d) = ec_tell_frac s" using coupled_tell by auto
  then show ?thesis using a(1) b(1) by (simp add: r)
qed

theorem stereo_pred_roundtrip_witness:
  "fst (silk_stereo_decode_pred (ec_dec_init (buf (ec_enc_done (silk_stereo_encode_pred
      (snd (silk_stereo_quant_pred (3000, - 900) ((0, 0, 0), (0, 0, 0)))) (ec_enc_init (replicate 8 0) 8)))) 8)) = (4188, - 1033)"
proof -
  have r: "silk_stereo_quant_pred (3000, - 900) ((0, 0, 0), (0, 0, 0)) = ((4188, - 1033), (0, 0, 3), (0, 4, 2))" by code_simp
  let ?s = "silk_stereo_encode_pred ((0, 0, 3), (0, 4, 2)) (ec_enc_init (replicate 8 0) 8)"
  have b: "bytes (replicate 8 0)" "int (length (replicate 8 (0 :: int))) = 8" "(8 :: int) < 4294967296" by simp_all
  have s: "nbits_total ?s < 2147483648 \<and> error (ec_enc_done ?s) = 0"
    unfolding silk_stereo_encode_pred_def Let_def prod.case by code_simp
  have p: "\<bar>3000 :: int\<bar> < 2147450880" "\<bar>- 900 :: int\<bar> < 2147450880" by simp_all
  show ?thesis using stereo_pred_roundtrip [OF p b, unfolded r snd_conv fst_conv, OF conjunct1 [OF s] conjunct2 [OF s]] unfolding r snd_conv by (elim conjE)
qed

end
