(* ===== verification/Silk_Indices.thy ===== *)
theory Silk_Indices
  imports Silk_Tables Silk_Pulses
begin

text \<open>
  The side information of a SILK frame (\<open>silk/encode_indices.c\<close>, \<open>silk/decode_indices.c\<close>,
  \<open>silk/NLSF_unpack.c\<close>): signal type, gains, spectral envelope, pitch and long-term prediction
  indices, coded conditionally on the frame before.
\<close>

section \<open>State\<close>

definition MAX_FRAMES_PER_PACKET :: nat where "MAX_FRAMES_PER_PACKET = 3"
definition SUB_FRAME_LENGTH_MS :: int where "SUB_FRAME_LENGTH_MS = 5"
definition LTP_MEM_LENGTH_MS :: int where "LTP_MEM_LENGTH_MS = 20"
definition MAX_SUB_FRAME_LENGTH :: int where "MAX_SUB_FRAME_LENGTH = SUB_FRAME_LENGTH_MS * 16"
definition MAX_FRAME_LENGTH :: int where "MAX_FRAME_LENGTH = SUB_FRAME_LENGTH_MS * int MAX_NB_SUBFR * 16"
definition MAX_LPC_ORDER :: int where "MAX_LPC_ORDER = 16"
definition MIN_LPC_ORDER :: int where "MIN_LPC_ORDER = 10"

record SideInfoIndices =
  GainsIndices :: "int list"
  LTPIndex :: "int list"
  NLSFIndices :: "int list"
  lagIndex :: int
  contourIndex :: int
  signalType :: int
  quantOffsetType :: int
  NLSFInterpCoef_Q2 :: int
  PERIndex :: int
  LTP_scaleIndex :: int
  Seed :: int

text \<open>The fields that the states of encoder and decoder have in common, and those of one side.\<close>

record silk_channel_state =
  fs_kHz :: int
  nb_subfr :: nat
  frame_length :: int
  psNLSF_CB :: silk_NLSF_CB_struct
  pitch_lag_low_bits_iCDF :: "int list"
  pitch_contour_iCDF :: "int list"
  nFramesPerPacket :: nat
  VAD_flags :: "int list"
  LBRR_flag :: int
  LBRR_flags :: "int list"
  ec_prevSignalType :: int
  ec_prevLagIndex :: int
  side_indices :: SideInfoIndices

record silk_encoder_state = silk_channel_state +
  enc_pulses :: "int list"
  indices_LBRR :: "SideInfoIndices list"
  pulses_LBRR :: "int list list"

record silk_decoder_state = silk_channel_state +
  prev_gain_Q16 :: int
  sLPC_Q14_buf :: "int list"
  outBuf :: "int list"
  lagPrev :: int
  LastGainIndex :: int
  subfr_length :: int
  ltp_mem_length :: int
  LPC_order :: int
  prevNLSF_Q15 :: "int list"
  first_frame_after_reset :: int
  nFramesDecoded :: nat
  lossCnt :: int
  prevSignalType :: int

text \<open>The tables and lengths that belong to a sampling rate and a number of subframes.\<close>

definition set_fs_pitch_contour :: "int \<Rightarrow> nat \<Rightarrow> int list" where
  "set_fs_pitch_contour fs nb =
    (if fs = 8 then (if nb = MAX_NB_SUBFR then silk_pitch_contour_NB_iCDF else silk_pitch_contour_10_ms_NB_iCDF)
     else (if nb = MAX_NB_SUBFR then silk_pitch_contour_iCDF else silk_pitch_contour_10_ms_iCDF))"

definition set_fs_NLSF_CB :: "int \<Rightarrow> silk_NLSF_CB_struct" where
  "set_fs_NLSF_CB fs = (if fs = 8 \<or> fs = 12 then silk_NLSF_CB_NB_MB else silk_NLSF_CB_WB)"

definition set_fs_lag_low_bits :: "int \<Rightarrow> int list" where
  "set_fs_lag_low_bits fs = (if fs = 16 then silk_uniform8_iCDF else if fs = 12 then silk_uniform6_iCDF else silk_uniform4_iCDF)"

definition set_fs_frame_length :: "int \<Rightarrow> nat \<Rightarrow> int" where
  "set_fs_frame_length fs nb = silk_SMULBB (int nb) (silk_SMULBB SUB_FRAME_LENGTH_MS fs)"

text \<open>
  Setting the sampling rate; the resampler state is not part of the record, so its initialisation
  has no effect here.
\<close>

definition set_fs_rate :: "silk_decoder_state \<Rightarrow> int \<Rightarrow> silk_decoder_state" where
  "set_fs_rate psDec fs = psDec\<lparr>ltp_mem_length := silk_SMULBB LTP_MEM_LENGTH_MS fs,
     LPC_order := (if fs = 8 \<or> fs = 12 then MIN_LPC_ORDER else MAX_LPC_ORDER), psNLSF_CB := set_fs_NLSF_CB fs,
     pitch_lag_low_bits_iCDF := set_fs_lag_low_bits fs, first_frame_after_reset := 1, lagPrev := 100, LastGainIndex := 10,
     prevSignalType := TYPE_NO_VOICE_ACTIVITY, outBuf := map (\<lambda>_. 0) (outBuf psDec), sLPC_Q14_buf := map (\<lambda>_. 0) (sLPC_Q14_buf psDec)\<rparr>"

definition silk_decoder_set_fs :: "silk_decoder_state \<Rightarrow> int \<Rightarrow> silk_decoder_state" where
  "silk_decoder_set_fs psDec fs =
    (let psDec = psDec\<lparr>subfr_length := silk_SMULBB SUB_FRAME_LENGTH_MS fs\<rparr>;
         len = silk_SMULBB (int (nb_subfr psDec)) (subfr_length psDec)
     in if fs_kHz psDec \<noteq> fs \<or> len \<noteq> frame_length psDec then
          let psDec = psDec\<lparr>pitch_contour_iCDF := set_fs_pitch_contour fs (nb_subfr psDec)\<rparr>;
              psDec = (if fs_kHz psDec \<noteq> fs then set_fs_rate psDec fs else psDec)
          in psDec\<lparr>fs_kHz := fs, frame_length := len\<rparr>
        else psDec)"

text \<open>
  The reset state: all zero but for the two fields set after it; pointers to tables are null, here
  empty tables.  The states of comfort noise, loss concealment and resampler are not modelled.
\<close>

definition zero_indices :: SideInfoIndices where
  "zero_indices = \<lparr>GainsIndices = replicate MAX_NB_SUBFR 0, LTPIndex = replicate MAX_NB_SUBFR 0, NLSFIndices = replicate (nat MAX_LPC_ORDER + 1) 0,
     lagIndex = 0, contourIndex = 0, signalType = 0, quantOffsetType = 0, NLSFInterpCoef_Q2 = 0, PERIndex = 0, LTP_scaleIndex = 0, Seed = 0\<rparr>"

definition null_NLSF_CB :: silk_NLSF_CB_struct where
  "null_NLSF_CB = \<lparr>nVectors = 0, cb_order = 0, quantStepSize_Q16 = 0, invQuantStepSize_Q6 = 0, CB1_NLSF_Q8 = [], CB1_Wght_Q9 = [],
     CB1_iCDF = [], cb_pred_Q8 = [], ec_sel = [], ec_iCDF = [], ec_Rates_Q5 = [], deltaMin_Q15 = []\<rparr>"

definition silk_reset_decoder :: silk_decoder_state where
  "silk_reset_decoder = \<lparr>fs_kHz = 0, nb_subfr = 0, frame_length = 0, psNLSF_CB = null_NLSF_CB, pitch_lag_low_bits_iCDF = [], pitch_contour_iCDF = [],
     nFramesPerPacket = 0, VAD_flags = replicate MAX_FRAMES_PER_PACKET 0, LBRR_flag = 0, LBRR_flags = replicate MAX_FRAMES_PER_PACKET 0,
     ec_prevSignalType = 0, ec_prevLagIndex = 0, side_indices = zero_indices, prev_gain_Q16 = 65536, sLPC_Q14_buf = replicate (nat MAX_LPC_ORDER) 0,
     outBuf = replicate (nat (MAX_FRAME_LENGTH + 2 * MAX_SUB_FRAME_LENGTH)) 0, lagPrev = 0, LastGainIndex = 0, subfr_length = 0, ltp_mem_length = 0,
     LPC_order = 0, prevNLSF_Q15 = replicate (nat MAX_LPC_ORDER) 0, first_frame_after_reset = 1, nFramesDecoded = 0, lossCnt = 0, prevSignalType = 0\<rparr>"

section \<open>Spectral envelope tables\<close>

text \<open>The offsets of the entropy tables and the predictor coefficients of a vector of the first stage.\<close>

definition silk_NLSF_unpack :: "silk_NLSF_CB_struct \<Rightarrow> int \<Rightarrow> int list \<times> int list" where
  "silk_NLSF_unpack cb CB1_index =
    (let order = cb_order cb;
         ec_sel_ptr = drop (nat (CB1_index * order div 2)) (ec_sel cb);
         pairs = map (\<lambda>k. let entry = ec_sel_ptr ! k; i = 2 * int k
           in [(i16 (silk_SMULBB (drop_bit 1 entry AND 7) (2 * NLSF_QUANT_MAX_AMPLITUDE + 1)),
                cb_pred_Q8 cb ! nat (i + (entry AND 1) * (order - 1))),
               (i16 (silk_SMULBB (drop_bit 5 entry AND 7) (2 * NLSF_QUANT_MAX_AMPLITUDE + 1)),
                cb_pred_Q8 cb ! nat (i + (drop_bit 4 entry AND 1) * (order - 1) + 1))])
           [0..<nat ((order + 1) div 2)]
     in (map fst (concat pairs), map snd (concat pairs)))"

section \<open>Encoder\<close>

definition encode_type_offset :: "SideInfoIndices \<Rightarrow> bool \<Rightarrow> ec_ctx \<Rightarrow> ec_ctx" where
  "encode_type_offset ix encode_LBRR enc =
    (let typeOffset = 2 * signalType ix + quantOffsetType ix
     in if encode_LBRR \<or> typeOffset \<ge> 2 then ec_enc_icdf (typeOffset - 2) silk_type_offset_VAD_iCDF 8 enc
        else ec_enc_icdf typeOffset silk_type_offset_no_VAD_iCDF 8 enc)"

definition encode_gains :: "SideInfoIndices \<Rightarrow> nat \<Rightarrow> int \<Rightarrow> ec_ctx \<Rightarrow> ec_ctx" where
  "encode_gains ix nb condCoding enc =
    (let g = GainsIndices ix;
         enc = (if condCoding = CODE_CONDITIONALLY then ec_enc_icdf (g ! 0) silk_delta_gain_iCDF 8 enc
                else ec_enc_icdf (g ! 0 AND 7) silk_uniform8_iCDF 8
                  (ec_enc_icdf (drop_bit 3 (g ! 0)) (silk_gain_iCDF ! nat (signalType ix)) 8 enc))
     in fold (\<lambda>i. ec_enc_icdf (g ! i) silk_delta_gain_iCDF 8) [1..<nb] enc)"

definition encode_NLSF_index :: "int list \<Rightarrow> int \<Rightarrow> ec_ctx \<Rightarrow> ec_ctx" where
  "encode_NLSF_index table v enc =
    (if v \<ge> NLSF_QUANT_MAX_AMPLITUDE then
       ec_enc_icdf (v - NLSF_QUANT_MAX_AMPLITUDE) silk_NLSF_EXT_iCDF 8 (ec_enc_icdf (2 * NLSF_QUANT_MAX_AMPLITUDE) table 8 enc)
     else if v \<le> - NLSF_QUANT_MAX_AMPLITUDE then
       ec_enc_icdf (- v - NLSF_QUANT_MAX_AMPLITUDE) silk_NLSF_EXT_iCDF 8 (ec_enc_icdf 0 table 8 enc)
     else ec_enc_icdf (v + NLSF_QUANT_MAX_AMPLITUDE) table 8 enc)"

definition encode_NLSFs :: "SideInfoIndices \<Rightarrow> silk_NLSF_CB_struct \<Rightarrow> ec_ctx \<Rightarrow> ec_ctx" where
  "encode_NLSFs ix cb enc =
    (let n = NLSFIndices ix;
         enc = ec_enc_icdf (n ! 0) (icdf_at (CB1_iCDF cb) (nat (drop_bit 1 (signalType ix) * nVectors cb))) 8 enc;
         ec_ix = fst (silk_NLSF_unpack cb (n ! 0))
     in fold (\<lambda>i. encode_NLSF_index (icdf_at (ec_iCDF cb) (nat (ec_ix ! i))) (n ! (i + 1))) [0..<nat (cb_order cb)] enc)"

definition encode_interp_factor :: "SideInfoIndices \<Rightarrow> nat \<Rightarrow> ec_ctx \<Rightarrow> ec_ctx" where
  "encode_interp_factor ix nb enc =
    (if nb = MAX_NB_SUBFR then ec_enc_icdf (NLSFInterpCoef_Q2 ix) silk_NLSF_interpolation_factor_iCDF 8 enc else enc)"

definition encode_lag :: "SideInfoIndices \<Rightarrow> int \<Rightarrow> int list \<Rightarrow> int \<Rightarrow> int \<Rightarrow> int \<Rightarrow> ec_ctx \<Rightarrow> ec_ctx" where
  "encode_lag ix fs low_bits_iCDF condCoding prevType prevLagIndex enc =
    (let conditional = (condCoding = CODE_CONDITIONALLY \<and> prevType = TYPE_VOICED);
         delta_lagIndex = lagIndex ix - prevLagIndex;
         delta = (conditional \<and> \<not> (delta_lagIndex < - 8 \<or> delta_lagIndex > 11));
         enc = (if conditional then ec_enc_icdf (if delta then delta_lagIndex + 9 else 0) silk_pitch_delta_iCDF 8 enc else enc)
     in if delta then enc
        else
          let pitch_high_bits = cdiv (lagIndex ix) (drop_bit 1 fs);
              pitch_low_bits = lagIndex ix - silk_SMULBB pitch_high_bits (drop_bit 1 fs)
          in ec_enc_icdf pitch_low_bits low_bits_iCDF 8 (ec_enc_icdf pitch_high_bits silk_pitch_lag_iCDF 8 enc))"

definition encode_LTP :: "SideInfoIndices \<Rightarrow> nat \<Rightarrow> int \<Rightarrow> ec_ctx \<Rightarrow> ec_ctx" where
  "encode_LTP ix nb condCoding enc =
    (let enc = ec_enc_icdf (PERIndex ix) silk_LTP_per_index_iCDF 8 enc;
         enc = fold (\<lambda>k. ec_enc_icdf (LTPIndex ix ! k) (silk_LTP_gain_iCDF_ptrs ! nat (PERIndex ix)) 8) [0..<nb] enc
     in if condCoding = CODE_INDEPENDENTLY then ec_enc_icdf (LTP_scaleIndex ix) silk_LTPscale_iCDF 8 enc else enc)"

definition encode_voiced :: "silk_encoder_state \<Rightarrow> SideInfoIndices \<Rightarrow> int \<Rightarrow> ec_ctx \<Rightarrow> ec_ctx" where
  "encode_voiced psEncC ix condCoding enc =
    (let enc = encode_lag ix (fs_kHz psEncC) (pitch_lag_low_bits_iCDF psEncC) condCoding (ec_prevSignalType psEncC) (ec_prevLagIndex psEncC) enc;
         enc = ec_enc_icdf (contourIndex ix) (pitch_contour_iCDF psEncC) 8 enc
     in encode_LTP ix (nb_subfr psEncC) condCoding enc)"

definition silk_encode_indices :: "silk_encoder_state \<Rightarrow> nat \<Rightarrow> bool \<Rightarrow> int \<Rightarrow> ec_ctx \<Rightarrow> silk_encoder_state \<times> ec_ctx" where
  "silk_encode_indices psEncC FrameIndex encode_LBRR condCoding enc =
    (let ix = (if encode_LBRR then indices_LBRR psEncC ! FrameIndex else side_indices psEncC);
         enc = encode_type_offset ix encode_LBRR enc;
         enc = encode_gains ix (nb_subfr psEncC) condCoding enc;
         enc = encode_NLSFs ix (psNLSF_CB psEncC) enc;
         enc = encode_interp_factor ix (nb_subfr psEncC) enc;
         (psEncC, enc) =
           (if signalType ix = TYPE_VOICED then (psEncC\<lparr>ec_prevLagIndex := lagIndex ix\<rparr>, encode_voiced psEncC ix condCoding enc)
            else (psEncC, enc));
         psEncC = psEncC\<lparr>ec_prevSignalType := signalType ix\<rparr>
     in (psEncC, ec_enc_icdf (Seed ix) silk_uniform4_iCDF 8 enc))"

section \<open>Decoder\<close>

definition decode_type_offset :: "bool \<Rightarrow> ec_ctx \<Rightarrow> (int \<times> int) \<times> ec_ctx" where
  "decode_type_offset vad dec =
    (let (Ix, dec) = (if vad then let (k, dec) = ec_dec_icdf silk_type_offset_VAD_iCDF 8 dec in (k + 2, dec)
                      else ec_dec_icdf silk_type_offset_no_VAD_iCDF 8 dec)
     in ((i8 (drop_bit 1 Ix), i8 (Ix AND 1)), dec))"

definition decode_first_gain :: "int \<Rightarrow> int \<Rightarrow> ec_ctx \<Rightarrow> int \<times> ec_ctx" where
  "decode_first_gain sigType condCoding dec =
    (if condCoding = CODE_CONDITIONALLY then
       let (g, dec) = ec_dec_icdf silk_delta_gain_iCDF 8 dec in (i8 g, dec)
     else
       let (hi, dec) = ec_dec_icdf (silk_gain_iCDF ! nat sigType) 8 dec;
           (lo, dec) = ec_dec_icdf silk_uniform8_iCDF 8 dec
       in (i8 (i8 (push_bit 3 hi) + i8 lo), dec))"

definition decode_gains :: "nat \<Rightarrow> int \<Rightarrow> int \<Rightarrow> ec_ctx \<Rightarrow> int list \<times> ec_ctx" where
  "decode_gains nb sigType condCoding dec =
    (let (g, dec) = decode_first_gain sigType condCoding dec;
         (gs, dec) = dec_seq (\<lambda>i dec. let (g, dec) = ec_dec_icdf silk_delta_gain_iCDF 8 dec in (i8 g, dec)) [1..<nb] dec
     in (g # gs, dec))"

definition decode_NLSF_index :: "int list \<Rightarrow> ec_ctx \<Rightarrow> int \<times> ec_ctx" where
  "decode_NLSF_index table dec =
    (let (Ix, dec) = ec_dec_icdf table 8 dec;
         (Ix, dec) = (if Ix = 0 then let (e, dec) = ec_dec_icdf silk_NLSF_EXT_iCDF 8 dec in (Ix - e, dec)
                      else if Ix = 2 * NLSF_QUANT_MAX_AMPLITUDE then let (e, dec) = ec_dec_icdf silk_NLSF_EXT_iCDF 8 dec in (Ix + e, dec)
                      else (Ix, dec))
     in (i8 (Ix - NLSF_QUANT_MAX_AMPLITUDE), dec))"

definition decode_NLSFs :: "silk_NLSF_CB_struct \<Rightarrow> int \<Rightarrow> ec_ctx \<Rightarrow> int list \<times> ec_ctx" where
  "decode_NLSFs cb sigType dec =
    (let (k, dec) = ec_dec_icdf (icdf_at (CB1_iCDF cb) (nat (drop_bit 1 sigType * nVectors cb))) 8 dec;
         n0 = i8 k;
         ec_ix = fst (silk_NLSF_unpack cb n0);
         (ns, dec) = dec_seq (\<lambda>i. decode_NLSF_index (icdf_at (ec_iCDF cb) (nat (ec_ix ! i)))) [0..<nat (cb_order cb)] dec
     in (n0 # ns, dec))"

definition decode_interp_factor :: "nat \<Rightarrow> ec_ctx \<Rightarrow> int \<times> ec_ctx" where
  "decode_interp_factor nb dec =
    (if nb = MAX_NB_SUBFR then let (k, dec) = ec_dec_icdf silk_NLSF_interpolation_factor_iCDF 8 dec in (i8 k, dec) else (4, dec))"

definition decode_absolute_lag :: "int \<Rightarrow> int list \<Rightarrow> ec_ctx \<Rightarrow> int \<times> ec_ctx" where
  "decode_absolute_lag fs low_bits_iCDF dec =
    (let (hi, dec) = ec_dec_icdf silk_pitch_lag_iCDF 8 dec;
         lag = i16 (i16 hi * drop_bit 1 fs);
         (lo, dec) = ec_dec_icdf low_bits_iCDF 8 dec
     in (i16 (lag + i16 lo), dec))"

definition decode_lag :: "int \<Rightarrow> int list \<Rightarrow> int \<Rightarrow> int \<Rightarrow> int \<Rightarrow> ec_ctx \<Rightarrow> int \<times> ec_ctx" where
  "decode_lag fs low_bits_iCDF condCoding prevType prevLagIndex dec =
    (if condCoding = CODE_CONDITIONALLY \<and> prevType = TYPE_VOICED then
       let (delta_lagIndex, dec) = ec_dec_icdf silk_pitch_delta_iCDF 8 dec
       in if i16 delta_lagIndex > 0 then (i16 (prevLagIndex + (i16 delta_lagIndex - 9)), dec)
          else decode_absolute_lag fs low_bits_iCDF dec
     else decode_absolute_lag fs low_bits_iCDF dec)"

text \<open>The periodicity index, the codebook indices and the scaling index.\<close>

definition decode_LTP :: "nat \<Rightarrow> int \<Rightarrow> ec_ctx \<Rightarrow> (int \<times> int list \<times> int) \<times> ec_ctx" where
  "decode_LTP nb condCoding dec =
    (let (k, dec) = ec_dec_icdf silk_LTP_per_index_iCDF 8 dec;
         per = i8 k;
         (ks, dec) = dec_seq (\<lambda>k dec. let (v, dec) = ec_dec_icdf (silk_LTP_gain_iCDF_ptrs ! nat per) 8 dec in (i8 v, dec)) [0..<nb] dec;
         (sc, dec) = (if condCoding = CODE_INDEPENDENTLY then let (v, dec) = ec_dec_icdf silk_LTPscale_iCDF 8 dec in (i8 v, dec) else (0, dec))
     in ((per, ks, sc), dec))"

text \<open>Writing the first entries of an array.\<close>

definition array_put :: "int list \<Rightarrow> int list \<Rightarrow> int list" where
  "array_put xs arr = xs @ drop (length xs) arr"

definition decode_voiced :: "silk_decoder_state \<Rightarrow> SideInfoIndices \<Rightarrow> int \<Rightarrow> ec_ctx \<Rightarrow> SideInfoIndices \<times> ec_ctx" where
  "decode_voiced psDec ix condCoding dec =
    (let (lag, dec) = decode_lag (fs_kHz psDec) (pitch_lag_low_bits_iCDF psDec) condCoding (ec_prevSignalType psDec) (ec_prevLagIndex psDec) dec;
         (c, dec) = ec_dec_icdf (pitch_contour_iCDF psDec) 8 dec;
         ((per, ks, sc), dec) = decode_LTP (nb_subfr psDec) condCoding dec
     in (ix\<lparr>lagIndex := lag, contourIndex := i8 c, PERIndex := per, LTPIndex := array_put ks (LTPIndex ix), LTP_scaleIndex := sc\<rparr>, dec))"

definition silk_decode_indices :: "silk_decoder_state \<Rightarrow> nat \<Rightarrow> bool \<Rightarrow> int \<Rightarrow> ec_ctx \<Rightarrow> silk_decoder_state \<times> ec_ctx" where
  "silk_decode_indices psDec FrameIndex decode_LBRR condCoding dec =
    (let ((st, qo), dec) = decode_type_offset (decode_LBRR \<or> VAD_flags psDec ! FrameIndex \<noteq> 0) dec;
         ix = (side_indices psDec)\<lparr>signalType := st, quantOffsetType := qo\<rparr>;
         (gs, dec) = decode_gains (nb_subfr psDec) st condCoding dec;
         ix = ix\<lparr>GainsIndices := array_put gs (GainsIndices ix)\<rparr>;
         (ns, dec) = decode_NLSFs (psNLSF_CB psDec) st dec;
         ix = ix\<lparr>NLSFIndices := array_put ns (NLSFIndices ix)\<rparr>;
         (ip, dec) = decode_interp_factor (nb_subfr psDec) dec;
         ix = ix\<lparr>NLSFInterpCoef_Q2 := ip\<rparr>;
         (ix, dec) = (if st = TYPE_VOICED then decode_voiced psDec ix condCoding dec else (ix, dec));
         prevLag = (if st = TYPE_VOICED then lagIndex ix else ec_prevLagIndex psDec);
         (sd, dec) = ec_dec_icdf silk_uniform4_iCDF 8 dec
     in (psDec\<lparr>side_indices := ix\<lparr>Seed := i8 sd\<rparr>, ec_prevLagIndex := prevLag, ec_prevSignalType := st\<rparr>, dec))"

section \<open>Tables\<close>

lemma side_tables_ok:
  "icdf8 4 silk_type_offset_VAD_iCDF" "icdf8 2 silk_type_offset_no_VAD_iCDF" "icdf8 41 silk_delta_gain_iCDF" "icdf8 8 silk_uniform8_iCDF"
  "icdf8 7 silk_NLSF_EXT_iCDF" "icdf8 5 silk_NLSF_interpolation_factor_iCDF" "icdf8 21 silk_pitch_delta_iCDF" "icdf8 32 silk_pitch_lag_iCDF"
  "icdf8 3 silk_LTP_per_index_iCDF" "icdf8 3 silk_LTPscale_iCDF" "icdf8 4 silk_uniform4_iCDF" "icdf8 6 silk_uniform6_iCDF"
  by code_simp+

lemma gain_tables_ok:
  assumes "st \<in> {0, 1, 2}"
  shows "icdf8 8 (silk_gain_iCDF ! nat st)"
proof -
  have "list_all (icdf8 8) silk_gain_iCDF" "length silk_gain_iCDF = 3" by code_simp+
  then show ?thesis using assms by (auto simp: list_all_length)
qed

lemma LTP_tables_ok:
  assumes "0 \<le> per" "per < 3"
  shows "icdf8 (8 * 2 ^ nat per) (silk_LTP_gain_iCDF_ptrs ! nat per)"
proof -
  have "list_all (\<lambda>k. icdf8 (8 * 2 ^ k) (silk_LTP_gain_iCDF_ptrs ! k)) [0..<3]" by code_simp
  moreover have "nat per \<in> set [0..<3]" using assms by auto
  ultimately show ?thesis unfolding list_all_iff by blast
qed

definition contour_size :: "int \<Rightarrow> nat \<Rightarrow> nat" where
  "contour_size fs nb = (if fs = 8 then (if nb = 4 then 11 else 3) else (if nb = 4 then 34 else 12))"

lemma contour_table_ok: "icdf8 (contour_size fs nb) (set_fs_pitch_contour fs nb)"
proof -
  have "icdf8 11 silk_pitch_contour_NB_iCDF" "icdf8 3 silk_pitch_contour_10_ms_NB_iCDF" "icdf8 34 silk_pitch_contour_iCDF" "icdf8 12 silk_pitch_contour_10_ms_iCDF"
    by code_simp+
  then show ?thesis by (simp add: contour_size_def set_fs_pitch_contour_def MAX_NB_SUBFR_def)
qed

lemma low_bits_table_ok: "fs \<in> {8, 12, 16} \<Longrightarrow> icdf8 (nat (drop_bit 1 fs)) (set_fs_lag_low_bits fs)"
  using side_tables_ok by (auto simp: set_fs_lag_low_bits_def shift_arith simp del: One_nat_def)

text \<open>A codebook of the spectral envelope.\<close>

definition NLSF_CB_ok :: "silk_NLSF_CB_struct \<Rightarrow> bool" where
  "NLSF_CB_ok cb \<longleftrightarrow> nVectors cb = 32 \<and> (cb_order cb = 10 \<or> cb_order cb = 16) \<and>
    icdf8 32 (icdf_at (CB1_iCDF cb) 0) \<and> icdf8 32 (icdf_at (CB1_iCDF cb) 32) \<and>
    list_all (\<lambda>k. icdf8 9 (icdf_at (ec_iCDF cb) (9 * k))) [0..<8]"

lemma set_fs_NLSF_CB_ok: "NLSF_CB_ok (set_fs_NLSF_CB fs)"
proof -
  have "NLSF_CB_ok silk_NLSF_CB_NB_MB" "NLSF_CB_ok silk_NLSF_CB_WB" by code_simp+
  then show ?thesis by (simp add: set_fs_NLSF_CB_def)
qed

lemma CB1_table_ok:
  assumes "NLSF_CB_ok cb" "st \<in> {0, 1, 2}"
  shows "icdf8 32 (icdf_at (CB1_iCDF cb) (nat (drop_bit 1 st * nVectors cb)))"
  using assms by (auto simp: NLSF_CB_ok_def shift_arith simp del: One_nat_def)

lemma NLSF_unpack_ok:
  assumes "NLSF_CB_ok cb"
  shows "length (fst (silk_NLSF_unpack cb k)) = nat (cb_order cb)" "length (snd (silk_NLSF_unpack cb k)) = nat (cb_order cb)"
    "i < nat (cb_order cb) \<Longrightarrow> icdf8 9 (icdf_at (ec_iCDF cb) (nat (fst (silk_NLSF_unpack cb k) ! i)))"
proof -
  have pairs: "length (concat (map (\<lambda>k. [f k, g k]) [0..<n])) = 2 * n" for f g :: "nat \<Rightarrow> int \<times> int" and n
    by (induction n) auto
  have o: "2 * nat ((cb_order cb + 1) div 2) = nat (cb_order cb)" using assms by (auto simp: NLSF_CB_ok_def)
  show l: "length (fst (silk_NLSF_unpack cb k)) = nat (cb_order cb)" "length (snd (silk_NLSF_unpack cb k)) = nat (cb_order cb)"
    unfolding silk_NLSF_unpack_def Let_def fst_conv snd_conv length_map pairs by (rule o)+
  assume "i < nat (cb_order cb)"
  then have "fst (silk_NLSF_unpack cb k) ! i \<in> set (fst (silk_NLSF_unpack cb k))" using l by simp
  then obtain e where e: "fst (silk_NLSF_unpack cb k) ! i = i16 (silk_SMULBB (e AND 7) 9)"
    by (auto simp: silk_NLSF_unpack_def Let_def NLSF_QUANT_MAX_AMPLITUDE_def)
  define m where "m = nat (e AND 7)"
  have m: "e AND 7 = int m" "m < 8" by (auto simp: m_def bitarith)
  have "nat (fst (silk_NLSF_unpack cb k) ! i) = 9 * m" using m(2) unfolding e m(1) by (simp add: silk_SMULBB_def)
  moreover have "m \<in> set [0..<8]" using m(2) by simp
  ultimately show "icdf8 9 (icdf_at (ec_iCDF cb) (nat (fst (silk_NLSF_unpack cb k) ! i)))"
    using assms unfolding NLSF_CB_ok_def list_all_iff by metis
qed

section \<open>Round trip of the fields\<close>

text \<open>A single symbol, cast to 8 bits.\<close>

lemma transmits_i8:
  assumes "icdf8 n t" "0 \<le> k" "k < int n" "n \<le> 128"
  shows "transmits (ec_enc_icdf k t 8) (\<lambda>d. case ec_dec_icdf t 8 d of (v, d) \<Rightarrow> (i8 v, d)) k"
  using assms by (intro transmits_map [OF transmits_icdf8]) simp_all

definition type_ok :: "SideInfoIndices \<Rightarrow> bool" where
  "type_ok ix \<longleftrightarrow> signalType ix \<in> {0, 1, 2} \<and> quantOffsetType ix \<in> {0, 1}"

lemma transmits_type_offset:
  assumes "type_ok ix" "lbrr \<longrightarrow> 1 \<le> signalType ix" "vad \<longleftrightarrow> lbrr \<or> 1 \<le> signalType ix"
  shows "transmits (encode_type_offset ix lbrr) (decode_type_offset vad) (signalType ix, quantOffsetType ix)"
proof -
  let ?t = "2 * signalType ix + quantOffsetType ix"
  have t: "i8 (drop_bit 1 ?t) = signalType ix" "i8 (?t AND 1) = quantOffsetType ix" "vad \<longleftrightarrow> 1 \<le> signalType ix"
    using assms by (auto simp: type_ok_def shift_arith bitarith simp del: One_nat_def)
  show ?thesis
  proof (cases vad)
    case True
    have "transmits (ec_enc_icdf (?t - 2) silk_type_offset_VAD_iCDF 8) (ec_dec_icdf silk_type_offset_VAD_iCDF 8) (?t - 2)"
      using assms t(3) True by (intro transmits_icdf8 [OF side_tables_ok(1)]) (auto simp: type_ok_def)
    then have "transmits (ec_enc_icdf (?t - 2) silk_type_offset_VAD_iCDF 8)
        (\<lambda>d. case ec_dec_icdf silk_type_offset_VAD_iCDF 8 d of (k, d) \<Rightarrow> ((i8 (drop_bit 1 (k + 2)), i8 ((k + 2) AND 1)), d)) (signalType ix, quantOffsetType ix)"
      by (rule transmits_map) (use t in simp)
    then show ?thesis by (rule transmits_cong)
      (use True t(3) assms in \<open>auto simp: encode_type_offset_def decode_type_offset_def type_ok_def Let_def split: prod.split\<close>)
  next
    case False
    have "transmits (ec_enc_icdf ?t silk_type_offset_no_VAD_iCDF 8) (ec_dec_icdf silk_type_offset_no_VAD_iCDF 8) ?t"
      using assms t(3) False by (intro transmits_icdf8 [OF side_tables_ok(2)]) (auto simp: type_ok_def)
    then have "transmits (ec_enc_icdf ?t silk_type_offset_no_VAD_iCDF 8)
        (\<lambda>d. case ec_dec_icdf silk_type_offset_no_VAD_iCDF 8 d of (k, d) \<Rightarrow> ((i8 (drop_bit 1 k), i8 (k AND 1)), d)) (signalType ix, quantOffsetType ix)"
      by (rule transmits_map) (use t in simp)
    then show ?thesis by (rule transmits_cong)
      (use False t(3) assms in \<open>auto simp: encode_type_offset_def decode_type_offset_def type_ok_def Let_def split: prod.split\<close>)
  qed
qed

definition gains_ok :: "nat \<Rightarrow> int \<Rightarrow> int list \<Rightarrow> bool" where
  "gains_ok nb condCoding g \<longleftrightarrow> nb \<le> length g \<and> 0 < nb \<and> 0 \<le> g ! 0 \<and> g ! 0 < (if condCoding = CODE_CONDITIONALLY then 41 else 64) \<and>
    (\<forall>i \<in> {1..<nb}. 0 \<le> g ! i \<and> g ! i < 41)"

lemma transmits_first_gain:
  assumes "st \<in> {0, 1, 2}" "0 \<le> g" "g < (if condCoding = CODE_CONDITIONALLY then 41 else 64)"
  shows "transmits (\<lambda>s. if condCoding = CODE_CONDITIONALLY then ec_enc_icdf g silk_delta_gain_iCDF 8 s
      else ec_enc_icdf (g AND 7) silk_uniform8_iCDF 8 (ec_enc_icdf (drop_bit 3 g) (silk_gain_iCDF ! nat st) 8 s))
    (decode_first_gain st condCoding) g"
proof (cases "condCoding = CODE_CONDITIONALLY")
  case True
  have "transmits (ec_enc_icdf g silk_delta_gain_iCDF 8) (\<lambda>d. case ec_dec_icdf silk_delta_gain_iCDF 8 d of (v, d) \<Rightarrow> (i8 v, d)) g"
    using assms True by (intro transmits_i8 [OF side_tables_ok(3)]) auto
  then show ?thesis by (rule transmits_cong) (use True in \<open>simp_all add: decode_first_gain_def\<close>)
next
  case False
  then have g: "0 \<le> g" "g < 64" using assms by simp_all
  let ?hi = "drop_bit 3 g" and ?lo = "g AND 7"
  have h: "0 \<le> ?hi" "?hi < 8" "0 \<le> ?lo" "?lo < 8" "8 * ?hi + ?lo = g" using g by (auto simp: shift_arith bitarith)
  have "transmits (ec_enc_icdf ?hi (silk_gain_iCDF ! nat st) 8) (ec_dec_icdf (silk_gain_iCDF ! nat st) 8) ?hi"
    using h by (intro transmits_icdf8 [OF gain_tables_ok [OF assms(1)]]) auto
  moreover have "transmits (ec_enc_icdf ?lo silk_uniform8_iCDF 8)
      (\<lambda>d. case ec_dec_icdf silk_uniform8_iCDF 8 d of (lo, d) \<Rightarrow> (i8 (i8 (push_bit 3 ?hi) + i8 lo), d)) g"
    using h g by (intro transmits_map [OF transmits_icdf8 [OF side_tables_ok(4)]]) (auto simp: shift_arith)
  ultimately have "transmits (\<lambda>s. ec_enc_icdf ?lo silk_uniform8_iCDF 8 (ec_enc_icdf ?hi (silk_gain_iCDF ! nat st) 8 s))
      (\<lambda>d. case ec_dec_icdf (silk_gain_iCDF ! nat st) 8 d of (hi, d) \<Rightarrow>
        case ec_dec_icdf silk_uniform8_iCDF 8 d of (lo, d) \<Rightarrow> (i8 (i8 (push_bit 3 hi) + i8 lo), d)) g"
    by (rule transmits_bind)
  then show ?thesis by (rule transmits_cong) (use False in \<open>simp_all add: decode_first_gain_def\<close>)
qed

lemma transmits_gains:
  assumes "signalType ix \<in> {0, 1, 2}" "gains_ok nb condCoding (GainsIndices ix)"
  shows "transmits (encode_gains ix nb condCoding) (decode_gains nb (signalType ix) condCoding) (take nb (GainsIndices ix))"
proof -
  let ?g = "GainsIndices ix"
  let ?r = "map (\<lambda>i. ?g ! i) [1..<nb]"
  have nb: "nb \<le> length ?g" "0 < nb" using assms(2) by (simp_all add: gains_ok_def)
  have tk: "take nb ?g = ?g ! 0 # ?r"
    by (rule nth_equalityI) (use nb in \<open>auto simp: nth_Cons split: nat.split\<close>)
  have f: "transmits (\<lambda>s. if condCoding = CODE_CONDITIONALLY then ec_enc_icdf (?g ! 0) silk_delta_gain_iCDF 8 s
      else ec_enc_icdf (?g ! 0 AND 7) silk_uniform8_iCDF 8 (ec_enc_icdf (drop_bit 3 (?g ! 0)) (silk_gain_iCDF ! nat (signalType ix)) 8 s))
    (decode_first_gain (signalType ix) condCoding) (?g ! 0)"
    using assms by (intro transmits_first_gain) (auto simp: gains_ok_def)
  have "transmits (fold (\<lambda>i. ec_enc_icdf (?g ! i) silk_delta_gain_iCDF 8) [1..<nb])
      (dec_seq (\<lambda>i dec. case ec_dec_icdf silk_delta_gain_iCDF 8 dec of (g, dec) \<Rightarrow> (i8 g, dec)) [1..<nb]) ?r"
    using assms(2) by (intro transmits_each) (auto simp: gains_ok_def intro!: transmits_i8 [OF side_tables_ok(3)])
  then have "transmits (fold (\<lambda>i. ec_enc_icdf (?g ! i) silk_delta_gain_iCDF 8) [1..<nb])
      (\<lambda>d. case dec_seq (\<lambda>i dec. case ec_dec_icdf silk_delta_gain_iCDF 8 dec of (g, dec) \<Rightarrow> (i8 g, dec)) [1..<nb] d of (gs, d) \<Rightarrow> (?g ! 0 # gs, d)) (take nb ?g)"
    by (rule transmits_map) (rule tk)
  from transmits_bind [OF f, where ?dec2.0 = "\<lambda>g d. case dec_seq (\<lambda>i dec. case ec_dec_icdf silk_delta_gain_iCDF 8 dec of (g, dec) \<Rightarrow> (i8 g, dec)) [1..<nb] d of (gs, d) \<Rightarrow> (g # gs, d)", OF this]
  show ?thesis by (rule transmits_cong) (simp_all add: encode_gains_def decode_gains_def Let_def case_prod_beta cong: if_cong)
qed

lemma transmits_NLSF_index:
  assumes t: "icdf8 9 t" and v: "- 10 \<le> v" "v \<le> 10"
  shows "transmits (encode_NLSF_index t v) (decode_NLSF_index t) v"
proof -
  let ?D = "\<lambda>Ix d. case (if Ix = 0 then case ec_dec_icdf silk_NLSF_EXT_iCDF 8 d of (e, d) \<Rightarrow> (Ix - e, d)
      else if Ix = 8 then case ec_dec_icdf silk_NLSF_EXT_iCDF 8 d of (e, d) \<Rightarrow> (Ix + e, d) else (Ix, d)) of (Ix, d) \<Rightarrow> (i8 (Ix - 4), d)"
  have dec: "decode_NLSF_index t d = (case ec_dec_icdf t 8 d of (Ix, d) \<Rightarrow> ?D Ix d)" for d
    by (simp add: decode_NLSF_index_def Let_def NLSF_QUANT_MAX_AMPLITUDE_def cong: if_cong)
  have sym: "transmits (ec_enc_icdf k t 8) (ec_dec_icdf t 8) k" if "0 \<le> k" "k \<le> 8" for k
    using that by (intro transmits_icdf8 [OF t]) auto
  have ext: "transmits (ec_enc_icdf e silk_NLSF_EXT_iCDF 8) (ec_dec_icdf silk_NLSF_EXT_iCDF 8) e" if "0 \<le> e" "e \<le> 6" for e
    using that by (intro transmits_icdf8 [OF side_tables_ok(5)]) auto
  consider (hi) "4 \<le> v" | (lo) "v \<le> - 4" | (mid) "- 4 < v" "v < 4" by linarith
  then show ?thesis
  proof cases
    case hi
    have "transmits (ec_enc_icdf (v - 4) silk_NLSF_EXT_iCDF 8) (\<lambda>d. case ec_dec_icdf silk_NLSF_EXT_iCDF 8 d of (e, d) \<Rightarrow> (i8 (8 + e - 4), d)) v"
      by (rule transmits_map [OF ext]) (use hi v in simp_all)
    then have "transmits (ec_enc_icdf (v - 4) silk_NLSF_EXT_iCDF 8) (?D 8) v" by (rule transmits_cong) (simp_all add: case_prod_beta)
    from transmits_bind [OF sym [of 8], where ?dec2.0 = ?D, OF _ _ this]
    show ?thesis by (rule transmits_cong) (use hi in \<open>simp_all add: dec encode_NLSF_index_def NLSF_QUANT_MAX_AMPLITUDE_def\<close>)
  next
    case lo
    have "transmits (ec_enc_icdf (- v - 4) silk_NLSF_EXT_iCDF 8) (\<lambda>d. case ec_dec_icdf silk_NLSF_EXT_iCDF 8 d of (e, d) \<Rightarrow> (i8 (0 - e - 4), d)) v"
      by (rule transmits_map [OF ext]) (use lo v in simp_all)
    then have "transmits (ec_enc_icdf (- v - 4) silk_NLSF_EXT_iCDF 8) (?D 0) v" by (rule transmits_cong) (simp_all add: case_prod_beta)
    from transmits_bind [OF sym [of 0], where ?dec2.0 = ?D, OF _ _ this]
    show ?thesis by (rule transmits_cong) (use lo in \<open>simp_all add: dec encode_NLSF_index_def NLSF_QUANT_MAX_AMPLITUDE_def\<close>)
  next
    case mid
    have "transmits (\<lambda>s. s) (?D (v + 4)) v" by (rule transmits_cong [OF transmits_return]) (use mid v in simp_all)
    from transmits_bind [OF sym [of "v + 4"], where ?dec2.0 = ?D, OF _ _ this]
    show ?thesis by (rule transmits_cong) (use mid in \<open>simp_all add: dec encode_NLSF_index_def NLSF_QUANT_MAX_AMPLITUDE_def\<close>)
  qed
qed

definition NLSFs_ok :: "silk_NLSF_CB_struct \<Rightarrow> int list \<Rightarrow> bool" where
  "NLSFs_ok cb n \<longleftrightarrow> nat (cb_order cb) + 1 \<le> length n \<and> 0 \<le> n ! 0 \<and> n ! 0 < 32 \<and> (\<forall>i \<in> {1..nat (cb_order cb)}. - 10 \<le> n ! i \<and> n ! i \<le> 10)"

lemma take_Suc_nth: "n + 1 \<le> length xs \<Longrightarrow> take (n + 1) xs = xs ! 0 # map (\<lambda>i. xs ! (i + 1)) [0..<n]"
  by (rule nth_equalityI) (auto simp: nth_Cons split: nat.split)

lemma transmits_NLSFs:
  assumes cb: "NLSF_CB_ok cb" and n: "NLSFs_ok cb (NLSFIndices ix)" and st: "signalType ix \<in> {0, 1, 2}"
  shows "transmits (encode_NLSFs ix cb) (decode_NLSFs cb (signalType ix)) (take (nat (cb_order cb) + 1) (NLSFIndices ix))"
proof -
  let ?n = "NLSFIndices ix"
  let ?o = "nat (cb_order cb)"
  let ?t = "\<lambda>k i. icdf_at (ec_iCDF cb) (nat (fst (silk_NLSF_unpack cb k) ! i))"
  let ?c = "icdf_at (CB1_iCDF cb) (nat (drop_bit 1 (signalType ix) * nVectors cb))"
  let ?D = "\<lambda>k d. case dec_seq (\<lambda>i. decode_NLSF_index (?t (i8 k) i)) [0..<?o] d of (ns, d) \<Rightarrow> (i8 k # ns, d)"
  have r: "0 \<le> ?n ! 0" "?n ! 0 < 32" "?o + 1 \<le> length ?n" using n by (auto simp: NLSFs_ok_def)
  have k: "i8 (?n ! 0) = ?n ! 0" using r by simp
  have 1: "transmits (ec_enc_icdf (?n ! 0) ?c 8) (ec_dec_icdf ?c 8) (?n ! 0)"
    using r by (intro transmits_icdf8 [OF CB1_table_ok [OF cb st]]) auto
  have "transmits (fold (\<lambda>i. encode_NLSF_index (?t (?n ! 0) i) (?n ! (i + 1))) [0..<?o])
      (dec_seq (\<lambda>i. decode_NLSF_index (?t (?n ! 0) i)) [0..<?o]) (map (\<lambda>i. ?n ! (i + 1)) [0..<?o])"
    using n by (intro transmits_each) (auto simp: NLSFs_ok_def intro!: transmits_NLSF_index NLSF_unpack_ok(3) [OF cb])
  then have "transmits (fold (\<lambda>i. encode_NLSF_index (?t (?n ! 0) i) (?n ! (i + 1))) [0..<?o]) (?D (?n ! 0)) (take (?o + 1) ?n)"
    unfolding k by (rule transmits_map) (rule take_Suc_nth [OF r(3)])
  from transmits_bind [OF 1, where ?dec2.0 = ?D, OF this] show ?thesis
    by (rule transmits_cong) (simp_all add: encode_NLSFs_def decode_NLSFs_def Let_def)
qed

lemma transmits_interp_factor:
  assumes "nb = 4 \<longrightarrow> 0 \<le> NLSFInterpCoef_Q2 ix \<and> NLSFInterpCoef_Q2 ix < 5"
  shows "transmits (encode_interp_factor ix nb) (decode_interp_factor nb) (if nb = 4 then NLSFInterpCoef_Q2 ix else 4)"
proof (cases "nb = 4")
  case True
  then have "transmits (ec_enc_icdf (NLSFInterpCoef_Q2 ix) silk_NLSF_interpolation_factor_iCDF 8)
      (\<lambda>d. case ec_dec_icdf silk_NLSF_interpolation_factor_iCDF 8 d of (v, d) \<Rightarrow> (i8 v, d)) (if nb = 4 then NLSFInterpCoef_Q2 ix else 4)"
    using transmits_i8 [OF side_tables_ok(6), of "NLSFInterpCoef_Q2 ix"] assms by simp
  then show ?thesis by (rule transmits_cong) (use True in \<open>simp_all add: encode_interp_factor_def decode_interp_factor_def MAX_NB_SUBFR_def\<close>)
next
  case False
  then have "transmits (\<lambda>s. s) (\<lambda>d. (4, d)) (if nb = 4 then NLSFInterpCoef_Q2 ix else 4)" using transmits_return [of 4] by simp
  then show ?thesis by (rule transmits_cong) (use False in \<open>simp_all add: encode_interp_factor_def decode_interp_factor_def MAX_NB_SUBFR_def\<close>)
qed

lemma transmits_absolute_lag:
  assumes fs: "fs \<in> {8, 12, 16}" and lag: "0 \<le> lag" "lag < 16 * fs"
  shows "transmits (\<lambda>s. ec_enc_icdf (lag - silk_SMULBB (cdiv lag (drop_bit 1 fs)) (drop_bit 1 fs)) (set_fs_lag_low_bits fs) 8
      (ec_enc_icdf (cdiv lag (drop_bit 1 fs)) silk_pitch_lag_iCDF 8 s))
    (decode_absolute_lag fs (set_fs_lag_low_bits fs)) lag"
proof -
  define h where "h = drop_bit 1 fs"
  define hi where "hi = lag div h"
  have h: "h \<in> {4, 6, 8}" "16 * fs = 32 * h" using fs by (auto simp: h_def shift_arith simp del: One_nat_def)
  have c: "cdiv lag h = hi" using h lag by (auto simp: hi_def cdiv_nonneg)
  have b: "0 \<le> hi" "hi < 32" using h lag by (auto simp: hi_def pos_imp_zdiv_nonneg_iff)
  have hh: "i16 h = h" "0 < h" "h \<le> 8" using h by auto
  have m: "silk_SMULBB hi h = hi * h" using b by (simp add: silk_SMULBB_def hh(1))
  have lo: "lag - hi * h = lag mod h" by (simp add: hi_def minus_div_mult_eq_mod)
  have lb: "0 \<le> lag mod h" "lag mod h < h" using hh by simp_all
  have p: "hi * h = lag - lag mod h" using lo by simp
  have l: "lag < 256" using lag h(2) hh by linarith
  have "- 32768 \<le> hi * h" "hi * h < 32768" "- 32768 \<le> lag mod h" "lag mod h < 32768" using lb hh lag l unfolding p by linarith+
  then have "i16 hi = hi" "i16 (hi * h) = hi * h" "i16 (lag mod h) = lag mod h" using b by simp_all
  then have z: "i16 (i16 (i16 hi * h) + i16 (lag mod h)) = lag" using lag l p by simp
  have 1: "transmits (ec_enc_icdf hi silk_pitch_lag_iCDF 8) (ec_dec_icdf silk_pitch_lag_iCDF 8) hi"
    using b by (intro transmits_icdf8 [OF side_tables_ok(8)]) auto
  have "transmits (ec_enc_icdf (lag mod h) (set_fs_lag_low_bits fs) 8)
      (\<lambda>d. case ec_dec_icdf (set_fs_lag_low_bits fs) 8 d of (lo, d) \<Rightarrow> (i16 (i16 (i16 hi * h) + i16 lo), d)) lag"
    using lb h z by (intro transmits_map [OF transmits_icdf8 [OF low_bits_table_ok [OF fs]]]) (auto simp flip: h_def)
  from transmits_bind [OF 1, where ?dec2.0 = "\<lambda>hi d. case ec_dec_icdf (set_fs_lag_low_bits fs) 8 d of (lo, d) \<Rightarrow> (i16 (i16 (i16 hi * h) + i16 lo), d)", OF this]
  show ?thesis
    by (rule transmits_cong) (simp_all add: c m lo decode_absolute_lag_def Let_def del: One_nat_def flip: h_def)
qed

lemma transmits_lag:
  assumes fs: "fs \<in> {8, 12, 16}" and lag: "0 \<le> lagIndex ix" "lagIndex ix < 16 * fs" and prev: "- 32768 \<le> prevLag" "prevLag \<le> 32767"
  shows "transmits (encode_lag ix fs (set_fs_lag_low_bits fs) condCoding prevType prevLag) (decode_lag fs (set_fs_lag_low_bits fs) condCoding prevType prevLag) (lagIndex ix)"
proof (cases "condCoding = CODE_CONDITIONALLY \<and> prevType = TYPE_VOICED")
  case cond: True
  let ?L = "lagIndex ix"
  let ?dl = "?L - prevLag"
  let ?D = "\<lambda>v d. if i16 v > 0 then (i16 (prevLag + (i16 v - 9)), d) else decode_absolute_lag fs (set_fs_lag_low_bits fs) d"
  note A = transmits_absolute_lag [OF fs lag]
  show ?thesis
  proof (cases "?dl < - 8 \<or> ?dl > 11")
    case True
    have 1: "transmits (ec_enc_icdf 0 silk_pitch_delta_iCDF 8) (ec_dec_icdf silk_pitch_delta_iCDF 8) 0"
      by (rule transmits_icdf8 [OF side_tables_ok(7)]) simp_all
    have "transmits (\<lambda>s. ec_enc_icdf (?L - silk_SMULBB (cdiv ?L (drop_bit 1 fs)) (drop_bit 1 fs)) (set_fs_lag_low_bits fs) 8
      (ec_enc_icdf (cdiv ?L (drop_bit 1 fs)) silk_pitch_lag_iCDF 8 s)) (?D 0) ?L"
      using A by (rule transmits_cong) (simp_all)
    from transmits_bind [OF 1, where ?dec2.0 = ?D, OF this] show ?thesis
      by (rule transmits_cong) (use cond True in \<open>auto simp: encode_lag_def decode_lag_def Let_def\<close>)
  next
    case False
    have 1: "transmits (ec_enc_icdf (?dl + 9) silk_pitch_delta_iCDF 8) (ec_dec_icdf silk_pitch_delta_iCDF 8) (?dl + 9)"
      using False by (intro transmits_icdf8 [OF side_tables_ok(7)]) auto
    have "transmits (\<lambda>s. s) (?D (?dl + 9)) ?L"
      by (rule transmits_cong [OF transmits_return]) (use False fs lag in auto)
    from transmits_bind [OF 1, where ?dec2.0 = ?D, OF this] show ?thesis
      by (rule transmits_cong) (use cond False in \<open>auto simp: encode_lag_def decode_lag_def Let_def\<close>)
  qed
next
  case False
  show ?thesis using transmits_absolute_lag [OF fs lag]
    by (rule transmits_cong) (use False in \<open>auto simp: encode_lag_def decode_lag_def Let_def\<close>)
qed

definition LTP_ok :: "nat \<Rightarrow> int \<Rightarrow> SideInfoIndices \<Rightarrow> bool" where
  "LTP_ok nb condCoding ix \<longleftrightarrow> 0 \<le> PERIndex ix \<and> PERIndex ix < 3 \<and> nb \<le> length (LTPIndex ix) \<and>
    (\<forall>k<nb. 0 \<le> LTPIndex ix ! k \<and> LTPIndex ix ! k < 8 * 2 ^ nat (PERIndex ix)) \<and>
    0 \<le> LTP_scaleIndex ix \<and> LTP_scaleIndex ix < 3 \<and> (condCoding \<noteq> CODE_INDEPENDENTLY \<longrightarrow> LTP_scaleIndex ix = 0)"

lemma transmits_LTP:
  assumes "LTP_ok nb condCoding ix"
  shows "transmits (encode_LTP ix nb condCoding) (decode_LTP nb condCoding) (PERIndex ix, take nb (LTPIndex ix), LTP_scaleIndex ix)"
proof -
  let ?p = "PERIndex ix" and ?l = "LTPIndex ix" and ?s = "LTP_scaleIndex ix"
  let ?sd = "\<lambda>d. if condCoding = CODE_INDEPENDENTLY then case ec_dec_icdf silk_LTPscale_iCDF 8 d of (v, d) \<Rightarrow> (i8 v, d) else (0, d)"
  let ?kd = "\<lambda>p. dec_seq (\<lambda>k d. case ec_dec_icdf (silk_LTP_gain_iCDF_ptrs ! nat p) 8 d of (v, d) \<Rightarrow> (i8 v, d)) [0..<nb]"
  let ?D2 = "\<lambda>p ks d. case ?sd d of (sc, d) \<Rightarrow> ((p, ks, sc), d)"
  let ?D1 = "\<lambda>k d. case ?kd (i8 k) d of (ks, d) \<Rightarrow> ?D2 (i8 k) ks d"
  have p: "0 \<le> ?p" "?p < 3" "i8 ?p = ?p" "nb \<le> length ?l" using assms by (auto simp: LTP_ok_def)
  have "8 * 2 ^ nat ?p \<le> (8 * 2 ^ 2 :: nat)" using p by (intro mult_left_mono power_increasing) auto
  then have sz: "8 * 2 ^ nat ?p \<le> (128 :: nat)" by simp
  have "transmits (\<lambda>s. if condCoding = CODE_INDEPENDENTLY then ec_enc_icdf ?s silk_LTPscale_iCDF 8 s else s) ?sd ?s"
  proof (cases "condCoding = CODE_INDEPENDENTLY")
    case True
    then show ?thesis using transmits_i8 [OF side_tables_ok(10), of ?s] assms by (simp add: LTP_ok_def)
  next
    case False
    then show ?thesis using transmits_return [of 0] assms by (simp add: LTP_ok_def)
  qed
  then have 2: "transmits (\<lambda>s. if condCoding = CODE_INDEPENDENTLY then ec_enc_icdf ?s silk_LTPscale_iCDF 8 s else s) (?D2 ?p (take nb ?l)) (?p, take nb ?l, ?s)"
    by (rule transmits_map) simp
  have "transmits (ec_enc_icdf (?l ! k) (silk_LTP_gain_iCDF_ptrs ! nat ?p) 8)
      (\<lambda>d. case ec_dec_icdf (silk_LTP_gain_iCDF_ptrs ! nat ?p) 8 d of (v, d) \<Rightarrow> (i8 v, d)) (?l ! k)" if "k < nb" for k
    using assms that p sz by (intro transmits_i8 [OF LTP_tables_ok]) (auto simp: LTP_ok_def)
  then have 1: "transmits (fold (\<lambda>k. ec_enc_icdf (?l ! k) (silk_LTP_gain_iCDF_ptrs ! nat ?p) 8) [0..<nb]) (?kd ?p) (take nb ?l)"
    using p(4) by (intro transmits_each) auto
  have 0: "transmits (ec_enc_icdf ?p silk_LTP_per_index_iCDF 8) (ec_dec_icdf silk_LTP_per_index_iCDF 8) ?p"
    using p by (intro transmits_icdf8 [OF side_tables_ok(9)]) auto
  have "transmits (\<lambda>s. (\<lambda>s. if condCoding = CODE_INDEPENDENTLY then ec_enc_icdf ?s silk_LTPscale_iCDF 8 s else s)
      (fold (\<lambda>k. ec_enc_icdf (?l ! k) (silk_LTP_gain_iCDF_ptrs ! nat ?p) 8) [0..<nb] s)) (?D1 ?p) (?p, take nb ?l, ?s)"
    unfolding p(3) by (rule transmits_bind [OF 1, where ?dec2.0 = "?D2 ?p", OF 2])
  from transmits_bind [OF 0, where ?dec2.0 = ?D1, OF this] show ?thesis
    by (rule transmits_cong) (simp_all add: encode_LTP_def decode_LTP_def Let_def cong: if_cong)
qed

section \<open>Round trip of a frame\<close>

text \<open>A channel set up for a sampling rate and a number of subframes; indices that it can send.\<close>

definition chan_ok :: "'a silk_channel_state_scheme \<Rightarrow> bool" where
  "chan_ok c \<longleftrightarrow> fs_kHz c \<in> {8, 12, 16} \<and> nb_subfr c \<in> {2, 4} \<and> frame_length c = set_fs_frame_length (fs_kHz c) (nb_subfr c) \<and>
    psNLSF_CB c = set_fs_NLSF_CB (fs_kHz c) \<and> pitch_lag_low_bits_iCDF c = set_fs_lag_low_bits (fs_kHz c) \<and>
    pitch_contour_iCDF c = set_fs_pitch_contour (fs_kHz c) (nb_subfr c) \<and> - 32768 \<le> ec_prevLagIndex c \<and> ec_prevLagIndex c \<le> 32767"

definition arrays_ok :: "SideInfoIndices \<Rightarrow> bool" where
  "arrays_ok ix \<longleftrightarrow> length (GainsIndices ix) = 4 \<and> length (LTPIndex ix) = 4 \<and> length (NLSFIndices ix) = 17"

definition decoder_ok :: "silk_decoder_state \<Rightarrow> bool" where
  "decoder_ok d \<longleftrightarrow> chan_ok d \<and> arrays_ok (side_indices d) \<and> subfr_length d = 5 * fs_kHz d \<and> ltp_mem_length d = 20 * fs_kHz d \<and>
    LPC_order d = cb_order (psNLSF_CB d)"

text \<open>
  Setting the rate makes the state sound again after a reset, and after the number of subframes of
  a sound state was changed.
\<close>

lemma set_fs_lengths:
  assumes "fs \<in> {8, 12, 16}" "nb \<in> {2, 4}"
  shows "silk_SMULBB SUB_FRAME_LENGTH_MS fs = 5 * fs" "silk_SMULBB (int nb) (5 * fs) = 5 * int nb * fs" "silk_SMULBB LTP_MEM_LENGTH_MS fs = 20 * fs"
    "set_fs_frame_length fs nb = 5 * int nb * fs"
  using assms by (auto simp: silk_SMULBB_def SUB_FRAME_LENGTH_MS_def LTP_MEM_LENGTH_MS_def set_fs_frame_length_def)

lemma decoder_set_fs_ok:
  assumes "fs \<in> {8, 12, 16}" "nb_subfr d \<in> {2, 4}" "arrays_ok (side_indices d)" "- 32768 \<le> ec_prevLagIndex d" "ec_prevLagIndex d \<le> 32767"
    "fs_kHz d = 0 \<or> (\<exists>nb. decoder_ok (d\<lparr>nb_subfr := nb\<rparr>))"
  shows "decoder_ok (silk_decoder_set_fs d fs)" "fs_kHz (silk_decoder_set_fs d fs) = fs" "nb_subfr (silk_decoder_set_fs d fs) = nb_subfr d"
proof -
  note l = set_fs_lengths [OF assms(1,2)]
  have o: "cb_order silk_NLSF_CB_NB_MB = 10" "cb_order silk_NLSF_CB_WB = 16" by code_simp+
  show "decoder_ok (silk_decoder_set_fs d fs)"
  proof (cases "fs_kHz d = fs")
    case True
    with assms(1,6) obtain nb where nb: "decoder_ok (d\<lparr>nb_subfr := nb\<rparr>)" by auto
    then have "nb \<in> {2, 4}" by (auto simp: decoder_ok_def chan_ok_def)
    note l2 = set_fs_lengths [OF assms(1) this]
    have e: "nb = nb_subfr d" if "5 * int (nb_subfr d) * fs = frame_length d"
      using nb that True l2(4) assms(1) by (auto simp: decoder_ok_def chan_ok_def)
    show ?thesis
      using nb True assms l e unfolding silk_decoder_set_fs_def by (auto simp: decoder_ok_def chan_ok_def Let_def)
  next
    case False
    then show ?thesis using assms(1-5) l
      by (auto simp: silk_decoder_set_fs_def set_fs_rate_def decoder_ok_def chan_ok_def Let_def set_fs_NLSF_CB_def MIN_LPC_ORDER_def MAX_LPC_ORDER_def o)
  qed
qed (simp_all add: silk_decoder_set_fs_def set_fs_rate_def Let_def)

definition indices_ok :: "int \<Rightarrow> nat \<Rightarrow> int \<Rightarrow> SideInfoIndices \<Rightarrow> bool" where
  "indices_ok fs nb condCoding ix \<longleftrightarrow> type_ok ix \<and> gains_ok nb condCoding (GainsIndices ix) \<and> NLSFs_ok (set_fs_NLSF_CB fs) (NLSFIndices ix) \<and>
    (nb = 4 \<longrightarrow> 0 \<le> NLSFInterpCoef_Q2 ix \<and> NLSFInterpCoef_Q2 ix < 5) \<and> 0 \<le> Seed ix \<and> Seed ix < 4 \<and>
    (signalType ix = TYPE_VOICED \<longrightarrow> 0 \<le> lagIndex ix \<and> lagIndex ix < 16 * fs \<and>
      0 \<le> contourIndex ix \<and> contourIndex ix < int (contour_size fs nb) \<and> LTP_ok nb condCoding ix)"

text \<open>The indices \<open>ix\<close> as a decoder with the indices \<open>old\<close> has them after it has received them.\<close>

definition received :: "int \<Rightarrow> nat \<Rightarrow> SideInfoIndices \<Rightarrow> SideInfoIndices \<Rightarrow> SideInfoIndices" where
  "received fs nb ix old =
    (let base = old\<lparr>signalType := signalType ix, quantOffsetType := quantOffsetType ix,
           GainsIndices := array_put (take nb (GainsIndices ix)) (GainsIndices old),
           NLSFIndices := array_put (take (nat (cb_order (set_fs_NLSF_CB fs)) + 1) (NLSFIndices ix)) (NLSFIndices old),
           NLSFInterpCoef_Q2 := (if nb = 4 then NLSFInterpCoef_Q2 ix else 4), Seed := Seed ix\<rparr>
     in if signalType ix = TYPE_VOICED
        then base\<lparr>lagIndex := lagIndex ix, contourIndex := contourIndex ix, PERIndex := PERIndex ix,
          LTPIndex := array_put (take nb (LTPIndex ix)) (LTPIndex old), LTP_scaleIndex := LTP_scaleIndex ix\<rparr>
        else base)"

text \<open>
  Encoder and decoder agree on the frame before, as far as conditional coding reads it.
\<close>

definition in_step :: "'a silk_channel_state_scheme \<Rightarrow> 'b silk_channel_state_scheme \<Rightarrow> bool" where
  "in_step e d \<longleftrightarrow> ec_prevSignalType d = ec_prevSignalType e \<and> (ec_prevSignalType e = TYPE_VOICED \<longrightarrow> ec_prevLagIndex d = ec_prevLagIndex e)"

definition same_rate :: "'a silk_channel_state_scheme \<Rightarrow> 'b silk_channel_state_scheme \<Rightarrow> bool" where
  "same_rate e d \<longleftrightarrow> fs_kHz d = fs_kHz e \<and> nb_subfr d = nb_subfr e"

lemma decode_lag_in_step:
  "(condCoding = CODE_CONDITIONALLY \<longrightarrow> in_step e d) \<Longrightarrow>
    decode_lag fs t condCoding (ec_prevSignalType d) (ec_prevLagIndex d) = decode_lag fs t condCoding (ec_prevSignalType e) (ec_prevLagIndex e)"
  by (rule ext) (auto simp: decode_lag_def in_step_def case_prod_beta)

lemma transmits_voiced:
  fixes e :: silk_encoder_state and d :: silk_decoder_state
  assumes c: "chan_ok e" "chan_ok d" "same_rate e d" "condCoding = CODE_CONDITIONALLY \<longrightarrow> in_step e d"
    and ix: "indices_ok (fs_kHz e) (nb_subfr e) condCoding ix" "signalType ix = TYPE_VOICED"
  shows "transmits (encode_voiced e ix condCoding) (decode_voiced d old condCoding)
    (old\<lparr>lagIndex := lagIndex ix, contourIndex := contourIndex ix, PERIndex := PERIndex ix,
       LTPIndex := array_put (take (nb_subfr e) (LTPIndex ix)) (LTPIndex old), LTP_scaleIndex := LTP_scaleIndex ix\<rparr>)"
proof -
  let ?fs = "fs_kHz e" and ?nb = "nb_subfr e"
  let ?low = "set_fs_lag_low_bits ?fs" and ?con = "set_fs_pitch_contour ?fs ?nb"
  let ?E = "\<lambda>lag c v. old\<lparr>lagIndex := lag, contourIndex := i8 c, PERIndex := fst v, LTPIndex := array_put (fst (snd v)) (LTPIndex old), LTP_scaleIndex := snd (snd v)\<rparr>"
  let ?D2 = "\<lambda>lag c d. case decode_LTP ?nb condCoding d of (v, d) \<Rightarrow> (?E lag c v, d)"
  let ?D1 = "\<lambda>lag d. case ec_dec_icdf ?con 8 d of (c, d) \<Rightarrow> ?D2 lag c d"
  have v: "0 \<le> lagIndex ix" "lagIndex ix < 16 * ?fs" "0 \<le> contourIndex ix" "contourIndex ix < int (contour_size ?fs ?nb)" "LTP_ok ?nb condCoding ix"
    using ix by (auto simp: indices_ok_def)
  have k: "i8 (contourIndex ix) = contourIndex ix" using v by (auto simp: contour_size_def split: if_splits)
  have 0: "transmits (encode_lag ix ?fs ?low condCoding (ec_prevSignalType e) (ec_prevLagIndex e)) (decode_lag ?fs ?low condCoding (ec_prevSignalType e) (ec_prevLagIndex e)) (lagIndex ix)"
    using c(1) v by (intro transmits_lag) (auto simp: chan_ok_def)
  have 1: "transmits (ec_enc_icdf (contourIndex ix) ?con 8) (ec_dec_icdf ?con 8) (contourIndex ix)"
    using v by (intro transmits_icdf8 [OF contour_table_ok])
  have 2: "transmits (encode_LTP ix ?nb condCoding) (?D2 (lagIndex ix) (contourIndex ix)) (?E (lagIndex ix) (contourIndex ix) (PERIndex ix, take ?nb (LTPIndex ix), LTP_scaleIndex ix))"
    by (rule transmits_map [OF transmits_LTP [OF v(5)]]) simp
  have "transmits (\<lambda>s. encode_LTP ix ?nb condCoding (ec_enc_icdf (contourIndex ix) ?con 8 (encode_lag ix ?fs ?low condCoding (ec_prevSignalType e) (ec_prevLagIndex e) s)))
     (\<lambda>d. case decode_lag ?fs ?low condCoding (ec_prevSignalType e) (ec_prevLagIndex e) d of (lag, d) \<Rightarrow> ?D1 lag d)
     (?E (lagIndex ix) (contourIndex ix) (PERIndex ix, take ?nb (LTPIndex ix), LTP_scaleIndex ix))"
    by (rule transmits_bind [OF 0, where ?dec2.0 = ?D1, OF transmits_bind [OF 1, where ?dec2.0 = "?D2 (lagIndex ix)", OF 2]])
  then have "transmits (encode_voiced e ix condCoding) (decode_voiced d old condCoding)
      (?E (lagIndex ix) (contourIndex ix) (PERIndex ix, take ?nb (LTPIndex ix), LTP_scaleIndex ix))"
    by (rule transmits_cong) (use c decode_lag_in_step [OF c(4)] in \<open>simp_all add: encode_voiced_def decode_voiced_def chan_ok_def same_rate_def Let_def case_prod_beta\<close>)
  then show ?thesis by (simp add: k)
qed

text \<open>The state of the decoder after a frame.\<close>

definition after_indices :: "silk_decoder_state \<Rightarrow> SideInfoIndices \<Rightarrow> silk_decoder_state" where
  "after_indices d ix = d\<lparr>side_indices := received (fs_kHz d) (nb_subfr d) ix (side_indices d),
     ec_prevLagIndex := (if signalType ix = TYPE_VOICED then lagIndex ix else ec_prevLagIndex d), ec_prevSignalType := signalType ix\<rparr>"

lemma transmits_indices:
  fixes e :: silk_encoder_state and d :: silk_decoder_state
  assumes c: "chan_ok e" "chan_ok d" "same_rate e d" "condCoding = CODE_CONDITIONALLY \<longrightarrow> in_step e d"
    and ix: "ix = (if lbrr then indices_LBRR e ! F else side_indices e)" "indices_ok (fs_kHz e) (nb_subfr e) condCoding ix"
    and vad: "lbrr \<or> VAD_flags d ! F \<noteq> 0 \<longleftrightarrow> 1 \<le> signalType ix"
  shows "transmits (\<lambda>s. snd (silk_encode_indices e F lbrr condCoding s)) (silk_decode_indices d F lbrr condCoding)
    (after_indices d ix)"
proof -
  let ?fs = "fs_kHz e" and ?nb = "nb_subfr e" and ?cb = "set_fs_NLSF_CB (fs_kHz e)" and ?st = "signalType ix"
  have i: "type_ok ix" "gains_ok ?nb condCoding (GainsIndices ix)" "NLSFs_ok ?cb (NLSFIndices ix)" "?nb = 4 \<longrightarrow> 0 \<le> NLSFInterpCoef_Q2 ix \<and> NLSFInterpCoef_Q2 ix < 5"
    "0 \<le> Seed ix" "Seed ix < 4" "?st \<in> {0, 1, 2}" using ix(2) by (auto simp: indices_ok_def type_ok_def)
  let ?x1 = "\<lambda>t. (side_indices d)\<lparr>signalType := fst t, quantOffsetType := snd t\<rparr>"
  let ?x2 = "\<lambda>t gs. (?x1 t)\<lparr>GainsIndices := array_put gs (GainsIndices (side_indices d))\<rparr>"
  let ?x3 = "\<lambda>t gs ns. (?x2 t gs)\<lparr>NLSFIndices := array_put ns (NLSFIndices (side_indices d))\<rparr>"
  let ?x4 = "\<lambda>t gs ns ip. (?x3 t gs ns)\<lparr>NLSFInterpCoef_Q2 := ip\<rparr>"
  let ?V = "\<lambda>st x dd. if st = TYPE_VOICED then decode_voiced d x condCoding dd else (x, dd)"
  let ?F = "\<lambda>st x sd. d\<lparr>side_indices := x\<lparr>Seed := i8 sd\<rparr>, ec_prevLagIndex := (if st = TYPE_VOICED then lagIndex x else ec_prevLagIndex d), ec_prevSignalType := st\<rparr>"
  let ?D5 = "\<lambda>st x dd. case ec_dec_icdf silk_uniform4_iCDF 8 dd of (sd, dd) \<Rightarrow> (?F st x sd, dd)"
  let ?D4 = "\<lambda>t gs ns ip dd. case ?V (fst t) (?x4 t gs ns ip) dd of (x, dd) \<Rightarrow> ?D5 (fst t) x dd"
  let ?D3 = "\<lambda>t gs ns dd. case decode_interp_factor ?nb dd of (ip, dd) \<Rightarrow> ?D4 t gs ns ip dd"
  let ?D2 = "\<lambda>t gs dd. case decode_NLSFs ?cb (fst t) dd of (ns, dd) \<Rightarrow> ?D3 t gs ns dd"
  let ?D1 = "\<lambda>t dd. case decode_gains ?nb (fst t) condCoding dd of (gs, dd) \<Rightarrow> ?D2 t gs dd"
  define t where "t = (?st, quantOffsetType ix)"
  have t1: "fst t = ?st" by (simp add: t_def)
  define gs where "gs = take ?nb (GainsIndices ix)"
  define ns where "ns = take (nat (cb_order ?cb) + 1) (NLSFIndices ix)"
  define ip where "ip = (if ?nb = 4 then NLSFInterpCoef_Q2 ix else 4)"
  define x where "x = (if ?st = TYPE_VOICED then (?x4 t gs ns ip)\<lparr>lagIndex := lagIndex ix, contourIndex := contourIndex ix, PERIndex := PERIndex ix,
       LTPIndex := array_put (take ?nb (LTPIndex ix)) (LTPIndex (side_indices d)), LTP_scaleIndex := LTP_scaleIndex ix\<rparr> else ?x4 t gs ns ip)"
  have T: "transmits (encode_type_offset ix lbrr) (decode_type_offset (lbrr \<or> VAD_flags d ! F \<noteq> 0)) t"
    unfolding t_def using i(1) vad by (intro transmits_type_offset) auto
  have G: "transmits (encode_gains ix ?nb condCoding) (decode_gains ?nb (fst t) condCoding) gs" unfolding gs_def t1 using i by (intro transmits_gains)
  have N: "transmits (encode_NLSFs ix ?cb) (decode_NLSFs ?cb (fst t)) ns" unfolding ns_def t1 using i set_fs_NLSF_CB_ok by (intro transmits_NLSFs)
  have I: "transmits (encode_interp_factor ix ?nb) (decode_interp_factor ?nb) ip" unfolding ip_def using i(4) by (rule transmits_interp_factor)
  have V: "transmits (\<lambda>s. if ?st = TYPE_VOICED then encode_voiced e ix condCoding s else s) (?V (fst t) (?x4 t gs ns ip)) x"
  proof (cases "?st = TYPE_VOICED")
    case True
    then show ?thesis using transmits_voiced [OF c ix(2) True, of "?x4 t gs ns ip"] by (simp add: x_def t1)
  qed (simp add: x_def t1 transmits_return)
  have S: "transmits (ec_enc_icdf (Seed ix) silk_uniform4_iCDF 8) (?D5 (fst t) x) (?F ?st x (Seed ix))"
    unfolding t1 using i(5,6) by (intro transmits_map [OF transmits_icdf8 [OF side_tables_ok(11)]]) auto
  note 4 = transmits_bind [OF V, where ?dec2.0 = "?D5 (fst t)", OF S]
  note 3 = transmits_bind [OF I, where ?dec2.0 = "?D4 t gs ns", OF 4]
  note 2 = transmits_bind [OF N, where ?dec2.0 = "?D3 t gs", OF 3]
  note 1 = transmits_bind [OF G, where ?dec2.0 = "?D2 t", OF 2]
  have "transmits (\<lambda>s. snd (silk_encode_indices e F lbrr condCoding s)) (silk_decode_indices d F lbrr condCoding) (?F ?st x (Seed ix))"
    by (rule transmits_cong [OF transmits_bind [OF T, where ?dec2.0 = ?D1, OF 1]])
      (use c in \<open>simp_all add: silk_encode_indices_def silk_decode_indices_def chan_ok_def same_rate_def Let_def case_prod_beta flip: ix(1)\<close>)
  moreover have "x\<lparr>Seed := i8 (Seed ix)\<rparr> = received ?fs ?nb ix (side_indices d)" "?st = TYPE_VOICED \<Longrightarrow> lagIndex x = lagIndex ix"
    using i(5,6) by (simp_all add: x_def received_def t_def gs_def ns_def ip_def Let_def)
  ultimately show ?thesis using c(3) by (simp add: after_indices_def same_rate_def cong: if_cong)
qed

lemma encode_indices_state:
  "ix = (if lbrr then indices_LBRR e ! F else side_indices e) \<Longrightarrow> fst (silk_encode_indices e F lbrr condCoding s) =
    e\<lparr>ec_prevLagIndex := (if signalType ix = TYPE_VOICED then lagIndex ix else ec_prevLagIndex e), ec_prevSignalType := signalType ix\<rparr>"
  by (simp add: silk_encode_indices_def Let_def)

lemma after_indices_ok:
  assumes "chan_ok e" "chan_ok d" "same_rate e d" "ix = (if lbrr then indices_LBRR e ! F else side_indices e)"
    "indices_ok (fs_kHz e) (nb_subfr e) condCoding ix" "e' = fst (silk_encode_indices e F lbrr condCoding s)"
  shows "in_step e' (after_indices d ix)" "same_rate e' (after_indices d ix)" "chan_ok e'" "chan_ok (after_indices d ix)"
  using assms unfolding assms(6) encode_indices_state [OF assms(4)]
  by (auto simp: in_step_def same_rate_def after_indices_def chan_ok_def indices_ok_def)

section \<open>Decoding arbitrary streams\<close>

lemma yields_i8:
  assumes "icdf8 n t" "n \<le> 128"
  shows "yields (\<lambda>d. case ec_dec_icdf t 8 d of (k, d) \<Rightarrow> (i8 k, d)) (\<lambda>k. 0 \<le> k \<and> k < int n)"
  using yields_icdf8 [OF assms(1)] by (rule yields_map) (use assms(2) in auto)

lemma yields_type_offset: "yields (decode_type_offset vad) (\<lambda>(st, qo). st \<in> {0, 1, 2} \<and> qo \<in> {0, 1})"
proof -
  let ?P = "\<lambda>k :: int. 0 \<le> k \<and> k < 6"
  let ?d = "\<lambda>d. if vad then (case ec_dec_icdf silk_type_offset_VAD_iCDF 8 d of (k, d) \<Rightarrow> (k + 2, d)) else ec_dec_icdf silk_type_offset_no_VAD_iCDF 8 d"
  have "yields ?d ?P"
    by (intro yields_if yields_map [OF yields_icdf8 [OF side_tables_ok(1)]] yields_mono [OF yields_icdf8 [OF side_tables_ok(2)]]) auto
  then have "yields (\<lambda>d. case ?d d of (k, d) \<Rightarrow> ((i8 (drop_bit 1 k), i8 (k AND 1)), d)) (\<lambda>(st, qo). st \<in> {0, 1, 2} \<and> qo \<in> {0, 1})"
    by (rule yields_map) (auto simp: shift_arith bitarith simp del: One_nat_def)
  then show ?thesis by (rule yields_cong) (simp add: decode_type_offset_def Let_def case_prod_beta)
qed

lemma yields_first_gain:
  assumes "st \<in> {0, 1, 2}"
  shows "yields (decode_first_gain st condCoding) (\<lambda>g. 0 \<le> g \<and> g < (if condCoding = CODE_CONDITIONALLY then 41 else 64))"
    (is "yields _ ?P")
proof (cases "condCoding = CODE_CONDITIONALLY")
  case True
  then show ?thesis
    by (intro yields_cong [OF yields_mono [OF yields_i8 [OF side_tables_ok(3)]]]) (auto simp: decode_first_gain_def)
next
  case False
  have "yields (\<lambda>d. case ec_dec_icdf silk_uniform8_iCDF 8 d of (lo, d) \<Rightarrow> (i8 (i8 (push_bit 3 hi) + i8 lo), d)) ?P" if "0 \<le> hi \<and> hi < int 8" for hi
    using that False by (intro yields_map [OF yields_icdf8 [OF side_tables_ok(4)]]) (auto simp: shift_arith)
  from yields_bind [OF yields_icdf8 [OF gain_tables_ok [OF assms]], where f = "\<lambda>hi d. case ec_dec_icdf silk_uniform8_iCDF 8 d of (lo, d) \<Rightarrow> (i8 (i8 (push_bit 3 hi) + i8 lo), d)", OF this]
  show ?thesis by (rule yields_cong) (use False in \<open>simp_all add: decode_first_gain_def Let_def case_prod_beta\<close>)
qed

lemma yields_gains:
  assumes "st \<in> {0, 1, 2}" "0 < nb"
  shows "yields (decode_gains nb st condCoding) (\<lambda>gs. length gs = nb \<and> gains_ok nb condCoding gs)"
proof -
  let ?dec = "\<lambda>i d. case ec_dec_icdf silk_delta_gain_iCDF 8 d of (g, d) \<Rightarrow> (i8 g, d)"
  have s: "yields (dec_seq ?dec [1..<nb]) (list_all2 (\<lambda>_ g. 0 \<le> g \<and> g < int 41) [1..<nb])"
    using yields_i8 [OF side_tables_ok(3)] by (intro yields_seq) simp
  have "yields (\<lambda>d. case dec_seq ?dec [1..<nb] d of (gs, d) \<Rightarrow> (g # gs, d)) (\<lambda>gs. length gs = nb \<and> gains_ok nb condCoding gs)"
    if "0 \<le> g \<and> g < (if condCoding = CODE_CONDITIONALLY then 41 else 64)" for g
    using s by (rule yields_map) (use that assms in \<open>auto simp: gains_ok_def list_all2_const nth_Cons all_set_conv_all_nth split: nat.split\<close>)
  from yields_bind [OF yields_first_gain [OF assms(1)], where f = "\<lambda>g d. case dec_seq ?dec [1..<nb] d of (gs, d) \<Rightarrow> (g # gs, d)", OF this]
  show ?thesis by (rule yields_cong) (simp_all add: decode_gains_def Let_def case_prod_beta)
qed

lemma yields_NLSF_index:
  assumes "icdf8 9 t"
  shows "yields (decode_NLSF_index t) (\<lambda>v. - 10 \<le> v \<and> v \<le> 10)"
proof -
  let ?e = "\<lambda>Ix d. if Ix = 0 then case ec_dec_icdf silk_NLSF_EXT_iCDF 8 d of (e, d) \<Rightarrow> (Ix - e, d)
      else if Ix = 2 * NLSF_QUANT_MAX_AMPLITUDE then case ec_dec_icdf silk_NLSF_EXT_iCDF 8 d of (e, d) \<Rightarrow> (Ix + e, d) else (Ix, d)"
  have "yields (?e Ix) (\<lambda>v. - 6 \<le> v \<and> v \<le> 14)" if "0 \<le> Ix \<and> Ix < int 9" for Ix
    using that by (intro yields_if yields_map [OF yields_icdf8 [OF side_tables_ok(5)]] yields_return) (auto simp: NLSF_QUANT_MAX_AMPLITUDE_def)
  from yields_bind [OF yields_icdf8 [OF assms], where f = ?e, OF this]
  have "yields (\<lambda>d. case ec_dec_icdf t 8 d of (Ix, d) \<Rightarrow> ?e Ix d) (\<lambda>v. - 6 \<le> v \<and> v \<le> 14)" .
  then have "yields (\<lambda>d. case (case ec_dec_icdf t 8 d of (Ix, d) \<Rightarrow> ?e Ix d) of (v, d) \<Rightarrow> (i8 (v - 4), d)) (\<lambda>v. - 10 \<le> v \<and> v \<le> 10)"
    by (rule yields_map) auto
  then show ?thesis by (rule yields_cong) (simp add: decode_NLSF_index_def Let_def case_prod_beta NLSF_QUANT_MAX_AMPLITUDE_def cong: if_cong)
qed

lemma yields_NLSFs:
  assumes cb: "NLSF_CB_ok cb" and st: "st \<in> {0, 1, 2}"
  shows "yields (decode_NLSFs cb st) (\<lambda>ns. length ns = nat (cb_order cb) + 1 \<and> NLSFs_ok cb ns)"
proof -
  let ?n = "nat (cb_order cb)"
  let ?t = "\<lambda>k i. icdf_at (ec_iCDF cb) (nat (fst (silk_NLSF_unpack cb k) ! i))"
  let ?f = "\<lambda>k d. case dec_seq (\<lambda>i. decode_NLSF_index (?t (i8 k) i)) [0..<?n] d of (ns, d) \<Rightarrow> (i8 k # ns, d)"
  have "yields (?f k) (\<lambda>ns. length ns = ?n + 1 \<and> NLSFs_ok cb ns)" if k: "0 \<le> k \<and> k < int 32" for k
  proof -
    have "yields (dec_seq (\<lambda>i. decode_NLSF_index (?t (i8 k) i)) [0..<?n]) (list_all2 (\<lambda>_ v. - 10 \<le> v \<and> v \<le> 10) [0..<?n])"
      using NLSF_unpack_ok(3) [OF cb] by (intro yields_seq yields_NLSF_index) auto
    then show ?thesis
      by (rule yields_map) (use k in \<open>auto simp: NLSFs_ok_def list_all2_const nth_Cons all_set_conv_all_nth split: nat.split\<close>)
  qed
  from yields_bind [OF yields_icdf8 [OF CB1_table_ok [OF cb st]], where f = ?f, OF this]
  show ?thesis by (rule yields_cong) (simp_all add: decode_NLSFs_def Let_def case_prod_beta)
qed

lemma yields_interp_factor: "yields (decode_interp_factor nb) (\<lambda>ip. 0 \<le> ip \<and> ip < 5)"
proof -
  have "yields (\<lambda>d. if nb = 4 then case ec_dec_icdf silk_NLSF_interpolation_factor_iCDF 8 d of (k, d) \<Rightarrow> (i8 k, d) else (4, d)) (\<lambda>ip. 0 \<le> ip \<and> ip < 5)"
    by (intro yields_if yields_mono [OF yields_i8 [OF side_tables_ok(6)]] yields_return) auto
  then show ?thesis by (rule yields_cong) (simp add: decode_interp_factor_def MAX_NB_SUBFR_def)
qed

lemma yields_absolute_lag:
  assumes "fs \<in> {8, 12, 16}"
  shows "yields (decode_absolute_lag fs (set_fs_lag_low_bits fs)) (\<lambda>lag. 0 \<le> lag \<and> lag < 16 * fs)"
proof -
  let ?f = "\<lambda>hi d. case ec_dec_icdf (set_fs_lag_low_bits fs) 8 d of (lo, d) \<Rightarrow> (i16 (i16 (i16 hi * drop_bit 1 fs) + i16 lo), d)"
  have "yields (?f hi) (\<lambda>lag. 0 \<le> lag \<and> lag < 16 * fs)" if "0 \<le> hi \<and> hi < int 32" for hi
    using yields_icdf8 [OF low_bits_table_ok [OF assms]]
    by (rule yields_map) (use assms that in \<open>auto simp: shift_arith simp del: One_nat_def\<close>)
  from yields_bind [OF yields_icdf8 [OF side_tables_ok(8)], where f = ?f, OF this]
  show ?thesis by (rule yields_cong) (simp_all add: decode_absolute_lag_def Let_def case_prod_beta)
qed

lemma i16_within: "- 32768 \<le> i16 x \<and> i16 x \<le> 32767"
  using i16_range [of x] by simp

lemma yields_lag:
  assumes "fs \<in> {8, 12, 16}"
  shows "yields (decode_lag fs (set_fs_lag_low_bits fs) condCoding prevType prevLagIndex) (\<lambda>lag. - 32768 \<le> lag \<and> lag \<le> 32767)"
    (is "yields _ ?P")
proof -
  have a: "yields (decode_absolute_lag fs (set_fs_lag_low_bits fs)) ?P"
    using yields_absolute_lag [OF assms] by (rule yields_mono) (use assms in auto)
  let ?f = "\<lambda>k d. if i16 k > 0 then (i16 (prevLagIndex + (i16 k - 9)), d) else decode_absolute_lag fs (set_fs_lag_low_bits fs) d"
  have "yields (?f k) ?P" for k using a by (intro yields_if yields_return i16_within)
  from yields_bind [OF yields_icdf8 [OF side_tables_ok(7)], where f = ?f, OF this]
  have "yields (\<lambda>d. case ec_dec_icdf silk_pitch_delta_iCDF 8 d of (k, d) \<Rightarrow> ?f k d) ?P" .
  with a have "yields (\<lambda>d. if condCoding = CODE_CONDITIONALLY \<and> prevType = TYPE_VOICED
      then case ec_dec_icdf silk_pitch_delta_iCDF 8 d of (k, d) \<Rightarrow> ?f k d else decode_absolute_lag fs (set_fs_lag_low_bits fs) d) ?P"
    by (intro yields_if)
  then show ?thesis by (rule yields_cong) (simp add: decode_lag_def)
qed

lemma yields_LTP:
  "yields (decode_LTP nb condCoding) (\<lambda>(per, ks, sc). length ks = nb \<and> LTP_ok nb condCoding (ix\<lparr>PERIndex := per, LTPIndex := ks @ rest, LTP_scaleIndex := sc\<rparr>))"
    (is "yields _ ?P")
proof -
  let ?s = "\<lambda>d. if condCoding = CODE_INDEPENDENTLY then case ec_dec_icdf silk_LTPscale_iCDF 8 d of (v, d) \<Rightarrow> (i8 v, d) else (0, d)"
  let ?k = "\<lambda>per. dec_seq (\<lambda>k d. case ec_dec_icdf (silk_LTP_gain_iCDF_ptrs ! nat per) 8 d of (v, d) \<Rightarrow> (i8 v, d)) [0..<nb]"
  let ?g = "\<lambda>per ks d. case ?s d of (sc, d) \<Rightarrow> ((per, ks, sc), d)"
  let ?f = "\<lambda>per d. case ?k per d of (ks, d) \<Rightarrow> ?g per ks d"
  let ?Q = "\<lambda>sc. 0 \<le> sc \<and> sc < 3 \<and> (condCoding \<noteq> CODE_INDEPENDENTLY \<longrightarrow> sc = 0)"
  have s: "yields ?s ?Q" by (intro yields_if yields_mono [OF yields_i8 [OF side_tables_ok(10)]] yields_return) auto
  have "yields (?f per) ?P" if per: "0 \<le> per \<and> per < int 3" for per
  proof -
    have "nat per \<le> 2" using per by linarith
    then have "(2::nat) ^ nat per \<le> 2 ^ 2" by (intro power_increasing) simp_all
    then have "yields (?k per) (list_all2 (\<lambda>_ v. 0 \<le> v \<and> v < int (8 * 2 ^ nat per)) [0..<nb])"
      using per by (intro yields_seq yields_i8 LTP_tables_ok) auto
    moreover have "yields (?g per ks) ?P" if "list_all2 (\<lambda>_ v. 0 \<le> v \<and> v < int (8 * 2 ^ nat per)) [0..<nb] ks" for ks
      using s by (rule yields_map) (use per that in \<open>auto simp: LTP_ok_def list_all2_const all_set_conv_all_nth nth_append\<close>)
    ultimately show ?thesis by (rule yields_bind)
  qed
  from yields_bind [OF yields_i8 [OF side_tables_ok(9)], where f = ?f, OF _ this]
  have "yields (\<lambda>d. case (case ec_dec_icdf silk_LTP_per_index_iCDF 8 d of (k, d) \<Rightarrow> (i8 k, d)) of (per, d) \<Rightarrow> ?f per d) ?P" by simp
  then show ?thesis by (rule yields_cong) (simp add: decode_LTP_def Let_def case_prod_beta cong: if_cong)
qed

text \<open>
  What a frame that was decoded has: every index is one of its table.
\<close>

definition base_ok :: "int \<Rightarrow> nat \<Rightarrow> int \<Rightarrow> SideInfoIndices \<Rightarrow> bool" where
  "base_ok fs nb condCoding ix \<longleftrightarrow> arrays_ok ix \<and> type_ok ix \<and> gains_ok nb condCoding (GainsIndices ix) \<and>
    NLSFs_ok (set_fs_NLSF_CB fs) (NLSFIndices ix) \<and> 0 \<le> NLSFInterpCoef_Q2 ix \<and> NLSFInterpCoef_Q2 ix < 5"

definition voiced_ok :: "int \<Rightarrow> nat \<Rightarrow> int \<Rightarrow> SideInfoIndices \<Rightarrow> bool" where
  "voiced_ok fs nb condCoding ix \<longleftrightarrow> - 32768 \<le> lagIndex ix \<and> lagIndex ix \<le> 32767 \<and>
    0 \<le> contourIndex ix \<and> contourIndex ix < int (contour_size fs nb) \<and> LTP_ok nb condCoding ix"

definition decoded_ok :: "int \<Rightarrow> nat \<Rightarrow> int \<Rightarrow> SideInfoIndices \<Rightarrow> bool" where
  "decoded_ok fs nb condCoding ix \<longleftrightarrow> base_ok fs nb condCoding ix \<and> 0 \<le> Seed ix \<and> Seed ix < 4 \<and>
    (signalType ix = TYPE_VOICED \<longrightarrow> voiced_ok fs nb condCoding ix)"

lemma length_array_put: "length xs \<le> length arr \<Longrightarrow> length (array_put xs arr) = length arr"
  by (simp add: array_put_def)

lemma gains_ok_put: "length gs = nb \<Longrightarrow> gains_ok nb condCoding gs \<Longrightarrow> gains_ok nb condCoding (array_put gs arr)"
  by (auto simp: gains_ok_def array_put_def nth_append)

lemma NLSFs_ok_put: "length ns = nat (cb_order cb) + 1 \<Longrightarrow> NLSFs_ok cb ns \<Longrightarrow> NLSFs_ok cb (array_put ns arr)"
  by (auto simp: NLSFs_ok_def array_put_def nth_append)

lemma base_ok_put:
  assumes "chan_ok (d :: silk_decoder_state)" "arrays_ok old" "st \<in> {0, 1, 2}" "qo \<in> {0, 1}"
    "length gs = nb_subfr d \<and> gains_ok (nb_subfr d) condCoding gs"
    "length ns = nat (cb_order (set_fs_NLSF_CB (fs_kHz d))) + 1 \<and> NLSFs_ok (set_fs_NLSF_CB (fs_kHz d)) ns" "0 \<le> ip \<and> ip < 5"
  shows "base_ok (fs_kHz d) (nb_subfr d) condCoding (old\<lparr>signalType := st, quantOffsetType := qo, GainsIndices := array_put gs (GainsIndices old),
    NLSFIndices := array_put ns (NLSFIndices old), NLSFInterpCoef_Q2 := ip\<rparr>)"
proof -
  have nb: "nb_subfr d \<le> 4" using assms(1) by (auto simp: chan_ok_def)
  have cb: "nat (cb_order (set_fs_NLSF_CB (fs_kHz d))) \<le> 16" using set_fs_NLSF_CB_ok [of "fs_kHz d"] by (auto simp: NLSF_CB_ok_def)
  have "gains_ok (nb_subfr d) condCoding (array_put gs (GainsIndices old))" using assms(5) by (blast intro: gains_ok_put)
  moreover have "NLSFs_ok (set_fs_NLSF_CB (fs_kHz d)) (array_put ns (NLSFIndices old))" using assms(6) by (blast intro: NLSFs_ok_put)
  moreover have "length (array_put gs (GainsIndices old)) = 4" "length (array_put ns (NLSFIndices old)) = 17"
    using assms(2,5,6) nb cb by (simp_all add: arrays_ok_def length_array_put)
  ultimately show ?thesis using assms(2-4,7) by (simp add: base_ok_def type_ok_def arrays_ok_def)
qed

lemma yields_voiced:
  assumes c: "chan_ok (d :: silk_decoder_state)" and b: "base_ok (fs_kHz d) (nb_subfr d) condCoding ix"
  shows "yields (decode_voiced d ix condCoding) (\<lambda>x. base_ok (fs_kHz d) (nb_subfr d) condCoding x \<and>
    voiced_ok (fs_kHz d) (nb_subfr d) condCoding x \<and> signalType x = signalType ix)"
    (is "yields _ ?P")
proof -
  let ?fs = "fs_kHz d" and ?nb = "nb_subfr d"
  let ?con = "set_fs_pitch_contour ?fs ?nb"
  let ?E = "\<lambda>lag c v. ix\<lparr>lagIndex := lag, contourIndex := c, PERIndex := fst v, LTPIndex := array_put (fst (snd v)) (LTPIndex ix), LTP_scaleIndex := snd (snd v)\<rparr>"
  let ?D2 = "\<lambda>lag c d. case decode_LTP ?nb condCoding d of (v, d) \<Rightarrow> (?E lag c v, d)"
  let ?C = "\<lambda>d. case ec_dec_icdf ?con 8 d of (c, d) \<Rightarrow> (i8 c, d)"
  let ?D1 = "\<lambda>lag d. case ?C d of (c, d) \<Rightarrow> ?D2 lag c d"
  let ?L = "decode_lag ?fs (set_fs_lag_low_bits ?fs) condCoding (ec_prevSignalType d) (ec_prevLagIndex d)"
  have fs: "?fs \<in> {8, 12, 16}" and nb: "?nb \<le> 4" using c by (auto simp: chan_ok_def)
  have con: "yields ?C (\<lambda>c. 0 \<le> c \<and> c < int (contour_size ?fs ?nb))"
    by (rule yields_i8 [OF contour_table_ok]) (simp add: contour_size_def)
  have 2: "yields (?D2 lag c) ?P" if "- 32768 \<le> lag \<and> lag \<le> 32767" "0 \<le> c \<and> c < int (contour_size ?fs ?nb)" for lag c
    using yields_LTP [where ix = "ix\<lparr>lagIndex := lag, contourIndex := c\<rparr>" and rest = "drop ?nb (LTPIndex ix)"]
    by (rule yields_map) (use that b nb in \<open>auto simp: array_put_def base_ok_def voiced_ok_def arrays_ok_def type_ok_def\<close>)
  have 1: "yields (?D1 lag) ?P" if "- 32768 \<le> lag \<and> lag \<le> 32767" for lag
    using con by (rule yields_bind) (rule 2 [OF that])
  have "yields (\<lambda>d. case ?L d of (lag, d) \<Rightarrow> ?D1 lag d) ?P"
    using yields_lag [OF fs] by (rule yields_bind) (rule 1)
  then show ?thesis
    by (rule yields_cong) (use c in \<open>simp add: decode_voiced_def chan_ok_def Let_def case_prod_beta\<close>)
qed

text \<open>The state that a decoded frame leaves: all but the indices and the two entries for conditional coding stay.\<close>

definition decodes_to :: "silk_decoder_state \<Rightarrow> int \<Rightarrow> silk_decoder_state \<Rightarrow> bool" where
  "decodes_to d condCoding d' \<longleftrightarrow> chan_ok d' \<and> decoded_ok (fs_kHz d) (nb_subfr d) condCoding (side_indices d') \<and>
    d' = d\<lparr>side_indices := side_indices d', ec_prevLagIndex := ec_prevLagIndex d', ec_prevSignalType := signalType (side_indices d')\<rparr>"

lemma decodes_to_seed:
  assumes "chan_ok d" "base_ok (fs_kHz d) (nb_subfr d) condCoding x" "signalType x = TYPE_VOICED \<longrightarrow> voiced_ok (fs_kHz d) (nb_subfr d) condCoding x"
    "0 \<le> sd \<and> sd < int 4"
  shows "decodes_to d condCoding (d\<lparr>side_indices := x\<lparr>Seed := sd\<rparr>,
    ec_prevLagIndex := (if signalType x = TYPE_VOICED then lagIndex x else ec_prevLagIndex d), ec_prevSignalType := signalType x\<rparr>)"
  using assms by (auto simp: decodes_to_def decoded_ok_def chan_ok_def base_ok_def voiced_ok_def arrays_ok_def type_ok_def LTP_ok_def)

lemma yields_indices:
  assumes "decoder_ok d"
  shows "yields (silk_decode_indices d F lbrr condCoding) (decodes_to d condCoding)"
proof -
  have c: "chan_ok d" and a: "arrays_ok (side_indices d)" using assms by (simp_all add: decoder_ok_def)
  let ?nb = "nb_subfr d" and ?cb = "set_fs_NLSF_CB (fs_kHz d)" and ?o = "side_indices d" and ?P = "decodes_to d condCoding"
  have nb: "0 < ?nb" using c by (auto simp: chan_ok_def)
  let ?x4 = "\<lambda>t gs ns ip. ?o\<lparr>signalType := fst t, quantOffsetType := snd t, GainsIndices := array_put gs (GainsIndices ?o),
    NLSFIndices := array_put ns (NLSFIndices ?o), NLSFInterpCoef_Q2 := ip\<rparr>"
  let ?V = "\<lambda>st x dd. if st = TYPE_VOICED then decode_voiced d x condCoding dd else (x, dd)"
  let ?F = "\<lambda>st x sd. d\<lparr>side_indices := x\<lparr>Seed := sd\<rparr>, ec_prevLagIndex := (if st = TYPE_VOICED then lagIndex x else ec_prevLagIndex d), ec_prevSignalType := st\<rparr>"
  let ?D5 = "\<lambda>st x dd. case (case ec_dec_icdf silk_uniform4_iCDF 8 dd of (k, dd) \<Rightarrow> (i8 k, dd)) of (sd, dd) \<Rightarrow> (?F st x sd, dd)"
  let ?D4 = "\<lambda>t gs ns ip dd. case ?V (fst t) (?x4 t gs ns ip) dd of (x, dd) \<Rightarrow> ?D5 (fst t) x dd"
  let ?D3 = "\<lambda>t gs ns dd. case decode_interp_factor ?nb dd of (ip, dd) \<Rightarrow> ?D4 t gs ns ip dd"
  let ?D2 = "\<lambda>t gs dd. case decode_NLSFs ?cb (fst t) dd of (ns, dd) \<Rightarrow> ?D3 t gs ns dd"
  let ?D1 = "\<lambda>t dd. case decode_gains ?nb (fst t) condCoding dd of (gs, dd) \<Rightarrow> ?D2 t gs dd"
  let ?T = "\<lambda>t. case t of (st, qo) \<Rightarrow> st \<in> {0 :: int, 1, 2} \<and> qo \<in> {0 :: int, 1}"
  let ?G = "\<lambda>gs. length gs = ?nb \<and> gains_ok ?nb condCoding gs"
  let ?N = "\<lambda>ns. length ns = nat (cb_order ?cb) + 1 \<and> NLSFs_ok ?cb ns"
  let ?R = "\<lambda>st x. base_ok (fs_kHz d) ?nb condCoding x \<and> (st = TYPE_VOICED \<longrightarrow> voiced_ok (fs_kHz d) ?nb condCoding x) \<and> signalType x = st"
  have D5: "yields (?D5 st x) ?P" if "?R st x" for st x
    using that decodes_to_seed [OF c, of condCoding x] by (intro yields_map [OF yields_i8 [OF side_tables_ok(11)]]) auto
  have V: "yields (?V (signalType x) x) (?R (signalType x))" if "base_ok (fs_kHz d) ?nb condCoding x" for x
    using that by (intro yields_if yields_return yields_mono [OF yields_voiced [OF c]]) auto
  have D4: "yields (?D4 t gs ns ip) ?P" if "?T t" "?G gs" "?N ns" "0 \<le> ip \<and> ip < 5" for t gs ns ip
  proof -
    have "base_ok (fs_kHz d) ?nb condCoding (?x4 t gs ns ip)" using that(1) by (intro base_ok_put [OF c a _ _ that(2-4)]) auto
    from V [OF this] have "yields (?V (fst t) (?x4 t gs ns ip)) (?R (fst t))" by simp
    then show ?thesis by (rule yields_bind) (rule D5)
  qed
  have D3: "yields (?D3 t gs ns) ?P" if "?T t" "?G gs" "?N ns" for t gs ns
    using yields_interp_factor by (rule yields_bind) (rule D4 [OF that])
  have D2: "yields (?D2 t gs) ?P" if "?T t" "?G gs" for t gs
    by (rule yields_bind [OF yields_NLSFs [OF set_fs_NLSF_CB_ok]]) (use that(1) in force, rule D3 [OF that])
  have D1: "yields (?D1 t) ?P" if "?T t" for t
    by (rule yields_bind [OF yields_gains [OF _ nb]]) (use that in force, rule D2 [OF that])
  have "yields (\<lambda>dd. case decode_type_offset (lbrr \<or> VAD_flags d ! F \<noteq> 0) dd of (t, dd) \<Rightarrow> ?D1 t dd) ?P"
    using yields_type_offset by (rule yields_bind) (rule D1)
  then show ?thesis
    by (rule yields_cong) (use c in \<open>simp add: silk_decode_indices_def chan_ok_def Let_def case_prod_beta cong: if_cong\<close>)
qed

section \<open>Properties\<close>

text \<open>
  C12. \<open>silk_decode_indices\<close> is safe on arbitrary input: whatever bytes the range decoder reads, every
  index of the decoded frame lies within the table that later stages look it up in (gains, both
  stages of the spectral envelope, interpolation factor, pitch contour, periodicity, long-term
  prediction codebook and scaling, seed), the arrays keep their lengths, the decoder changes nothing
  but the indices and its record of the frame before, and the range decoder stays sound.
\<close>

theorem silk_decode_indices_safe:
  fixes FrameIndex :: nat and decode_LBRR :: bool and condCoding :: int
  assumes "decoder_ok psDec" "dec_ok dec"
  defines "r \<equiv> silk_decode_indices psDec FrameIndex decode_LBRR condCoding dec"
  shows "decoded_ok (fs_kHz psDec) (nb_subfr psDec) condCoding (side_indices (fst r)) \<and> chan_ok (fst r) \<and> dec_ok (snd r) \<and>
    fst r = psDec\<lparr>side_indices := side_indices (fst r), ec_prevLagIndex := ec_prevLagIndex (fst r), ec_prevSignalType := signalType (side_indices (fst r))\<rparr>"
  using yieldsD [OF yields_indices [OF assms(1)] assms(2), of FrameIndex decode_LBRR condCoding] unfolding r_def decodes_to_def by blast

text \<open>A decoder after its reset, set up for a sampling rate and a number of subframes.\<close>

definition fresh_decoder :: "int \<Rightarrow> nat \<Rightarrow> silk_decoder_state" where
  "fresh_decoder fs nb = silk_decoder_set_fs (silk_reset_decoder\<lparr>nb_subfr := nb\<rparr>) fs"

lemma fresh_decoder_ok:
  assumes "fs \<in> {8, 12, 16}" "nb \<in> {2, 4}"
  shows "decoder_ok (fresh_decoder fs nb)" "fs_kHz (fresh_decoder fs nb) = fs" "nb_subfr (fresh_decoder fs nb) = nb"
  using decoder_set_fs_ok [OF assms(1), of "silk_reset_decoder\<lparr>nb_subfr := nb\<rparr>"] assms(2)
  by (simp_all add: fresh_decoder_def silk_reset_decoder_def zero_indices_def arrays_ok_def MAX_NB_SUBFR_def MAX_LPC_ORDER_def)

theorem silk_decode_indices_safe_witness:
  "decoded_ok 16 4 CODE_INDEPENDENTLY (side_indices (fst (silk_decode_indices (fresh_decoder 16 4) 0 False CODE_INDEPENDENTLY (ec_dec_init [200, 17, 5, 80] 4))))"
proof -
  have d: "decoder_ok (fresh_decoder 16 4)" "fs_kHz (fresh_decoder 16 4) = 16" "nb_subfr (fresh_decoder 16 4) = 4"
    by (rule fresh_decoder_ok, simp_all)+
  have "dec_ok (ec_dec_init [200, 17, 5, 80] 4)" by code_simp
  from silk_decode_indices_safe [OF d(1) this] show ?thesis unfolding d(2,3) by blast
qed

end
