(* ===== verification/Silk_Frame.thy ===== *)
theory Silk_Frame
  imports Silk_Indices
begin

text \<open>
  The bits of the frames of a packet: side information and excitation of each frame
  (\<open>silk/float/encode_frame_FLP.c\<close>, \<open>silk/decode_frame.c\<close>), coded conditionally on the frame before
  it from the second frame on (\<open>silk/enc_API.c\<close>, \<open>silk/dec_API.c\<close>), for the first channel, which is coded in every frame of a packet.
\<close>

section \<open>Model\<close>

definition encode_frame_fields :: "silk_encoder_state \<Rightarrow> nat \<Rightarrow> int \<Rightarrow> ec_ctx \<Rightarrow> silk_encoder_state \<times> ec_ctx" where
  "encode_frame_fields psEnc nFramesEncoded condCoding enc =
    (let (psEnc, enc) = silk_encode_indices psEnc nFramesEncoded False condCoding enc
     in (psEnc, silk_encode_pulses (signalType (side_indices psEnc)) (quantOffsetType (side_indices psEnc)) (enc_pulses psEnc) (frame_length psEnc) enc))"

definition decode_frame_fields :: "silk_decoder_state \<Rightarrow> bool \<Rightarrow> int \<Rightarrow> ec_ctx \<Rightarrow> (silk_decoder_state \<times> int list) \<times> ec_ctx" where
  "decode_frame_fields psDec decode_LBRR condCoding dec =
    (let (psDec, dec) = silk_decode_indices psDec (nFramesDecoded psDec) decode_LBRR condCoding dec;
         (pulses, dec) = silk_decode_pulses (signalType (side_indices psDec)) (quantOffsetType (side_indices psDec)) (frame_length psDec) dec
     in ((psDec, pulses), dec))"

text \<open>The type of conditional coding of a frame, and the frames of a packet.  The indices and pulses of each frame are the results of the analysis.\<close>

definition frame_condCoding :: "nat \<Rightarrow> int" where
  "frame_condCoding FrameIndex = (if FrameIndex = 0 then CODE_INDEPENDENTLY else CODE_CONDITIONALLY)"

fun encode_frames :: "nat \<Rightarrow> (SideInfoIndices \<times> int list) list \<Rightarrow> silk_encoder_state \<Rightarrow> ec_ctx \<Rightarrow> silk_encoder_state \<times> ec_ctx" where
  "encode_frames n [] psEnc enc = (psEnc, enc)"
| "encode_frames n ((ix, p) # frames) psEnc enc =
    (let (psEnc, enc) = encode_frame_fields (psEnc\<lparr>side_indices := ix, enc_pulses := p\<rparr>) n (frame_condCoding n) enc
     in encode_frames (Suc n) frames psEnc enc)"

fun decode_frames :: "nat \<Rightarrow> silk_decoder_state \<Rightarrow> ec_ctx \<Rightarrow> ((SideInfoIndices \<times> int list) list \<times> silk_decoder_state) \<times> ec_ctx" where
  "decode_frames 0 psDec dec = (([], psDec), dec)"
| "decode_frames (Suc k) psDec dec =
    (let ((psDec, pulses), dec) = decode_frame_fields psDec False (frame_condCoding (nFramesDecoded psDec)) dec;
         ix = side_indices psDec;
         ((frames, psDec), dec) = decode_frames k (psDec\<lparr>nFramesDecoded := Suc (nFramesDecoded psDec)\<rparr>) dec
     in (((ix, pulses) # frames, psDec), dec))"

section \<open>Round trip\<close>

text \<open>What the decoder has of a frame that was sent: every field that is part of the bit stream.\<close>

definition same_indices :: "int \<Rightarrow> nat \<Rightarrow> SideInfoIndices \<Rightarrow> SideInfoIndices \<Rightarrow> bool" where
  "same_indices fs nb ix ix' \<longleftrightarrow> signalType ix' = signalType ix \<and> quantOffsetType ix' = quantOffsetType ix \<and> Seed ix' = Seed ix \<and>
    take nb (GainsIndices ix') = take nb (GainsIndices ix) \<and>
    take (nat (cb_order (set_fs_NLSF_CB fs)) + 1) (NLSFIndices ix') = take (nat (cb_order (set_fs_NLSF_CB fs)) + 1) (NLSFIndices ix) \<and>
    NLSFInterpCoef_Q2 ix' = (if nb = 4 then NLSFInterpCoef_Q2 ix else 4) \<and>
    (signalType ix = TYPE_VOICED \<longrightarrow> lagIndex ix' = lagIndex ix \<and> contourIndex ix' = contourIndex ix \<and> PERIndex ix' = PERIndex ix \<and>
      take nb (LTPIndex ix') = take nb (LTPIndex ix) \<and> LTP_scaleIndex ix' = LTP_scaleIndex ix)"

lemma take_array_put: "n \<le> length xs \<Longrightarrow> take n (array_put (take n xs) arr) = take n xs"
  by (simp add: array_put_def)

lemma received_same:
  assumes "indices_ok fs nb condCoding ix"
  shows "same_indices fs nb ix (received fs nb ix old)"
  using assms by (auto simp: indices_ok_def gains_ok_def NLSFs_ok_def LTP_ok_def received_def same_indices_def take_array_put Let_def)

text \<open>A frame that can be sent as the \<open>n\<close>-th one to a decoder with these flags.\<close>

definition frame_ok :: "int \<Rightarrow> nat \<Rightarrow> int list \<Rightarrow> nat \<Rightarrow> SideInfoIndices \<times> int list \<Rightarrow> bool" where
  "frame_ok fs nb vad n f \<longleftrightarrow> indices_ok fs nb (frame_condCoding n) (fst f) \<and> (vad ! n \<noteq> 0 \<longleftrightarrow> 1 \<le> signalType (fst f)) \<and>
    set_fs_frame_length fs nb \<le> int (length (snd f)) \<and> list_all (\<lambda>x. - 128 \<le> x \<and> x \<le> 127) (snd f)"

fun frames_ok :: "int \<Rightarrow> nat \<Rightarrow> int list \<Rightarrow> nat \<Rightarrow> (SideInfoIndices \<times> int list) list \<Rightarrow> bool" where
  "frames_ok fs nb vad n [] \<longleftrightarrow> True"
| "frames_ok fs nb vad n (f # frames) \<longleftrightarrow> frame_ok fs nb vad n f \<and> frames_ok fs nb vad (Suc n) frames"

lemma frame_length_ok:
  assumes "chan_ok c"
  shows "0 \<le> frame_length c" "frame_length c mod 16 = 0 \<or> frame_length c = 120"
proof -
  have c: "fs_kHz c \<in> {8, 12, 16}" "nb_subfr c \<in> {2, 4}" "frame_length c = set_fs_frame_length (fs_kHz c) (nb_subfr c)"
    using assms unfolding chan_ok_def by blast+
  then have "frame_length c = 5 * int (nb_subfr c) * fs_kHz c" using set_fs_lengths(4) [OF c(1,2)] by simp
  then have "frame_length c \<in> {80, 120, 160, 240, 320}" using c(1,2) by auto
  then show "0 \<le> frame_length c" "frame_length c mod 16 = 0 \<or> frame_length c = 120" by auto
qed

lemma frame_pulses_ok:
  assumes c: "chan_ok c" and f: "frame_ok (fs_kHz c) (nb_subfr c) vad n (ix, p)"
  shows "pulse_frame_ok (signalType ix) (quantOffsetType ix) (frame_length c) p"
proof -
  have "type_ok ix" "set_fs_frame_length (fs_kHz c) (nb_subfr c) \<le> int (length p)" "list_all (\<lambda>x. - 128 \<le> x \<and> x \<le> 127) p"
    using f by (simp_all add: frame_ok_def indices_ok_def)
  moreover have "frame_length c = set_fs_frame_length (fs_kHz c) (nb_subfr c)" using c by (simp add: chan_ok_def)
  ultimately show ?thesis using frame_length_ok [OF c] unfolding pulse_frame_ok_def type_ok_def by simp
qed

text \<open>The states after one frame.\<close>

definition enc_after :: "silk_encoder_state \<Rightarrow> SideInfoIndices \<Rightarrow> int list \<Rightarrow> silk_encoder_state" where
  "enc_after e ix p = e\<lparr>side_indices := ix, enc_pulses := p, ec_prevLagIndex := (if signalType ix = TYPE_VOICED then lagIndex ix else ec_prevLagIndex e), ec_prevSignalType := signalType ix\<rparr>"

lemma encode_frame_fields_eq:
  "encode_frame_fields (e\<lparr>side_indices := ix, enc_pulses := p\<rparr>) n condCoding s =
    (enc_after e ix p, silk_encode_pulses (signalType ix) (quantOffsetType ix) p (frame_length e)
      (snd (silk_encode_indices (e\<lparr>side_indices := ix, enc_pulses := p\<rparr>) n False condCoding s)))"
proof -
  let ?e = "e\<lparr>side_indices := ix, enc_pulses := p\<rparr>"
  have "fst (silk_encode_indices ?e n False condCoding s) = enc_after e ix p"
    by (subst encode_indices_state [where ix = ix]) (simp_all add: enc_after_def)
  then show ?thesis by (simp add: encode_frame_fields_def case_prod_beta enc_after_def)
qed

text \<open>Encoder and decoder before frame \<open>n\<close>.\<close>

definition aligned :: "silk_encoder_state \<Rightarrow> silk_decoder_state \<Rightarrow> nat \<Rightarrow> bool" where
  "aligned e d n \<longleftrightarrow> chan_ok e \<and> chan_ok d \<and> same_rate e d \<and> nFramesDecoded d = n \<and> (0 < n \<longrightarrow> in_step e d)"

lemma aligned_after:
  assumes "aligned e d n" "frame_ok (fs_kHz e) (nb_subfr e) vad n (ix, p)"
  shows "aligned (enc_after e ix p) (after_indices d ix\<lparr>nFramesDecoded := Suc n\<rparr>) (Suc n)"
proof -
  have l: "signalType ix = TYPE_VOICED \<longrightarrow> 0 \<le> lagIndex ix \<and> lagIndex ix < 16 * fs_kHz e" using assms(2) by (simp add: frame_ok_def indices_ok_def)
  have e: "chan_ok e" "chan_ok d" "same_rate e d" "nFramesDecoded d = n" using assms(1) by (simp_all add: aligned_def)
  have "fs_kHz e \<le> 16" "fs_kHz d = fs_kHz e" using e(1,3) by (auto simp: chan_ok_def same_rate_def)
  then have "signalType ix = TYPE_VOICED \<longrightarrow> - 32768 \<le> lagIndex ix \<and> lagIndex ix \<le> 32767" using l by linarith
  then have "chan_ok (enc_after e ix p)" "chan_ok (after_indices d ix\<lparr>nFramesDecoded := Suc n\<rparr>)"
    using e(1,2) by (simp_all add: chan_ok_def enc_after_def after_indices_def)
  moreover have "same_rate (enc_after e ix p) (after_indices d ix\<lparr>nFramesDecoded := Suc n\<rparr>)" using e(3) by (simp add: same_rate_def enc_after_def after_indices_def)
  moreover have "in_step (enc_after e ix p) (after_indices d ix\<lparr>nFramesDecoded := Suc n\<rparr>)" by (simp add: in_step_def enc_after_def after_indices_def)
  ultimately show ?thesis by (simp add: aligned_def)
qed

lemma transmits_frame:
  assumes a: "aligned e d n" and f: "frame_ok (fs_kHz e) (nb_subfr e) (VAD_flags d) n (ix, p)"
  shows "transmits (\<lambda>s. snd (encode_frame_fields (e\<lparr>side_indices := ix, enc_pulses := p\<rparr>) n (frame_condCoding n) s))
    (decode_frame_fields d False (frame_condCoding n)) (after_indices d ix, pulse_frame p (frame_length d))"
proof -
  let ?e = "e\<lparr>side_indices := ix, enc_pulses := p\<rparr>" and ?c = "frame_condCoding n"
  have c: "chan_ok ?e" "chan_ok d" "same_rate ?e d" "?c = CODE_CONDITIONALLY \<longrightarrow> in_step ?e d" "nFramesDecoded d = n" "frame_length d = frame_length e"
    using a by (auto simp: aligned_def chan_ok_def same_rate_def in_step_def frame_condCoding_def CODE_CONDITIONALLY_def CODE_INDEPENDENTLY_def)
  let ?D = "\<lambda>d' dd. case silk_decode_pulses (signalType (side_indices d')) (quantOffsetType (side_indices d')) (frame_length d') dd of (q, dd) \<Rightarrow> ((d', q), dd)"
  have 1: "transmits (\<lambda>s. snd (silk_encode_indices ?e n False ?c s)) (silk_decode_indices d n False ?c) (after_indices d ix)"
    using c f by (intro transmits_indices) (auto simp: frame_ok_def)
  have i: "signalType (side_indices (after_indices d ix)) = signalType ix" "quantOffsetType (side_indices (after_indices d ix)) = quantOffsetType ix"
    "frame_length (after_indices d ix) = frame_length d"
    by (simp_all add: after_indices_def received_def Let_def)
  have "chan_ok e" using a by (simp add: aligned_def)
  from frame_pulses_ok [OF this f] have "pulse_frame_ok (signalType ix) (quantOffsetType ix) (frame_length d) p" by (simp add: c(6))
  from transmits_silk_pulses [OF this]
  have 2: "transmits (silk_encode_pulses (signalType ix) (quantOffsetType ix) p (frame_length e)) (?D (after_indices d ix)) (after_indices d ix, pulse_frame p (frame_length d))"
    unfolding i by (intro transmits_map) (simp_all add: c(6))
  show ?thesis
    by (rule transmits_cong [OF transmits_bind [OF 1, where ?dec2.0 = ?D, OF 2]])
      (simp_all add: encode_frame_fields_eq decode_frame_fields_def c(5) case_prod_beta)
qed

fun expected_frames :: "silk_decoder_state \<Rightarrow> (SideInfoIndices \<times> int list) list \<Rightarrow> (SideInfoIndices \<times> int list) list \<times> silk_decoder_state" where
  "expected_frames d [] = ([], d)"
| "expected_frames d ((ix, p) # frames) =
    (let d' = after_indices d ix; (r, d'') = expected_frames (d'\<lparr>nFramesDecoded := Suc (nFramesDecoded d)\<rparr>) frames
     in ((side_indices d', pulse_frame p (frame_length d)) # r, d''))"

lemma transmits_frames:
  assumes "aligned e d n" "frames_ok (fs_kHz e) (nb_subfr e) (VAD_flags d) n frames"
  shows "transmits (\<lambda>s. snd (encode_frames n frames e s)) (decode_frames (length frames) d) (expected_frames d frames)"
  using assms
proof (induction frames arbitrary: e d n)
  case Nil
  then show ?case by (simp add: transmits_return)
next
  case (Cons f frames)
  obtain ix p where f: "f = (ix, p)" by (cases f)
  have ok: "frame_ok (fs_kHz e) (nb_subfr e) (VAD_flags d) n (ix, p)" "frames_ok (fs_kHz e) (nb_subfr e) (VAD_flags d) (Suc n) frames"
    using Cons.prems(2) by (simp_all add: f)
  let ?e = "enc_after e ix p" and ?d = "after_indices d ix\<lparr>nFramesDecoded := Suc n\<rparr>" and ?q = "pulse_frame p (frame_length d)"
  have n: "nFramesDecoded d = n" "nFramesDecoded (after_indices d ix) = n" using Cons.prems(1) by (simp_all add: aligned_def after_indices_def)
  have "fs_kHz ?e = fs_kHz e" "nb_subfr ?e = nb_subfr e" "VAD_flags ?d = VAD_flags d" by (simp_all add: enc_after_def after_indices_def)
  then have IH: "transmits (\<lambda>s. snd (encode_frames (Suc n) frames ?e s)) (decode_frames (length frames) ?d) (expected_frames ?d frames)"
    using Cons.IH [OF aligned_after [OF Cons.prems(1) ok(1)]] ok(2) by simp
  let ?D = "\<lambda>x dd. case decode_frames (length frames) (fst x\<lparr>nFramesDecoded := Suc (nFramesDecoded (fst x))\<rparr>) dd of (r, dd) \<Rightarrow> (((side_indices (fst x), snd x) # fst r, snd r), dd)"
  have 2: "transmits (\<lambda>s. snd (encode_frames (Suc n) frames ?e s)) (?D (after_indices d ix, ?q)) ((side_indices (after_indices d ix), ?q) # fst (expected_frames ?d frames), snd (expected_frames ?d frames))"
    using IH by (intro transmits_map [where x = "expected_frames ?d frames"]) (simp_all add: n)
  have "transmits (\<lambda>s. snd (encode_frames n (f # frames) e s)) (decode_frames (length (f # frames)) d)
      ((side_indices (after_indices d ix), ?q) # fst (expected_frames ?d frames), snd (expected_frames ?d frames))"
    by (rule transmits_cong [OF transmits_bind [OF transmits_frame [OF Cons.prems(1) ok(1)], where ?dec2.0 = ?D, OF 2]])
      (simp_all add: f encode_frame_fields_eq case_prod_beta Let_def n)
  moreover have "expected_frames d (f # frames) = ((side_indices (after_indices d ix), ?q) # fst (expected_frames ?d frames), snd (expected_frames ?d frames))"
    by (simp add: f n case_prod_beta Let_def)
  ultimately show ?case by (simp only:)
qed

lemma expected_frames_same:
  assumes "frames_ok (fs_kHz d) (nb_subfr d) vad n frames"
  shows "list_all2 (\<lambda>(ix, p) (ix', p'). same_indices (fs_kHz d) (nb_subfr d) ix ix' \<and> p' = pulse_frame p (frame_length d)) frames (fst (expected_frames d frames))"
  using assms
proof (induction frames arbitrary: d n)
  case (Cons f frames)
  obtain ix p where f: "f = (ix, p)" by (cases f)
  have ok: "indices_ok (fs_kHz d) (nb_subfr d) (frame_condCoding n) ix" "frames_ok (fs_kHz d) (nb_subfr d) vad (Suc n) frames"
    using Cons.prems by (simp_all add: f frame_ok_def)
  let ?d = "after_indices d ix\<lparr>nFramesDecoded := Suc (nFramesDecoded d)\<rparr>"
  have "fs_kHz ?d = fs_kHz d" "nb_subfr ?d = nb_subfr d" "frame_length ?d = frame_length d" by (simp_all add: after_indices_def)
  then show ?case using Cons.IH [of ?d "Suc n"] ok received_same [OF ok(1)] by (simp add: f case_prod_beta Let_def after_indices_def)
qed simp

section \<open>Decoding arbitrary streams\<close>

lemma frame_decode_safe:
  fixes decode_LBRR :: bool and condCoding :: int
  assumes "decoder_ok psDec" "dec_ok dec"
  defines "r \<equiv> decode_frame_fields psDec decode_LBRR condCoding dec"
  shows "decoded_ok (fs_kHz psDec) (nb_subfr psDec) condCoding (side_indices (fst (fst r))) \<and> decoder_ok (fst (fst r)) \<and> dec_ok (snd r) \<and>
    length (snd (fst r)) = 16 * shell_iter (frame_length psDec) \<and> list_all (\<lambda>y. - 17408 < y \<and> y < 17408) (snd (fst r)) \<and>
    fst (fst r) = psDec\<lparr>side_indices := side_indices (fst (fst r)), ec_prevLagIndex := ec_prevLagIndex (fst (fst r)), ec_prevSignalType := signalType (side_indices (fst (fst r)))\<rparr>"
proof -
  obtain d1 x1 where 1: "silk_decode_indices psDec (nFramesDecoded psDec) decode_LBRR condCoding dec = (d1, x1)" by fastforce
  have i: "decodes_to psDec condCoding d1" "dec_ok x1"
    using yieldsD [OF yields_indices [OF assms(1)] assms(2), of "nFramesDecoded psDec" decode_LBRR condCoding] by (simp_all add: 1)
  then have d: "chan_ok d1" "decoded_ok (fs_kHz psDec) (nb_subfr psDec) condCoding (side_indices d1)"
    "d1 = psDec\<lparr>side_indices := side_indices d1, ec_prevLagIndex := ec_prevLagIndex d1, ec_prevSignalType := signalType (side_indices d1)\<rparr>"
    unfolding decodes_to_def by blast+
  note f = arg_cong [OF d(3)]
  have e: "fs_kHz d1 = fs_kHz psDec" "frame_length d1 = frame_length psDec" "subfr_length d1 = subfr_length psDec" "ltp_mem_length d1 = ltp_mem_length psDec"
    "LPC_order d1 = LPC_order psDec" "psNLSF_CB d1 = psNLSF_CB psDec"
    using f [of fs_kHz] f [of frame_length] f [of subfr_length] f [of ltp_mem_length] f [of LPC_order] f [of psNLSF_CB] by simp_all
  have t: "signalType (side_indices d1) \<in> {0, 1, 2}" "quantOffsetType (side_indices d1) \<in> {0, 1}" using d(2) by (auto simp: decoded_ok_def base_ok_def type_ok_def)
  obtain q x2 where 2: "silk_decode_pulses (signalType (side_indices d1)) (quantOffsetType (side_indices d1)) (frame_length d1) x1 = (q, x2)" by fastforce
  have p: "dec_ok x2" "length q = 16 * shell_iter (frame_length d1)" "\<forall>y\<in>set q. \<bar>y\<bar> < 17408"
    using yieldsD [OF yields_pulses [OF t frame_length_ok [OF d(1)]] i(2)] by (simp_all add: 2)
  have "r = ((d1, q), x2)" by (simp add: r_def decode_frame_fields_def 1 2)
  moreover have "decoder_ok d1" using assms(1) d(1,2) e by (simp add: decoder_ok_def decoded_ok_def base_ok_def)
  moreover have "list_all (\<lambda>y. - 17408 < y \<and> y < 17408) q" using p(3) by (auto simp: list_all_iff)
  ultimately show ?thesis using d(2,3) p(1,2) e(2) by (simp only: fst_conv snd_conv simp_thms)
qed

section \<open>Properties\<close>

text \<open>
  C5. All frames of a packet survive the bit stream: when the encoder codes any number of frames,
  the first independently and every further one conditionally on the frame before, then a
  decoder with the same sampling rate and number of subframes and with voice activity flags that
  fit the signal types recovers from the bytes, frame by frame, every transmitted index and all
  pulses, and ends at the same bit position.
\<close>

theorem silk_frames_roundtrip:
  assumes "chan_ok psEnc" "chan_ok psDec" "same_rate psEnc psDec" "nFramesDecoded psDec = 0"
    "frames_ok (fs_kHz psEnc) (nb_subfr psEnc) (VAD_flags psDec) 0 frames" "bytes b" "int (length b) = sz" "sz < 4294967296"
  defines "s \<equiv> snd (encode_frames 0 frames psEnc (ec_enc_init b sz))"
  defines "r \<equiv> decode_frames (length frames) psDec (ec_dec_init (buf (ec_enc_done s)) sz)"
  assumes "nbits_total s < 2147483648" "error (ec_enc_done s) = 0"
  shows "list_all2 (\<lambda>(ix, p) (ix', p'). same_indices (fs_kHz psEnc) (nb_subfr psEnc) ix ix' \<and> p' = pulse_frame p (frame_length psDec)) frames (fst (fst r)) \<and>
    ec_tell_frac (snd r) = ec_tell_frac s"
proof -
  have "aligned psEnc psDec 0" using assms(1-4) by (simp add: aligned_def)
  from stream_roundtrip [OF transmits_frames [OF this assms(5)] assms(6-8), folded s_def, OF assms(11,12), folded r_def]
  have r: "fst r = expected_frames psDec frames" "ec_tell_frac (snd r) = ec_tell_frac s" using coupled_tell by auto
  have "fs_kHz psDec = fs_kHz psEnc" "nb_subfr psDec = nb_subfr psEnc" using assms(3) by (simp_all add: same_rate_def)
  then show ?thesis using expected_frames_same [of psDec "VAD_flags psDec" 0 frames] assms(5) r by simp
qed

text \<open>An encoder with the setup of a decoder.\<close>

definition matching_encoder :: "silk_decoder_state \<Rightarrow> silk_encoder_state" where
  "matching_encoder d = \<lparr>fs_kHz = fs_kHz d, nb_subfr = nb_subfr d, frame_length = frame_length d, psNLSF_CB = psNLSF_CB d,
     pitch_lag_low_bits_iCDF = pitch_lag_low_bits_iCDF d, pitch_contour_iCDF = pitch_contour_iCDF d, nFramesPerPacket = nFramesPerPacket d,
     VAD_flags = VAD_flags d, LBRR_flag = 0, LBRR_flags = [0, 0, 0], ec_prevSignalType = 0, ec_prevLagIndex = 0, side_indices = zero_indices,
     enc_pulses = [], indices_LBRR = [], pulses_LBRR = []\<rparr>"

definition sample_indices :: SideInfoIndices where
  "sample_indices = zero_indices\<lparr>GainsIndices := [20, 3, 0, 0], NLSFIndices := [7, 1, - 2, 0, 0, 5, - 6, 0, 0, 0, 1, 0, 0, 0, 0, 0, 0], Seed := 2\<rparr>"

lemma encode_unvoiced:
  assumes "signalType ix \<noteq> TYPE_VOICED"
  shows "snd (silk_encode_indices (e\<lparr>side_indices := ix, enc_pulses := p\<rparr>) n False condCoding s) = ec_enc_icdf (Seed ix) silk_uniform4_iCDF 8
    (encode_interp_factor ix (nb_subfr e) (encode_NLSFs ix (psNLSF_CB e) (encode_gains ix (nb_subfr e) condCoding (encode_type_offset ix False s))))"
  using assms by (simp add: silk_encode_indices_def Let_def)

lemma encode_frames_Cons:
  "encode_frames n ((ix, p) # frames) e s = encode_frames (Suc n) frames (enc_after e ix p) (silk_encode_pulses (signalType ix) (quantOffsetType ix) p (frame_length e)
    (snd (silk_encode_indices (e\<lparr>side_indices := ix, enc_pulses := p\<rparr>) n False (frame_condCoding n) s)))"
  by (simp add: encode_frame_fields_eq)

lemma enc_after_fields:
  "frame_length (enc_after e ix p) = frame_length e" "psNLSF_CB (enc_after e ix p) = psNLSF_CB e" "nb_subfr (enc_after e ix p) = nb_subfr e"
  by (simp_all add: enc_after_def)

lemma frame_condCoding_simps: "frame_condCoding 0 = CODE_INDEPENDENTLY" "frame_condCoding (Suc n) = CODE_CONDITIONALLY"
  by (simp_all add: frame_condCoding_def)

theorem silk_frames_roundtrip_witness:
  "list_all2 (\<lambda>(ix, p) (ix', p'). same_indices 8 2 ix ix' \<and> p' = pulse_frame p 80)
    [(sample_indices, replicate 80 0), (sample_indices, replicate 80 0)]
    (fst (fst (decode_frames 2 (fresh_decoder 8 2) (ec_dec_init (buf (ec_enc_done (snd (encode_frames 0
      [(sample_indices, replicate 80 0), (sample_indices, replicate 80 0)] (matching_encoder (fresh_decoder 8 2)) (ec_enc_init (replicate 30 0) 30))))) 30))))"
proof -
  let ?d = "fresh_decoder 8 2" and ?f = "[(sample_indices, replicate 80 0), (sample_indices, replicate 80 0)] :: (SideInfoIndices \<times> int list) list"
  let ?e = "matching_encoder ?d" and ?z = "ec_enc_init (replicate 30 0) 30"
  have d: "decoder_ok ?d" "fs_kHz ?d = 8" "nb_subfr ?d = 2" by (rule fresh_decoder_ok, simp_all)+
  have d': "VAD_flags ?d = [0, 0, 0]" "nFramesDecoded ?d = 0" "frame_length ?d = 80" "psNLSF_CB ?d = silk_NLSF_CB_NB_MB" by code_simp+
  have c: "chan_ok ?d" using d(1) by (simp add: decoder_ok_def)
  then have e: "chan_ok ?e" "same_rate ?e ?d" "fs_kHz ?e = 8" "nb_subfr ?e = 2" using d by (simp_all add: chan_ok_def same_rate_def matching_encoder_def)
  have m: "frame_length ?e = 80" "psNLSF_CB ?e = silk_NLSF_CB_NB_MB" "nb_subfr ?e = 2" using d(3) d'(3,4) by (simp_all add: matching_encoder_def)
  have f: "frames_ok 8 2 [0, 0, 0] 0 ?f" by code_simp
  have v: "signalType sample_indices \<noteq> TYPE_VOICED" "signalType sample_indices = 0" "quantOffsetType sample_indices = 0" by code_simp+
  let ?g = "\<lambda>condCoding s. silk_encode_pulses 0 0 (replicate 80 0) 80 (ec_enc_icdf (Seed sample_indices) silk_uniform4_iCDF 8
    (encode_interp_factor sample_indices 2 (encode_NLSFs sample_indices silk_NLSF_CB_NB_MB (encode_gains sample_indices 2 condCoding (encode_type_offset sample_indices False s)))))"
  have s: "snd (encode_frames 0 ?f ?e ?z) = ?g CODE_CONDITIONALLY (?g CODE_INDEPENDENTLY ?z)"
    by (simp only: encode_frames_Cons encode_unvoiced [OF v(1)] encode_frames.simps(1) snd_conv enc_after_fields v(2,3) m frame_condCoding_simps)
  have n: "nbits_total (?g CODE_CONDITIONALLY (?g CODE_INDEPENDENTLY ?z)) < 2147483648 \<and> error (ec_enc_done (?g CODE_CONDITIONALLY (?g CODE_INDEPENDENTLY ?z))) = 0"
    by code_simp
  have b: "bytes (replicate 30 0)" "int (length (replicate 30 (0 :: int))) = 30" "(30 :: int) < 4294967296" by simp_all
  have f': "frames_ok (fs_kHz ?e) (nb_subfr ?e) (VAD_flags ?d) 0 ?f" unfolding e d'(1) by (rule f)
  have l: "length ?f = 2" by simp
  note r = silk_frames_roundtrip [OF e(1) c e(2) d'(2) f' b, unfolded s, OF conjunct1 [OF n] conjunct2 [OF n]]
  show ?thesis using r unfolding s l e(3,4) d'(3) by (elim conjE)
qed

end
