(* ===== verification/Silk_Gains.thy ===== *)
theory Silk_Gains
  imports Silk_Indices
begin

text \<open>
  Quantisation of the subframe gains (\<open>silk/gain_quant.c\<close>) and the logarithm and exponential it
  uses (\<open>silk/lin2log.c\<close>, \<open>silk/log2lin.c\<close>).
\<close>

section \<open>Logarithm and exponential\<close>

definition silk_lin2log :: "int \<Rightarrow> int" where
  "silk_lin2log inLin =
    (let (lz, frac_Q7) = silk_CLZ_FRAC inLin
     in i32 (silk_SMLAWB frac_Q7 (frac_Q7 * (128 - frac_Q7)) 179 + (31 - lz) * 128))"

definition silk_log2lin :: "int \<Rightarrow> int" where
  "silk_log2lin inLog_Q7 =
    (if inLog_Q7 < 0 then 0
     else if inLog_Q7 \<ge> 3967 then 2147483647
     else let out = push_bit (nat (drop_bit 7 inLog_Q7)) 1;
              frac_Q7 = inLog_Q7 AND 127;
              a = silk_SMLAWB frac_Q7 (silk_SMULBB frac_Q7 (128 - frac_Q7)) (- 174)
          in if inLog_Q7 < 2048 then out + drop_bit 7 (out * a) else out + drop_bit 7 out * a)"

section \<open>Gains\<close>

definition gain_OFFSET :: int where "gain_OFFSET = cdiv (MIN_QGAIN_DB * 128) 6 + 16 * 128"

definition SCALE_Q16 :: int where
  "SCALE_Q16 = cdiv (65536 * (N_LEVELS_QGAIN - 1)) (cdiv ((MAX_QGAIN_DB - MIN_QGAIN_DB) * 128) 6)"

definition INV_SCALE_Q16 :: int where
  "INV_SCALE_Q16 = cdiv (65536 * cdiv ((MAX_QGAIN_DB - MIN_QGAIN_DB) * 128) 6) (N_LEVELS_QGAIN - 1)"

text \<open>The gain of an index, and the thresholds and steps that encoder and decoder share.\<close>

definition gain_of_index :: "int \<Rightarrow> int" where
  "gain_of_index prev_ind = silk_log2lin (min (silk_SMULWB INV_SCALE_Q16 prev_ind + gain_OFFSET) 3967)"

definition double_step_size_threshold :: "int \<Rightarrow> int" where
  "double_step_size_threshold prev_ind = 2 * MAX_DELTA_GAIN_QUANT - N_LEVELS_QGAIN + prev_ind"

text \<open>One subframe: the index that is coded and the accumulated index; \<open>full\<close> for a first gain that is not coded as a difference.\<close>

definition raw_gain_index :: "int \<Rightarrow> int \<Rightarrow> int" where
  "raw_gain_index prev_ind gain =
    (let ind = i8 (silk_SMULWB SCALE_Q16 (silk_lin2log gain - gain_OFFSET));
         ind = (if ind < prev_ind then i8 (ind + 1) else ind)
     in i8 (silk_LIMIT ind 0 (N_LEVELS_QGAIN - 1)))"

definition delta_gain :: "int \<Rightarrow> int \<Rightarrow> int \<times> int" where
  "delta_gain prev_ind ind =
    (let ind = i8 (ind - prev_ind);
         thr = double_step_size_threshold prev_ind;
         ind = (if ind > thr then i8 (thr + drop_bit 1 (ind - thr + 1)) else ind);
         ind = i8 (silk_LIMIT ind MIN_DELTA_GAIN_QUANT MAX_DELTA_GAIN_QUANT);
         prev_ind = (if ind > thr then i8 (min (i8 (prev_ind + (2 * ind - thr))) (N_LEVELS_QGAIN - 1)) else i8 (prev_ind + ind))
     in (i8 (ind - MIN_DELTA_GAIN_QUANT), prev_ind))"

definition quant_gain :: "bool \<Rightarrow> int \<Rightarrow> int \<Rightarrow> int \<times> int" where
  "quant_gain full prev_ind gain =
    (let ind = raw_gain_index prev_ind gain
     in if full then let ind = i8 (silk_LIMIT ind (prev_ind + MIN_DELTA_GAIN_QUANT) (N_LEVELS_QGAIN - 1)) in (ind, ind)
        else delta_gain prev_ind ind)"

fun quant_gains :: "bool \<Rightarrow> int \<Rightarrow> int list \<Rightarrow> int list \<times> int list \<times> int" where
  "quant_gains full prev_ind [] = ([], [], prev_ind)"
| "quant_gains full prev_ind (g # gs) =
    (let (ind, prev_ind) = quant_gain full prev_ind g;
         (inds, gains, last_ind) = quant_gains False prev_ind gs
     in (ind # inds, gain_of_index prev_ind # gains, last_ind))"

text \<open>The indices, the quantised gains and the last index.\<close>

definition silk_gains_quant :: "int list \<Rightarrow> int \<Rightarrow> bool \<Rightarrow> nat \<Rightarrow> int list \<times> int list \<times> int" where
  "silk_gains_quant gain_Q16 prev_ind conditional nb = quant_gains (\<not> conditional) prev_ind (take nb gain_Q16)"

definition dequant_gain :: "bool \<Rightarrow> int \<Rightarrow> int \<Rightarrow> int" where
  "dequant_gain full prev_ind ind =
    (let prev_ind =
       (if full then i8 (max ind (prev_ind - 16))
        else let ind_tmp = ind + MIN_DELTA_GAIN_QUANT; thr = double_step_size_threshold prev_ind
             in if ind_tmp > thr then i8 (prev_ind + (2 * ind_tmp - thr)) else i8 (prev_ind + ind_tmp))
     in i8 (silk_LIMIT prev_ind 0 (N_LEVELS_QGAIN - 1)))"

fun dequant_gains :: "bool \<Rightarrow> int \<Rightarrow> int list \<Rightarrow> int list \<times> int" where
  "dequant_gains full prev_ind [] = ([], prev_ind)"
| "dequant_gains full prev_ind (ind # inds) =
    (let prev_ind = dequant_gain full prev_ind ind;
         (gains, last_ind) = dequant_gains False prev_ind inds
     in (gain_of_index prev_ind # gains, last_ind))"

definition silk_gains_dequant :: "int list \<Rightarrow> int \<Rightarrow> bool \<Rightarrow> nat \<Rightarrow> int list \<times> int" where
  "silk_gains_dequant ind prev_ind conditional nb = dequant_gains (\<not> conditional) prev_ind (take nb ind)"

definition silk_gains_ID :: "int list \<Rightarrow> nat \<Rightarrow> int" where
  "silk_gains_ID ind nb = fold (\<lambda>i gainsID. i32 (i + push_bit 8 gainsID)) (take nb ind) 0"

section \<open>Encoder and decoder agree\<close>

lemmas gain_consts = N_LEVELS_QGAIN_def MAX_DELTA_GAIN_QUANT_def MIN_DELTA_GAIN_QUANT_def double_step_size_threshold_def

lemma raw_gain_index_range: "0 \<le> raw_gain_index prev_ind gain" "raw_gain_index prev_ind gain \<le> 63"
proof -
  have "0 \<le> i8 (silk_LIMIT x 0 (N_LEVELS_QGAIN - 1)) \<and> i8 (silk_LIMIT x 0 (N_LEVELS_QGAIN - 1)) \<le> 63" for x
    by (simp add: silk_LIMIT_def gain_consts)
  then show "0 \<le> raw_gain_index prev_ind gain" "raw_gain_index prev_ind gain \<le> 63" by (simp_all add: raw_gain_index_def Let_def)
qed

text \<open>Without the casts, which never change a value.\<close>

definition delta_step :: "int \<Rightarrow> int \<Rightarrow> int" where
  "delta_step p d = (if d > 8 + p then 8 + p + (d - p - 7) div 2 else max d (- 4))"

lemma delta_step_range:
  assumes "0 \<le> p" "p \<le> 63" "- p \<le> d" "d \<le> 63 - p"
  shows "- 4 \<le> delta_step p d" "delta_step p d \<le> 36" "d > 8 + p \<longleftrightarrow> delta_step p d > 8 + p" "- p \<le> delta_step p d" "delta_step p d \<le> 8 + p \<Longrightarrow> p + delta_step p d \<le> 63"
  using assms by (auto simp: delta_step_def max_def)

lemma delta_gain_eq:
  assumes "0 \<le> p" "p \<le> 63" "0 \<le> i" "i \<le> 63" "s = delta_step p (i - p)"
  shows "delta_gain p i = (s + 4, if s > 8 + p then min (2 * s - 8) 63 else p + s)"
proof -
  have d: "- p \<le> i - p" "i - p \<le> 63 - p" using assms by auto
  note r = delta_step_range [OF assms(1,2) d, folded assms(5)]
  have "i8 (i - p) = i - p" using assms by simp
  moreover have "(if i - p > 8 + p then i8 (8 + p + drop_bit 1 (i - p - (8 + p) + 1)) else i - p) = (if i - p > 8 + p then s else i - p)"
    using assms r(2,3) by (auto simp: delta_step_def shift_arith algebra_simps simp del: One_nat_def)
  moreover have "i8 (silk_LIMIT (if i - p > 8 + p then s else i - p) (- 4) 36) = s"
    using assms r(1,2) by (auto simp: silk_LIMIT_def delta_step_def max_def split: if_splits)
  ultimately show ?thesis using r assms(1,2) by (cases "8 + p < s") (simp_all add: delta_gain_def gain_consts Let_def)
qed

lemma dequant_delta_eq:
  assumes "0 \<le> p" "p \<le> 63" "- p \<le> s" "s \<le> 36" "s \<le> 8 + p \<Longrightarrow> p + s \<le> 63"
  shows "dequant_gain False p (s + 4) = (if s > 8 + p then min (2 * s - 8) 63 else p + s)"
  using assms by (auto simp: dequant_gain_def gain_consts Let_def silk_LIMIT_def)

lemma delta_gain_ok:
  assumes "0 \<le> prev" "prev \<le> 63" "0 \<le> i" "i \<le> 63"
  shows "0 \<le> fst (delta_gain prev i) \<and> fst (delta_gain prev i) < 41 \<and> 0 \<le> snd (delta_gain prev i) \<and> snd (delta_gain prev i) \<le> 63 \<and>
    dequant_gain False prev (fst (delta_gain prev i)) = snd (delta_gain prev i)"
proof -
  have d: "- prev \<le> i - prev" "i - prev \<le> 63 - prev" using assms by auto
  note r = delta_step_range [OF assms(1,2) d]
  show ?thesis using r dequant_delta_eq [OF assms(1,2) r(4) r(2) r(5)] assms(1) by (simp add: delta_gain_eq [OF assms refl])
qed

lemma full_gain_ok:
  assumes "0 \<le> prev" "prev \<le> 63" "0 \<le> i" "i \<le> 63" "j = i8 (silk_LIMIT i (prev + MIN_DELTA_GAIN_QUANT) (N_LEVELS_QGAIN - 1))"
  shows "0 \<le> j \<and> j < 64 \<and> dequant_gain True prev j = j"
  using assms by (auto simp: silk_LIMIT_def gain_consts dequant_gain_def Let_def)

lemma quant_gain_ok:
  assumes "0 \<le> prev" "prev \<le> 63" "r = quant_gain full prev g"
  shows "0 \<le> fst r \<and> fst r < (if full then 64 else 41) \<and> 0 \<le> snd r \<and> snd r \<le> 63 \<and> dequant_gain full prev (fst r) = snd r"
  using delta_gain_ok [OF assms(1,2) raw_gain_index_range [of prev g]] full_gain_ok [OF assms(1,2) raw_gain_index_range [of prev g] refl] assms(3)
  by (auto simp: quant_gain_def Let_def)

lemma quant_gains_ok:
  assumes "0 \<le> prev" "prev \<le> 63" "quant_gains full prev gs = (inds, gains, lst)"
  shows "length inds = length gs \<and> dequant_gains full prev inds = (gains, lst) \<and> 0 \<le> lst \<and> lst \<le> 63 \<and>
    (\<forall>k < length gs. 0 \<le> inds ! k \<and> inds ! k < (if full \<and> k = 0 then 64 else 41))"
  using assms
proof (induction gs arbitrary: full prev inds gains lst)
  case (Cons g gs)
  obtain ind p where q: "quant_gain full prev g = (ind, p)" by (cases "quant_gain full prev g")
  obtain inds' gains' lst' where r: "quant_gains False p gs = (inds', gains', lst')" by (cases "quant_gains False p gs") auto
  have e: "inds = ind # inds'" "gains = gain_of_index p # gains'" "lst = lst'" using Cons.prems(3) q r by auto
  have p: "0 \<le> ind" "ind < (if full then 64 else 41)" "0 \<le> p" "p \<le> 63" "dequant_gain full prev ind = p"
    using quant_gain_ok [OF Cons.prems(1,2) q [symmetric]] by auto
  from Cons.IH [OF p(3,4) r] e p show ?case by (auto simp: nth_Cons split: nat.split)
qed auto

section \<open>Decoding arbitrary indices\<close>

lemma gain_of_index_range:
  assumes "0 \<le> p" "p \<le> 63"
  shows "81920 \<le> gain_of_index p \<and> gain_of_index p \<le> 1686110208"
proof -
  have "list_all (\<lambda>p. 81920 \<le> gain_of_index p \<and> gain_of_index p \<le> 1686110208) [0..63]" by code_simp
  then show ?thesis using assms by (simp add: list_all_iff)
qed

lemma dequant_gain_range: "0 \<le> dequant_gain full p ind \<and> dequant_gain full p ind \<le> 63"
proof -
  have "0 \<le> i8 (silk_LIMIT x 0 (N_LEVELS_QGAIN - 1)) \<and> i8 (silk_LIMIT x 0 (N_LEVELS_QGAIN - 1)) \<le> 63" for x
    by (simp add: silk_LIMIT_def gain_consts)
  then show ?thesis by (simp add: dequant_gain_def Let_def)
qed

lemma dequant_gains_range:
  assumes "dequant_gains full p inds = (gains, lst)" "0 \<le> p" "p \<le> 63"
  shows "length gains = length inds \<and> (\<forall>g \<in> set gains. 81920 \<le> g \<and> g \<le> 1686110208) \<and> 0 \<le> lst \<and> lst \<le> 63"
  using assms
proof (induction inds arbitrary: full p gains lst)
  case (Cons ind inds)
  let ?p = "dequant_gain full p ind"
  obtain gains' lst' where r: "dequant_gains False ?p inds = (gains', lst')" by (cases "dequant_gains False ?p inds")
  have p: "0 \<le> ?p" "?p \<le> 63" using dequant_gain_range by auto
  show ?case using Cons.IH [OF r p] Cons.prems(1) r gain_of_index_range [OF p] by auto
qed auto

section \<open>Identifiers\<close>

lemma gains_ID_step:
  assumes "0 \<le> i" "i < 64" "0 \<le> g" "g < 4194304"
  shows "i32 (i + push_bit 8 g) = i + 256 * g"
  using assms by (simp add: push_bit_eq_mult i32_def)

lemma gains_ID_append:
  assumes "length xs \<le> 3" "\<forall>i \<in> set (xs @ [x]). 0 \<le> i \<and> i < 64"
  shows "silk_gains_ID (xs @ [x]) (length xs + 1) = x + 256 * silk_gains_ID xs (length xs) \<and>
    0 \<le> silk_gains_ID (xs @ [x]) (length xs + 1) \<and> silk_gains_ID (xs @ [x]) (length xs + 1) < 64 * 256 ^ length xs"
  using assms
proof (induction xs arbitrary: x rule: rev_induct)
  case Nil
  then show ?case by (simp add: silk_gains_ID_def)
next
  case (snoc y xs)
  have r: "0 \<le> silk_gains_ID (xs @ [y]) (length xs + 1)" "silk_gains_ID (xs @ [y]) (length xs + 1) < 64 * 256 ^ length xs"
    using snoc.IH [of y] snoc.prems by auto
  have "(256 :: int) ^ length xs \<le> 256 ^ 2" using snoc.prems by (intro power_increasing) auto
  then have "silk_gains_ID (xs @ [y]) (length xs + 1) < 4194304" using r(2) by simp
  then have "silk_gains_ID (xs @ [y, x]) (length xs + 2) = x + 256 * silk_gains_ID (xs @ [y]) (length xs + 1)"
    using gains_ID_step [of x "silk_gains_ID (xs @ [y]) (length xs + 1)"] r(1) snoc.prems(2) by (simp add: silk_gains_ID_def)
  then show ?case using r snoc.prems(2) by auto
qed

lemma base_256_digit:
  assumes "x + 256 * a = z + 256 * (b :: int)" "0 \<le> x" "x < 64" "0 \<le> z" "z < 64"
  shows "x = z" "a = b"
proof -
  show "a = b" using assms by (cases a b rule: linorder_cases) linarith+
  then show "x = z" using assms(1) by simp
qed

text \<open>The identifier of a vector of gain indices is unique.\<close>

lemma gains_ID_unique:
  assumes "length xs = length ys" "length xs \<le> 4" "\<forall>i \<in> set xs \<union> set ys. 0 \<le> i \<and> i < 64"
    "silk_gains_ID xs (length xs) = silk_gains_ID ys (length ys)"
  shows "xs = ys"
  using assms
proof (induction xs arbitrary: ys rule: rev_induct)
  case (snoc x xs)
  obtain zs z where y: "ys = zs @ [z]" using snoc.prems(1) by (cases ys rule: rev_cases) auto
  have e: "x + 256 * silk_gains_ID xs (length xs) = z + 256 * silk_gains_ID zs (length zs)"
    using snoc.prems gains_ID_append [of xs x] gains_ID_append [of zs z] y by auto
  moreover have "0 \<le> x" "x < 64" "0 \<le> z" "z < 64" using snoc.prems(3) y by auto
  ultimately have "x = z" "silk_gains_ID xs (length xs) = silk_gains_ID zs (length zs)" using base_256_digit by blast+
  then show ?case using snoc.IH [of zs] snoc.prems(1-3) y by auto
qed simp

section \<open>Properties\<close>

text \<open>
  C27. Encoder and decoder agree on the gains: for every previous index and all gains the quantiser
  returns indices that the side information can code, the decoder reconstructs from them exactly the
  gains that the encoder goes on with and arrives at the same last index, which lies in 0 to 63, and
  the reconstructed gains lie between 81920 and 1686110208 (1.25 and 25728 in Q16), so they are never zero.
\<close>

theorem gains_quant_dequant:
  assumes "0 \<le> prev_ind" "prev_ind \<le> 63" "nb \<le> length gain_Q16" "0 < nb"
    "silk_gains_quant gain_Q16 prev_ind (condCoding = CODE_CONDITIONALLY) nb = (ind, gains, last_ind)"
  shows "gains_ok nb condCoding ind \<and> silk_gains_dequant ind prev_ind (condCoding = CODE_CONDITIONALLY) nb = (gains, last_ind) \<and>
    0 \<le> last_ind \<and> last_ind \<le> 63 \<and> list_all (\<lambda>g. 81920 \<le> g \<and> g \<le> 1686110208) gains"
proof -
  have l: "length (take nb gain_Q16) = nb" using assms(3) by simp
  note q = quant_gains_ok [OF assms(1,2) assms(5) [unfolded silk_gains_quant_def], unfolded l]
  then have d: "dequant_gains (condCoding \<noteq> CODE_CONDITIONALLY) prev_ind ind = (gains, last_ind)" "length ind = nb" by auto
  then have "silk_gains_dequant ind prev_ind (condCoding = CODE_CONDITIONALLY) nb = (gains, last_ind)" by (simp add: silk_gains_dequant_def)
  then show ?thesis using q dequant_gains_range [OF d(1) assms(1,2)] assms(4) by (auto simp: gains_ok_def list_all_iff)
qed

theorem gains_quant_dequant_witness:
  "silk_gains_dequant [11, 6, 2, 39] 10 False 4 = ([464896, 634880, 464896, 1434451968], 62)"
proof -
  have c: "(CODE_INDEPENDENTLY = CODE_CONDITIONALLY) = False" by code_simp
  have i: "quant_gain True 10 500000 = (11, 11)" "quant_gain False 11 700000 = (6, 13)" "quant_gain False 13 400000 = (2, 11)" "quant_gain False 11 1500000000 = (39, 62)"
    by code_simp+
  have g: "gain_of_index 11 = 464896" "gain_of_index 13 = 634880" "gain_of_index 62 = 1434451968" by code_simp+
  have "silk_gains_quant [500000, 700000, 400000, 1500000000] 10 (CODE_INDEPENDENTLY = CODE_CONDITIONALLY) 4 = ([11, 6, 2, 39], [464896, 634880, 464896, 1434451968], 62)"
    by (simp add: silk_gains_quant_def c i g)
  from gains_quant_dequant [OF _ _ _ _ this] show ?thesis by (simp add: c)
qed

end
