(* ===== verification/Silk_Sort.thy ===== *)
theory Silk_Sort
  imports "HOL-Library.Multiset"
begin

text \<open>
  The insertion sorts of SILK (\<open>silk/sort.c\<close>): of a whole vector, and of the smallest entries of a
  vector with their indices.
\<close>

section \<open>Model\<close>

text \<open>
  The inner loop: entries with a key above \<open>v\<close> move up by one place, from position \<open>m - 1\<close> down;
  the result is the place that became free.
\<close>

fun shift_up :: "('a \<Rightarrow> int) \<Rightarrow> int \<Rightarrow> 'a list \<Rightarrow> nat \<Rightarrow> 'a list \<times> nat" where
  "shift_up key v a 0 = (a, 0)"
| "shift_up key v a (Suc j) = (if v < key (a ! j) then shift_up key v (a[Suc j := a ! j]) j else (a, Suc j))"

definition insert_entry :: "('a \<Rightarrow> int) \<Rightarrow> 'a \<Rightarrow> 'a list \<Rightarrow> nat \<Rightarrow> 'a list" where
  "insert_entry key x a i = (let (a, m) = shift_up key (key x) a i in a[m := x])"

definition silk_insertion_sort_increasing_all_values_int16 :: "int list \<Rightarrow> int list" where
  "silk_insertion_sort_increasing_all_values_int16 a = fold (\<lambda>i a. insert_entry (\<lambda>x. x) (a ! i) a i) [1..<length a] a"

text \<open>The first \<open>K\<close> entries of the vector and of the index vector as one list of pairs; the other entries are only read.\<close>

definition silk_insertion_sort_increasing :: "int list \<Rightarrow> nat \<Rightarrow> (int \<times> nat) list" where
  "silk_insertion_sort_increasing a K =
    (let ps = zip (take K a) [0..<K];
         ps = fold (\<lambda>i ps. insert_entry fst (fst (ps ! i), i) ps i) [1..<K] ps
     in fold (\<lambda>i ps. if a ! i < fst (ps ! (K - 1)) then insert_entry fst (a ! i, i) ps (K - 1) else ps) [K..<length a] ps)"

section \<open>One insertion\<close>

lemma insert_entry_split:
  assumes "i < length a"
  shows "\<exists>m \<le> i. insert_entry key x a i = take m a @ x # drop m (take i a) @ drop (Suc i) a \<and>
    (\<forall>y \<in> set (drop m (take i a)). key x < key y) \<and> (0 < m \<longrightarrow> key (a ! (m - 1)) \<le> key x)"
  using assms
proof (induction i arbitrary: a)
  case 0
  then show ?case by (cases a) (auto simp: insert_entry_def)
next
  case (Suc j)
  show ?case
  proof (cases "key x < key (a ! j)")
    case True
    let ?a = "a[Suc j := a ! j]"
    have "insert_entry key x a (Suc j) = insert_entry key x ?a j" using True by (simp add: insert_entry_def)
    moreover obtain m where m: "m \<le> j" "insert_entry key x ?a j = take m ?a @ x # drop m (take j ?a) @ drop (Suc j) ?a"
        "\<forall>y \<in> set (drop m (take j ?a)). key x < key y" "0 < m \<longrightarrow> key (?a ! (m - 1)) \<le> key x"
      using Suc.IH [of ?a] Suc.prems by (metis Suc_lessD length_list_update)
    moreover have "drop m (take (Suc j) a) = drop m (take j a) @ [a ! j]" using m(1) Suc.prems by (simp add: take_Suc_conv_app_nth)
    moreover have "drop (Suc j) ?a = a ! j # drop (Suc (Suc j)) a" using Suc.prems by (simp add: drop_update_cancel Cons_nth_drop_Suc [symmetric])
    ultimately show ?thesis using True by (intro exI [of _ m]) auto
  next
    case False
    then show ?thesis using Suc.prems by (intro exI [of _ "Suc j"]) (auto simp: insert_entry_def id_take_nth_drop [symmetric] upd_conv_take_nth_drop)
  qed
qed

text \<open>Insertion into a sorted prefix, seen on the keys.\<close>

lemma insort_split:
  assumes "sorted (xs @ ys)" "\<forall>y \<in> set ys. v < y" "xs \<noteq> [] \<longrightarrow> last xs \<le> v"
  shows "xs @ v # ys = insort v (xs @ ys)"
proof -
  have "x \<le> v" if "x \<in> set xs" for x
  proof -
    have "x \<le> last xs" using that assms(1) by (cases xs rule: rev_cases) (auto simp: sorted_append)
    then show ?thesis using that assms(3) by force
  qed
  then have "sorted (xs @ v # ys)" using assms(1,2) by (auto simp: sorted_append less_imp_le)
  moreover have "mset (xs @ v # ys) = mset (insort v (xs @ ys))" by simp
  ultimately show ?thesis using sorted_insort [of v "xs @ ys"] assms(1) by (metis properties_for_sort sorted_sort_id)
qed

lemma insert_entry_keys:
  assumes "i < length a" "sorted (map key (take i a))"
  shows "map key (take (Suc i) (insert_entry key x a i)) = insort (key x) (map key (take i a))"
    "drop (Suc i) (insert_entry key x a i) = drop (Suc i) a" "length (insert_entry key x a i) = length a"
    "mset (take (Suc i) (insert_entry key x a i)) = add_mset x (mset (take i a))"
proof -
  obtain m where m: "m \<le> i" "insert_entry key x a i = take m a @ x # drop m (take i a) @ drop (Suc i) a"
      "\<forall>y \<in> set (drop m (take i a)). key x < key y" "0 < m \<longrightarrow> key (a ! (m - 1)) \<le> key x"
    using insert_entry_split [OF assms(1)] by metis
  have ta: "take i a = take m a @ drop m (take i a)" using m(1) by (metis append_take_drop_id min.absorb1 take_take)
  have l: "length (take m a @ x # drop m (take i a)) = Suc i" using m(1) assms(1) by simp
  have t: "take (Suc i) (insert_entry key x a i) = take m a @ x # drop m (take i a)" unfolding m(2) using l by (metis append.assoc append_Cons append_eq_conv_conj)
  have k: "map key (take i a) = map key (take m a) @ map key (drop m (take i a))" using arg_cong [OF ta, of "map key"] by (simp only: map_append)
  have "map key (take m a) @ key x # map key (drop m (take i a)) = insort (key x) (map key (take m a) @ map key (drop m (take i a)))"
  proof (rule insort_split)
    show "sorted (map key (take m a) @ map key (drop m (take i a)))" using assms(2) unfolding k .
    show "\<forall>y \<in> set (map key (drop m (take i a))). key x < y" using m(3) by (simp only: set_map) blast
    show "map key (take m a) \<noteq> [] \<longrightarrow> last (map key (take m a)) \<le> key x" using m(1,4) assms(1) by (auto simp: last_conv_nth)
  qed
  then show "map key (take (Suc i) (insert_entry key x a i)) = insort (key x) (map key (take i a))" unfolding t k by simp
  show "drop (Suc i) (insert_entry key x a i) = drop (Suc i) a" unfolding m(2) using l by (metis append.assoc append_Cons append_eq_conv_conj)
  show "length (insert_entry key x a i) = length a" unfolding m(2) using m(1) assms(1) by simp
  show "mset (take (Suc i) (insert_entry key x a i)) = add_mset x (mset (take i a))" unfolding t using arg_cong [OF ta, of mset] by simp
qed

section \<open>The loops\<close>

lemma insertion_loop:
  assumes "0 < n" "n \<le> length a" "b = fold (\<lambda>i b. insert_entry key (b ! i) b i) [1..<n] a"
  shows "map key (take n b) = sort (map key (take n a)) \<and> mset (take n b) = mset (take n a) \<and> drop n b = drop n a \<and> length b = length a"
  using assms
proof (induction n arbitrary: b)
  case (Suc n)
  show ?case
  proof (cases "n = 0")
    case True
    then show ?thesis using Suc.prems by (cases a) auto
  next
    case False
    let ?c = "fold (\<lambda>i b. insert_entry key (b ! i) b i) [1..<n] a"
    have c: "map key (take n ?c) = sort (map key (take n a))" "mset (take n ?c) = mset (take n a)" "drop n ?c = drop n a" "length ?c = length a"
      using Suc.IH [of ?c] Suc.prems(2) False by auto
    have n: "n < length ?c" using Suc.prems(2) c(4) by simp
    have "hd (drop n ?c) = ?c ! n" using n by (rule hd_drop_conv_nth)
    moreover have "hd (drop n a) = a ! n" using Suc.prems(2) by (intro hd_drop_conv_nth) simp
    ultimately have e: "?c ! n = a ! n" unfolding c(3) by simp
    have b: "b = insert_entry key (a ! n) ?c n" using Suc.prems(3) False e by simp
    have s: "sorted (map key (take n ?c))" unfolding c(1) by simp
    note k = insert_entry_keys [OF n s, of "a ! n", folded b]
    have t: "take (Suc n) a = take n a @ [a ! n]" using Suc.prems(2) by (simp add: take_Suc_conv_app_nth)
    have "insort (key (a ! n)) (sort (map key (take n a))) = sort (map key (take (Suc n) a))"
      unfolding t by (intro properties_for_sort [symmetric]) (simp_all add: sorted_insort)
    moreover have "drop (Suc n) ?c = drop (Suc n) a" using arg_cong [OF c(3), of tl] by (simp add: drop_Suc tl_drop)
    ultimately show ?thesis using k c by (simp add: t)
  qed
qed simp

lemma take_insort_below:
  "sorted S \<Longrightarrow> K < length S \<Longrightarrow> v < S ! K \<Longrightarrow> take (Suc K) (insort v S) = insort (v :: int) (take K S)"
proof (induction S arbitrary: K)
  case (Cons s S)
  show ?case
  proof (cases "v \<le> s")
    case True
    then show ?thesis by (cases K) auto
  next
    case False
    then obtain k where k: "K = Suc k" using Cons.prems(3) by (cases K) auto
    then show ?thesis using Cons False by simp
  qed
qed simp

lemma take_insort_above:
  "sorted S \<Longrightarrow> K < length S \<Longrightarrow> S ! K \<le> v \<Longrightarrow> take (Suc K) (insort v S) = take (Suc K) (S :: int list)"
proof (induction S arbitrary: K)
  case (Cons s S)
  show ?case
  proof (cases "v \<le> s")
    case True
    have "(s # S) ! i = v" if "i \<le> K" for i
    proof -
      have "(s # S) ! 0 \<le> (s # S) ! i" "(s # S) ! i \<le> (s # S) ! K" using that Cons.prems(1,2) by (metis le0 sorted_nth_mono le_less_trans, metis sorted_nth_mono)
      then show ?thesis using True Cons.prems(3) by simp
    qed
    note v = this
    have "(v # s # S) ! i = (s # S) ! i" if "i \<le> K" for i
      using v [of i] v [of "i - 1"] that by (cases i) auto
    then have "take (Suc K) (v # s # S) = take (Suc K) (s # S)"
      using Cons.prems(2) by (intro nth_equalityI) (auto simp: less_Suc_eq_le simp del: take_Suc_Cons)
    then show ?thesis using True by simp
  next
    case False
    then show ?thesis using Cons by (cases K) auto
  qed
qed simp

definition sort_entries :: "int list \<Rightarrow> nat \<Rightarrow> (int \<times> nat) list \<Rightarrow> bool" where
  "sort_entries a n ps \<longleftrightarrow> distinct (map snd ps) \<and> (\<forall>(v, i) \<in> set ps. i < n \<and> v = a ! i)"

lemma sort_first_loop:
  assumes "n \<le> K" "K \<le> length a"
  shows "fold (\<lambda>i ps. insert_entry fst (fst (ps ! i), i) ps i) [1..<n] (zip (take K a) [0..<K]) =
    fold (\<lambda>i ps. insert_entry fst (ps ! i) ps i) [1..<n] (zip (take K a) [0..<K])"
  using assms(1)
proof (induction n)
  case (Suc n)
  let ?z = "zip (take K a) [0..<K]"
  let ?b = "fold (\<lambda>i ps. insert_entry fst (ps ! i) ps i) [1..<n] ?z"
  show ?case
  proof (cases "n = 0")
    case False
    have l: "length ?z = K" using assms(2) by simp
    then have b: "drop n ?b = drop n ?z" "length ?b = K" using insertion_loop [of n ?z ?b fst] False Suc.prems by auto
    have "?b ! n = hd (drop n ?b)" using b(2) Suc.prems by (simp add: hd_drop_conv_nth)
    also have "\<dots> = ?z ! n" unfolding b(1) using l Suc.prems by (intro hd_drop_conv_nth) simp
    also have "\<dots> = (a ! n, n)" using Suc.prems assms(2) by simp
    finally show ?thesis using Suc.IH Suc.prems False by simp
  qed simp
qed simp

lemma sort_tail_step:
  assumes "0 < K" "K \<le> n" "n < length a" "length ps = K" "map fst ps = take K (sort (take n a))" "sort_entries a n ps"
    "qs = (if a ! n < fst (ps ! (K - 1)) then insert_entry fst (a ! n, n) ps (K - 1) else ps)"
  shows "length qs = K" "map fst qs = take K (sort (take (Suc n) a))" "sort_entries a (Suc n) qs"
proof -
  let ?S = "sort (take n a)"
  obtain k where k: "K = Suc k" using assms(1) by (cases K) auto
  have S: "sorted ?S" "k < length ?S" using assms(2,3) k by simp_all
  have S': "sort (take (Suc n) a) = insort (a ! n) ?S"
    unfolding take_Suc_conv_app_nth [OF assms(3)] by (intro properties_for_sort) (simp_all add: sorted_insort)
  have f: "fst (ps ! k) = ?S ! k" using assms(4,5) k S(2) by (metis lessI nth_map nth_take)
  have "length qs = K \<and> map fst qs = take K (sort (take (Suc n) a)) \<and> sort_entries a (Suc n) qs"
  proof (cases "a ! n < fst (ps ! k)")
    case True
    have l: "k < length ps" using assms(4) k by simp
    have m: "map fst (take k ps) = take k ?S" using assms(5) k by (metis take_map take_take min.absorb1 le_SucI order_refl)
    have s: "sorted (map fst (take k ps))" unfolding m using S(1) by (rule sorted_wrt_take)
    note e = insert_entry_keys [OF l s, of "(a ! n, n)"]
    have q: "qs = insert_entry fst (a ! n, n) ps k" using True assms(7) k by simp
    have q': "take (Suc k) qs = qs" using e(3) assms(4) k q by simp
    have "map fst qs = insort (a ! n) (take k ?S)" using e(1) m q' q by simp
    moreover have "mset qs = add_mset (a ! n, n) (mset (take k ps))" using e(4) q' q by simp
    then have "set qs = insert (a ! n, n) (set (take k ps))" "mset (map snd qs) = add_mset n (mset (map snd (take k ps)))"
      by (metis set_mset_add_mset_insert set_mset_mset, simp)
    moreover have "n \<notin> set (map snd (take k ps))" using assms(6) by (fastforce simp: sort_entries_def dest: in_set_takeD)
    moreover have "distinct (map snd (take k ps))" using assms(6) by (simp add: sort_entries_def take_map [symmetric])
    moreover have "distinct (map snd qs)" using calculation(3,4,5) by (metis distinct.simps(2) mset.simps(2) mset_eq_imp_distinct_iff)
    ultimately show ?thesis
      using take_insort_below [OF S, of "a ! n"] True f S' k assms(4,6) e(3) q
      by (auto simp: sort_entries_def less_Suc_eq dest!: in_set_takeD)
  next
    case False
    then show ?thesis using take_insort_above [OF S, of "a ! n"] f S' k assms(4-7)
      by (auto simp: sort_entries_def less_Suc_eq)
  qed
  then show "length qs = K" "map fst qs = take K (sort (take (Suc n) a))" "sort_entries a (Suc n) qs" by auto
qed

lemma insertion_sort_all: "silk_insertion_sort_increasing_all_values_int16 a = sort a"
proof (cases "a = []")
  case False
  let ?b = "fold (\<lambda>i b. insert_entry (\<lambda>x. x) (b ! i) b i) [1..<length a] a"
  have "take (length a) ?b = sort a" "length ?b = length a" using insertion_loop [of "length a" a ?b "\<lambda>x. x"] False by auto
  then show ?thesis by (simp add: silk_insertion_sort_increasing_all_values_int16_def)
qed (simp add: silk_insertion_sort_increasing_all_values_int16_def)

section \<open>Properties\<close>

text \<open>
  C35. \<open>silk_insertion_sort_increasing\<close>, which keeps only the first \<open>K\<close> places in order and stops
  looking at an entry as soon as it cannot be among them, leaves in them the \<open>K\<close> smallest values of
  the whole vector in increasing order, each with the index of a different place of the vector
  that holds it; \<open>silk_insertion_sort_increasing_all_values_int16\<close> sorts the whole vector.
\<close>

theorem insertion_sort_correct:
  assumes "0 < K" "K \<le> length a"
  defines "ps \<equiv> silk_insertion_sort_increasing a K"
  shows "map fst ps = take K (sort a) \<and> distinct (map snd ps) \<and> list_all (\<lambda>(v, i). i < length a \<and> v = a ! i) ps \<and>
    silk_insertion_sort_increasing_all_values_int16 a = sort a"
proof -
  let ?z = "zip (take K a) [0..<K]"
  let ?b = "fold (\<lambda>i ps. insert_entry fst (ps ! i) ps i) [1..<K] ?z"
  let ?f = "\<lambda>i ps. if a ! i < fst (ps ! (K - 1)) then insert_entry fst (a ! i, i) ps (K - 1) else ps"
  have b: "map fst (take K ?b) = sort (map fst (take K ?z))" "mset (take K ?b) = mset (take K ?z)" "length ?b = K"
    using insertion_loop [of K ?z ?b fst] assms(1,2) by auto
  then have b': "map fst ?b = sort (take K a)" "mset ?b = mset ?z" using assms(2) by simp_all
  have "mset (map snd ?b) = mset (map snd ?z)" using b'(2) by simp
  then have "distinct (map snd ?b) \<longleftrightarrow> distinct (map snd ?z)" by (rule mset_eq_imp_distinct_iff)
  moreover have "map snd ?z = [0..<K]" using assms(2) by simp
  ultimately have "distinct (map snd ?b)" by (simp only: distinct_upt)
  moreover have "set ?b = set ?z" using b'(2) by (rule mset_eq_setD)
  ultimately have e: "sort_entries a K ?b" by (auto simp: sort_entries_def set_zip)
  have "length (fold ?f [K..<n] ?b) = K \<and> map fst (fold ?f [K..<n] ?b) = take K (sort (take n a)) \<and> sort_entries a n (fold ?f [K..<n] ?b)"
    if "K \<le> n" "n \<le> length a" for n
    using that
  proof (induction n rule: dec_induct)
    case base
    then show ?case using b(3) b'(1) e by simp
  next
    case (step n)
    let ?p = "fold ?f [K..<n] ?b"
    have p: "n < length a" "length ?p = K" "map fst ?p = take K (sort (take n a))" "sort_entries a n ?p" using step by auto
    have "fold ?f [K..<Suc n] ?b = ?f n ?p" using step.hyps(1) by simp
    from sort_tail_step [OF assms(1) step.hyps(1) p this] show ?case by (intro conjI)
  qed
  from this [of "length a"] have "map fst ps = take K (sort a)" "sort_entries a (length a) ps"
    using assms(2) sort_first_loop [of K K a] by (simp_all add: ps_def silk_insertion_sort_increasing_def)
  then show ?thesis using insertion_sort_all by (auto simp: sort_entries_def list_all_iff)
qed

theorem insertion_sort_correct_witness:
  "map fst (silk_insertion_sort_increasing [5, - 3, 9, - 3, 1] 3) = [- 3, - 3, 1]"
proof -
  have "map fst (silk_insertion_sort_increasing [5, - 3, 9, - 3, 1] 3) = take 3 (sort [5, - 3, 9, - 3, 1])"
    using insertion_sort_correct [of 3 "[5, - 3, 9, - 3, 1]"] by simp
  then show ?thesis by simp
qed

end
