(* ===== verification/Silk_NLSF.thy ===== *)
theory Silk_NLSF
  imports Silk_Indices Silk_Sort
begin

text \<open>
  The spectral envelope (\<open>silk/NLSF_stabilize.c\<close>, \<open>silk/NLSF_decode.c\<close>): stabilising a vector of
  line spectral frequencies and decoding it from its indices.
\<close>

section \<open>Stabilisation\<close>

definition MAX_LOOPS :: nat where "MAX_LOOPS = 20"

text \<open>The distance at place \<open>i\<close>, and the first place with the smallest distance.\<close>

definition NLSF_diff :: "int list \<Rightarrow> int list \<Rightarrow> nat \<Rightarrow> int" where
  "NLSF_diff d x i =
    (if i = 0 then x ! 0 - d ! 0
     else if i < length x then x ! i - (x ! (i - 1) + d ! i)
     else 32768 - (x ! (length x - 1) + d ! length x))"

definition smallest_diff :: "int list \<Rightarrow> int list \<Rightarrow> int \<times> nat" where
  "smallest_diff d x = fold (\<lambda>i (min_diff, I). if NLSF_diff d x i < min_diff then (NLSF_diff d x i, i) else (min_diff, I)) [1..<length x + 1] (NLSF_diff d x 0, 0)"

definition move_apart :: "int list \<Rightarrow> int list \<Rightarrow> nat \<Rightarrow> int list" where
  "move_apart d x I =
    (if I = 0 then x[0 := i16 (d ! 0)]
     else if I = length x then x[I - 1 := i16 (32768 - d ! I)]
     else let half = drop_bit 1 (d ! I);
              min_center = sum_list (take I d) + half;
              max_center = 32768 - sum_list (drop (I + 1) d) - half;
              center_freq = i16 (silk_LIMIT (silk_RSHIFT_ROUND (x ! (I - 1) + x ! I) 1) min_center max_center);
              x = x[I - 1 := i16 (center_freq - half)]
          in x[I := i16 (x ! (I - 1) + d ! I)])"

fun stabilize_loop :: "nat \<Rightarrow> int list \<Rightarrow> int list \<Rightarrow> int list \<times> bool" where
  "stabilize_loop 0 d x = (x, False)"
| "stabilize_loop (Suc n) d x =
    (let (min_diff, I) = smallest_diff d x in if min_diff \<ge> 0 then (x, True) else stabilize_loop n d (move_apart d x I))"

text \<open>The fall back: sort, keep the distances from below, then from above.\<close>

definition keep_above :: "int list \<Rightarrow> int list \<Rightarrow> int list" where
  "keep_above d x = fold (\<lambda>i x. x[i := i16 (max (x ! i) (silk_ADD_SAT16 (x ! (i - 1)) (d ! i)))]) [1..<length x] (x[0 := i16 (max (x ! 0) (d ! 0))])"

definition keep_below :: "int list \<Rightarrow> int list \<Rightarrow> int list" where
  "keep_below d x = fold (\<lambda>i x. x[i := i16 (min (x ! i) (x ! (i + 1) - d ! (i + 1)))]) (rev [0..<length x - 1])
     (x[length x - 1 := i16 (min (x ! (length x - 1)) (32768 - d ! length x))])"

definition silk_NLSF_stabilize :: "int list \<Rightarrow> int list \<Rightarrow> int list" where
  "silk_NLSF_stabilize d x =
    (let (x, returned) = stabilize_loop MAX_LOOPS d x
     in if returned then x else keep_below d (keep_above d (silk_insertion_sort_increasing_all_values_int16 x)))"

section \<open>Decoding\<close>

text \<open>The residual, from the last entry to the first; the second result is the prediction state.\<close>

fun silk_NLSF_residual_dequant :: "int \<Rightarrow> (int \<times> int) list \<Rightarrow> int list \<times> int" where
  "silk_NLSF_residual_dequant quant_step_size_Q16 [] = ([], 0)"
| "silk_NLSF_residual_dequant quant_step_size_Q16 ((ix, pred_coef_Q8) # r) =
    (let (xs, out_Q10) = silk_NLSF_residual_dequant quant_step_size_Q16 r;
         pred_Q10 = drop_bit 8 (silk_SMULBB out_Q10 (i16 pred_coef_Q8));
         out_Q10 = push_bit 10 ix;
         out_Q10 = (if out_Q10 > 0 then out_Q10 - 102 else if out_Q10 < 0 then out_Q10 + 102 else out_Q10);
         out_Q10 = silk_SMLAWB pred_Q10 out_Q10 quant_step_size_Q16
     in (i16 out_Q10 # xs, out_Q10))"

definition silk_NLSF_decode :: "int list \<Rightarrow> silk_NLSF_CB_struct \<Rightarrow> int list" where
  "silk_NLSF_decode ixs cb =
    (let order = nat (cb_order cb); k = ixs ! 0;
         pred_Q8 = snd (silk_NLSF_unpack cb k);
         res_Q10 = fst (silk_NLSF_residual_dequant (quantStepSize_Q16 cb) (zip (take order (drop 1 ixs)) pred_Q8));
         NLSF_Q15 = map (\<lambda>i. i16 (silk_LIMIT (i32 (cdiv (push_bit 14 (res_Q10 ! i)) (CB1_Wght_Q9 cb ! (nat k * order + i)) +
           push_bit 7 (CB1_NLSF_Q8 cb ! (nat k * order + i)))) 0 32767)) [0..<order]
     in silk_NLSF_stabilize (deltaMin_Q15 cb) NLSF_Q15)"

section \<open>Stable vectors\<close>

definition deltas_ok :: "nat \<Rightarrow> int list \<Rightarrow> bool" where
  "deltas_ok L d \<longleftrightarrow> length d = L + 1 \<and> list_all (\<lambda>x. 1 \<le> x) d \<and> sum_list d \<le> 32768"

definition int16s :: "int list \<Rightarrow> bool" where
  "int16s x \<longleftrightarrow> list_all (\<lambda>v. - 32768 \<le> v \<and> v \<le> 32767) x"

text \<open>Consecutive frequencies, and the limits 0 and 1, keep their minimum distances.\<close>

definition NLSF_stable :: "int list \<Rightarrow> int list \<Rightarrow> bool" where
  "NLSF_stable d x \<longleftrightarrow> (\<forall>i \<le> length x. 0 \<le> NLSF_diff d x i)"

lemma smallest_diff_le:
  "i \<le> length x \<Longrightarrow> fst (smallest_diff d x) \<le> NLSF_diff d x i"
proof -
  let ?f = "\<lambda>i (m, I). if NLSF_diff d x i < m then (NLSF_diff d x i, i) else (m, I)"
  have "\<forall>i < Suc n. fst (fold ?f [1..<Suc n] (NLSF_diff d x 0, 0)) \<le> NLSF_diff d x i" for n
    by (induction n) (auto simp: case_prod_beta less_Suc_eq)
  from this [of "length x"] show "i \<le> length x \<Longrightarrow> ?thesis" by (simp add: smallest_diff_def)
qed

lemma smallest_diff_attained: "\<exists>i \<le> length x. fst (smallest_diff d x) = NLSF_diff d x i"
proof -
  let ?f = "\<lambda>i (m, I). if NLSF_diff d x i < m then (NLSF_diff d x i, i) else (m, I)"
  have "\<exists>i \<le> n. fst (fold ?f [1..<n + 1] (NLSF_diff d x 0, 0)) = NLSF_diff d x i" for n
    by (induction n) (auto simp: case_prod_beta le_Suc_eq)
  then show ?thesis unfolding smallest_diff_def .
qed

lemma stable_iff: "NLSF_stable d x \<longleftrightarrow> 0 \<le> fst (smallest_diff d x)"
  using smallest_diff_le [of _ x d] smallest_diff_attained [of x d] by (force simp: NLSF_stable_def)

lemma int16s_update: "int16s x \<Longrightarrow> int16s (x[i := i16 v])"
  using i16_within by (auto simp: int16s_def list_all_iff dest!: set_update_subset_insert [THEN subsetD])

lemma move_apart_ok: "int16s x \<Longrightarrow> int16s (move_apart d x I) \<and> length (move_apart d x I) = length x"
  by (simp add: move_apart_def Let_def int16s_update)

lemma stabilize_loop_ok:
  assumes "int16s x" "stabilize_loop n d x = (y, r)"
  shows "int16s y \<and> length y = length x \<and> (r \<longrightarrow> NLSF_stable d y)"
  using assms
proof (induction n arbitrary: x)
  case (Suc n)
  obtain m I where m: "smallest_diff d x = (m, I)" by (cases "smallest_diff d x")
  show ?case using Suc m move_apart_ok [OF Suc.prems(1), of d I] by (auto simp: stable_iff split: if_splits)
qed simp

lemma stabilize_loop_stable: "NLSF_stable d x \<Longrightarrow> 0 < n \<Longrightarrow> stabilize_loop n d x = (x, True)"
  by (cases n) (auto simp: stable_iff case_prod_beta)

section \<open>The fall back\<close>

text \<open>The lowest place of each frequency.\<close>

definition floor_at :: "int list \<Rightarrow> nat \<Rightarrow> int" where
  "floor_at d k = sum_list (take (Suc k) d)"

lemma floor_at_Suc: "Suc k < length d \<Longrightarrow> floor_at d (Suc k) = floor_at d k + d ! Suc k"
  by (simp add: floor_at_def take_Suc_conv_app_nth)

lemma floor_at_range:
  assumes "deltas_ok L d" "k < L"
  shows "0 \<le> floor_at d k" "floor_at d k \<le> 32768 - d ! L" "1 \<le> d ! L"
proof -
  have d: "length d = L + 1" "\<forall>x \<in> set d. 1 \<le> x" "sum_list d \<le> 32768" using assms(1) by (auto simp: deltas_ok_def list_all_iff)
  then show "1 \<le> d ! L" by simp
  have pos: "0 \<le> sum_list xs" if "set xs \<subseteq> set d" for xs using d(2) that by (intro sum_list_nonneg) force
  then show "0 \<le> floor_at d k" by (simp add: floor_at_def set_take_subset)
  have e: "d = take (Suc k) d @ take (L - Suc k) (drop (Suc k) d) @ [d ! L]"
  proof -
    have "drop (Suc k) d = take (L - Suc k) (drop (Suc k) d) @ drop L d" using assms(2) by (metis add_diff_inverse_nat append_take_drop_id drop_drop less_Suc_eq_le not_less add.commute)
    moreover have "drop L d = [d ! L]" using d(1) Cons_nth_drop_Suc [of L d] by simp
    ultimately show ?thesis by (metis append_take_drop_id)
  qed
  have "0 \<le> sum_list (take (L - Suc k) (drop (Suc k) d))" by (intro pos) (auto dest: in_set_takeD in_set_dropD)
  moreover have "sum_list d = floor_at d k + sum_list (take (L - Suc k) (drop (Suc k) d)) + d ! L"
    unfolding floor_at_def by (subst e) simp
  ultimately show "floor_at d k \<le> 32768 - d ! L" using d(3) by linarith
qed

lemma int16s_nth: "int16s x \<Longrightarrow> k < length x \<Longrightarrow> - 32768 \<le> x ! k \<and> x ! k \<le> 32767"
  by (simp add: int16s_def list_all_length)

lemma keep_above_loop:
  assumes x: "int16s x" and d: "deltas_ok (length x) d" and n: "n < length x"
    and y: "y = fold (\<lambda>i x. x[i := i16 (max (x ! i) (silk_ADD_SAT16 (x ! (i - 1)) (d ! i)))]) [1..<Suc n] (x[0 := i16 (max (x ! 0) (d ! 0))])"
  shows "int16s y \<and> length y = length x \<and> (\<forall>k \<le> n. floor_at d k \<le> y ! k)"
  using n y
proof (induction n arbitrary: y)
  case 0
  have "floor_at d 0 = d ! 0" using d by (cases d) (auto simp: floor_at_def deltas_ok_def)
  moreover have "i16 (max (x ! 0) (d ! 0)) = max (x ! 0) (d ! 0)"
    using int16s_nth [OF x 0(1)] floor_at_range [OF d 0(1)] calculation by (intro i16_id) auto
  moreover have "int16s (x[0 := i16 (max (x ! 0) (d ! 0))])" using x by (rule int16s_update)
  ultimately show ?case using 0 by simp
next
  case (Suc n)
  define z where "z = fold (\<lambda>i x. x[i := i16 (max (x ! i) (silk_ADD_SAT16 (x ! (i - 1)) (d ! i)))]) [1..<Suc n] (x[0 := i16 (max (x ! 0) (d ! 0))])"
  define v where "v = max (z ! Suc n) (silk_ADD_SAT16 (z ! n) (d ! Suc n))"
  have z: "int16s z" "length z = length x" "\<forall>k \<le> n. floor_at d k \<le> z ! k" using Suc.IH [OF _ z_def] Suc.prems(1) by auto
  have y: "y = z[Suc n := i16 v]" using Suc.prems(2) by (simp add: z_def v_def)
  have "floor_at d (Suc n) = floor_at d n + d ! Suc n" using d Suc.prems(1) by (intro floor_at_Suc) (simp add: deltas_ok_def)
  moreover have "floor_at d n \<le> z ! n" using z(3) by simp
  ultimately have s: "floor_at d (Suc n) \<le> silk_ADD_SAT16 (z ! n) (d ! Suc n)" "silk_ADD_SAT16 (z ! n) (d ! Suc n) \<le> 32767"
    using floor_at_range [OF d Suc.prems(1)] by (simp_all add: silk_ADD_SAT16_def silk_SAT16_def)
  have "- 32768 \<le> z ! Suc n \<and> z ! Suc n \<le> 32767" using z Suc.prems(1) by (intro int16s_nth) auto
  then have "i16 v = v" "floor_at d (Suc n) \<le> v" using s by (auto simp: v_def intro!: i16_id)
  moreover have "int16s y" unfolding y using z(1) by (rule int16s_update)
  ultimately show ?case using z(2,3) Suc.prems(1) by (auto simp: y nth_list_update le_Suc_eq)
qed

lemma keep_above_ok:
  assumes "int16s x" "deltas_ok (length x) d" "x \<noteq> []"
  shows "int16s (keep_above d x) \<and> length (keep_above d x) = length x \<and> (\<forall>k < length x. floor_at d k \<le> keep_above d x ! k)"
proof -
  obtain n where n: "length x = Suc n" using assms(3) by (cases x) auto
  show ?thesis using keep_above_loop [OF assms(1,2), of n "keep_above d x"] n by (auto simp: keep_above_def)
qed

text \<open>The vector once the places from \<open>m\<close> on keep their distances.\<close>

definition spaced_from :: "nat \<Rightarrow> int list \<Rightarrow> int list \<Rightarrow> bool" where
  "spaced_from m d z \<longleftrightarrow> int16s z \<and> deltas_ok (length z) d \<and> z \<noteq> [] \<and> (\<forall>k < length z. floor_at d k \<le> z ! k) \<and>
    z ! (length z - 1) \<le> 32768 - d ! length z \<and> (\<forall>k. m \<le> k \<longrightarrow> Suc k < length z \<longrightarrow> z ! k + d ! Suc k \<le> z ! Suc k)"

lemma spaced_from_step:
  assumes "spaced_from (Suc i) d z" "Suc i < length z"
  shows "spaced_from i d (z[i := i16 (min (z ! i) (z ! (i + 1) - d ! (i + 1)))])"
proof -
  have z: "int16s z" "deltas_ok (length z) d" "\<forall>k < length z. floor_at d k \<le> z ! k" using assms(1) by (auto simp: spaced_from_def)
  have "floor_at d (Suc i) = floor_at d i + d ! Suc i" using z(2) assms(2) by (intro floor_at_Suc) (simp add: deltas_ok_def)
  then have f: "floor_at d i \<le> min (z ! i) (z ! (i + 1) - d ! (i + 1))" using z(3) assms(2) by (auto simp: min_def dest!: spec [of _ "Suc i"])
  have "0 \<le> floor_at d i" using floor_at_range(1) [OF z(2)] assms(2) by simp
  then have e: "i16 (min (z ! i) (z ! (i + 1) - d ! (i + 1))) = min (z ! i) (z ! (i + 1) - d ! (i + 1))"
    using int16s_nth [OF z(1), of i] assms(2) f by (intro i16_id) auto
  have m: "int16s (z[i := i16 (min (z ! i) (z ! (i + 1) - d ! (i + 1)))])" using z(1) by (rule int16s_update)
  then show ?thesis using assms f unfolding spaced_from_def e by (auto simp: nth_list_update)
qed

lemma keep_below_loop:
  "spaced_from m d z \<Longrightarrow> m < length z \<Longrightarrow>
    spaced_from 0 d (fold (\<lambda>i x. x[i := i16 (min (x ! i) (x ! (i + 1) - d ! (i + 1)))]) (rev [0..<m]) z) \<and>
    length (fold (\<lambda>i x. x[i := i16 (min (x ! i) (x ! (i + 1) - d ! (i + 1)))]) (rev [0..<m]) z) = length z"
proof (induction m arbitrary: z)
  case (Suc m)
  show ?case using Suc.IH [OF spaced_from_step [OF Suc.prems]] Suc.prems(2) by simp
qed simp

lemma spaced_stable:
  assumes "spaced_from 0 d z"
  shows "NLSF_stable d z"
proof -
  have z: "deltas_ok (length z) d" "z \<noteq> []" "\<forall>k < length z. floor_at d k \<le> z ! k" "z ! (length z - 1) \<le> 32768 - d ! length z"
    "\<forall>k. Suc k < length z \<longrightarrow> z ! k + d ! Suc k \<le> z ! Suc k" using assms by (auto simp: spaced_from_def)
  have "floor_at d 0 = d ! 0" using z(1) by (cases d) (auto simp: floor_at_def deltas_ok_def)
  then have 0: "d ! 0 \<le> z ! 0" using z(2,3) by (metis length_greater_0_conv)
  have "0 \<le> NLSF_diff d z i" if "i \<le> length z" for i
  proof (cases i)
    case (Suc k)
    then show ?thesis using that z(4,5) by (auto simp: NLSF_diff_def)
  qed (use 0 in \<open>simp add: NLSF_diff_def\<close>)
  then show ?thesis by (simp add: NLSF_stable_def)
qed

lemma fall_back_ok:
  assumes "int16s x" "deltas_ok (length x) d" "x \<noteq> []" "\<forall>k < length x. floor_at d k \<le> x ! k"
  shows "NLSF_stable d (keep_below d x) \<and> int16s (keep_below d x) \<and> length (keep_below d x) = length x"
proof -
  obtain m where m: "length x = Suc m" using assms(3) by (cases x) auto
  let ?v = "min (x ! m) (32768 - d ! length x)"
  note f = floor_at_range [OF assms(2), of m]
  have v: "floor_at d m \<le> ?v" using assms(4) f(2) m by auto
  have e: "i16 ?v = ?v" using int16s_nth [OF assms(1), of m] f v m by (intro i16_id) auto
  have "int16s (x[m := i16 ?v])" using assms(1) by (rule int16s_update)
  then have "spaced_from m d (x[m := ?v])" using assms m v unfolding spaced_from_def e by (auto simp: nth_list_update)
  from keep_below_loop [OF this] have "spaced_from 0 d (keep_below d x)" "length (keep_below d x) = length x"
    using m e by (simp_all add: keep_below_def)
  then show ?thesis using spaced_stable by (auto simp: spaced_from_def)
qed

lemma stabilize_ok:
  assumes "int16s x" "x \<noteq> []" "deltas_ok (length x) d"
  shows "NLSF_stable d (silk_NLSF_stabilize d x) \<and> int16s (silk_NLSF_stabilize d x) \<and> length (silk_NLSF_stabilize d x) = length x"
proof -
  obtain y r where y: "stabilize_loop MAX_LOOPS d x = (y, r)" by (cases "stabilize_loop MAX_LOOPS d x")
  note l = stabilize_loop_ok [OF assms(1) y]
  show ?thesis
  proof (cases r)
    case False
    let ?s = "sort y"
    have s: "int16s ?s" "length ?s = length x" "deltas_ok (length ?s) d" "?s \<noteq> []"
      using l assms(2,3) by (simp_all add: int16s_def list_all_iff) (metis length_0_conv length_sort)
    note a = keep_above_ok [OF s(1,3,4)]
    then have "keep_above d ?s \<noteq> []" using s(4) by (metis length_0_conv)
    then show ?thesis using fall_back_ok [of "keep_above d ?s" d] a s(2,3) False by (simp add: silk_NLSF_stabilize_def y insertion_sort_all)
  qed (use l in \<open>simp add: silk_NLSF_stabilize_def y\<close>)
qed

lemma stable_increasing:
  assumes "NLSF_stable d x" "deltas_ok (length x) d" "i < j" "j < length x"
  shows "x ! i < x ! j"
  using assms(3,4)
proof (induction j)
  case (Suc j)
  have "0 \<le> NLSF_diff d x (Suc j)" using assms(1) Suc.prems by (simp add: NLSF_stable_def)
  moreover have "1 \<le> d ! Suc j" using assms(2) Suc.prems by (simp add: deltas_ok_def list_all_length)
  ultimately have "x ! j < x ! Suc j" using Suc.prems by (simp add: NLSF_diff_def)
  then show ?case using Suc by (cases "i = j") auto
qed simp

section \<open>Codebooks\<close>

lemma codebook_ok:
  "deltas_ok 10 (deltaMin_Q15 silk_NLSF_CB_NB_MB)" "deltas_ok 16 (deltaMin_Q15 silk_NLSF_CB_WB)"
  "cb_order silk_NLSF_CB_NB_MB = 10" "cb_order silk_NLSF_CB_WB = 16"
  by code_simp+

lemma codebook_weights:
  "length (CB1_Wght_Q9 silk_NLSF_CB_NB_MB) = 320 \<and> list_all (\<lambda>w. 0 < w) (CB1_Wght_Q9 silk_NLSF_CB_NB_MB) \<and> length (CB1_NLSF_Q8 silk_NLSF_CB_NB_MB) = 320"
  "length (CB1_Wght_Q9 silk_NLSF_CB_WB) = 512 \<and> list_all (\<lambda>w. 0 < w) (CB1_Wght_Q9 silk_NLSF_CB_WB) \<and> length (CB1_NLSF_Q8 silk_NLSF_CB_WB) = 512"
  by code_simp+

lemma NLSF_decode_ok:
  assumes "deltas_ok (nat (cb_order cb)) (deltaMin_Q15 cb)" "0 < cb_order cb"
  shows "NLSF_stable (deltaMin_Q15 cb) (silk_NLSF_decode ixs cb) \<and> int16s (silk_NLSF_decode ixs cb) \<and> length (silk_NLSF_decode ixs cb) = nat (cb_order cb)"
proof -
  obtain f where f: "silk_NLSF_decode ixs cb = silk_NLSF_stabilize (deltaMin_Q15 cb) (map (\<lambda>i. i16 (f i)) [0..<nat (cb_order cb)])"
    by (simp add: silk_NLSF_decode_def Let_def)
  have "int16s (map (\<lambda>i. i16 (f i)) [0..<nat (cb_order cb)])" using i16_within by (simp add: int16s_def list_all_iff)
  from stabilize_ok [OF this, of "deltaMin_Q15 cb"] show ?thesis using assms by (simp add: f)
qed

section \<open>Reads of the codebook\<close>

text \<open>
  The places that \<open>silk_NLSF_unpack\<close> reads lie inside its tables, and a codebook whose tables go on
  with other data: a result that is the same for all such data read nothing outside the tables.
\<close>

definition unpack_reads_ok :: "silk_NLSF_CB_struct \<Rightarrow> int \<Rightarrow> bool" where
  "unpack_reads_ok cb CB1_index \<longleftrightarrow> list_all (\<lambda>k. nat (CB1_index * cb_order cb div 2) + k < length (ec_sel cb) \<and>
      (let entry = ec_sel cb ! (nat (CB1_index * cb_order cb div 2) + k)
       in nat (2 * int k + (entry AND 1) * (cb_order cb - 1)) < length (cb_pred_Q8 cb) \<and>
          nat (2 * int k + (drop_bit 4 entry AND 1) * (cb_order cb - 1) + 1) < length (cb_pred_Q8 cb)))
    [0..<nat ((cb_order cb + 1) div 2)]"

definition continued_CB :: "int list \<Rightarrow> int list \<Rightarrow> int list \<Rightarrow> int list \<Rightarrow> silk_NLSF_CB_struct \<Rightarrow> silk_NLSF_CB_struct" where
  "continued_CB e p n w cb = cb\<lparr>ec_sel := ec_sel cb @ e, cb_pred_Q8 := cb_pred_Q8 cb @ p, CB1_NLSF_Q8 := CB1_NLSF_Q8 cb @ n, CB1_Wght_Q9 := CB1_Wght_Q9 cb @ w\<rparr>"

text \<open>
  The last selector of a vector must not choose the second predictor for the last coefficient: its
  place would be one past the end of \<open>pred_Q8\<close>.  No selector of the two codebooks does.
\<close>

lemma codebook_selectors:
  "length (ec_sel silk_NLSF_CB_NB_MB) = 160 \<and> length (cb_pred_Q8 silk_NLSF_CB_NB_MB) = 18 \<and> list_all (\<lambda>k. drop_bit 4 (ec_sel silk_NLSF_CB_NB_MB ! (k * 5 + 4)) AND 1 = 0) [0..<32]"
  "length (ec_sel silk_NLSF_CB_WB) = 256 \<and> length (cb_pred_Q8 silk_NLSF_CB_WB) = 30 \<and> list_all (\<lambda>k. drop_bit 4 (ec_sel silk_NLSF_CB_WB ! (k * 8 + 7)) AND 1 = 0) [0..<32]"
  by code_simp+

lemma unpack_reads_of_selectors:
  fixes m c :: nat
  assumes cb: "cb_order cb = 2 * int m" "0 < m" "length (ec_sel cb) = 32 * m" "length (cb_pred_Q8 cb) = 4 * m - 2"
    and k: "c < 32" "drop_bit 4 (ec_sel cb ! (c * m + (m - 1))) AND 1 = 0"
  shows "unpack_reads_ok cb (int c)"
proof -
  have n: "nat (int c * cb_order cb div 2) = c * m" "nat ((cb_order cb + 1) div 2) = m"
    using cb(1) by (simp_all add: nat_mult_distrib)
  have "Suc c * m \<le> 32 * m" using k(1) by (intro mult_le_mono1) simp
  then have "m + c * m \<le> 32 * m" by (simp only: mult_Suc)
  then have s: "c * m + j < 32 * m" if "j < m" for j using that by linarith
  have b: "x AND 1 = 0 \<or> x AND 1 = 1" for x :: int by (simp add: and_one_eq mod2_eq_if)
  have p: "nat (2 * int j + (x AND 1) * (cb_order cb - 1)) < length (cb_pred_Q8 cb)" if "j < m" for j and x :: int
    using b [of x] that cb by (auto simp: nat_less_iff of_nat_diff)
  have q: "nat (2 * int j + (drop_bit 4 (ec_sel cb ! (c * m + j)) AND 1) * (cb_order cb - 1) + 1) < length (cb_pred_Q8 cb)" if "j < m" for j
  proof (cases "j = m - 1")
    case True
    then show ?thesis using k(2) cb by (simp add: nat_less_iff of_nat_diff)
  next
    case False
    then show ?thesis using b [of "drop_bit 4 (ec_sel cb ! (c * m + j))"] that cb by (auto simp: nat_less_iff of_nat_diff)
  qed
  show ?thesis unfolding unpack_reads_ok_def n list_all_iff Let_def using s p q cb(3) by simp
qed

lemma set_fs_reads:
  assumes "0 \<le> k" "k < 32"
  shows "unpack_reads_ok (set_fs_NLSF_CB fs) k"
proof -
  have k: "nat k < 32" "int (nat k) = k" using assms by auto
  have "unpack_reads_ok silk_NLSF_CB_NB_MB k" "unpack_reads_ok silk_NLSF_CB_WB k"
    using unpack_reads_of_selectors [of silk_NLSF_CB_NB_MB 5 "nat k"] unpack_reads_of_selectors [of silk_NLSF_CB_WB 8 "nat k"] codebook_selectors codebook_ok(3,4) k
    by (simp_all add: list_all_iff)
  then show ?thesis by (simp add: set_fs_NLSF_CB_def)
qed

lemma unpack_continued:
  assumes "unpack_reads_ok cb k"
  shows "silk_NLSF_unpack (continued_CB e p n w cb) k = silk_NLSF_unpack cb k"
proof -
  have r: "nat (k * cb_order cb div 2) + j < length (ec_sel cb)"
    "nat (2 * int j + (ec_sel cb ! (nat (k * cb_order cb div 2) + j) AND 1) * (cb_order cb - 1)) < length (cb_pred_Q8 cb)"
    "nat (2 * int j + (drop_bit 4 (ec_sel cb ! (nat (k * cb_order cb div 2) + j)) AND 1) * (cb_order cb - 1) + 1) < length (cb_pred_Q8 cb)"
    if "j \<in> set [0..<nat ((cb_order cb + 1) div 2)]" for j
    using assms that unfolding unpack_reads_ok_def list_all_iff Let_def by blast+
  have s: "drop (nat (k * cb_order cb div 2)) (ec_sel cb @ x) ! j = ec_sel cb ! (nat (k * cb_order cb div 2) + j)"
    if "j \<in> set [0..<nat ((cb_order cb + 1) div 2)]" for j x
    using r(1) [OF that] by (simp add: nth_append del: drop_append)
  have q: "(cb_pred_Q8 cb @ p) ! i = cb_pred_Q8 cb ! i" if "i < length (cb_pred_Q8 cb)" for i using that by (simp add: nth_append)
  have f: "cb_order (continued_CB e p n w cb) = cb_order cb" "ec_sel (continued_CB e p n w cb) = ec_sel cb @ e"
    "cb_pred_Q8 (continued_CB e p n w cb) = cb_pred_Q8 cb @ p" by (simp_all add: continued_CB_def)
  show ?thesis unfolding silk_NLSF_unpack_def f Let_def
    using s [of _ e] s [of _ "[]", unfolded append_Nil2] r(2,3) [THEN q] by (simp only: cong: map_cong)
qed

lemma decode_continued:
  assumes "unpack_reads_ok cb (ixs ! 0)"
    "\<And>i. i < nat (cb_order cb) \<Longrightarrow> nat (ixs ! 0) * nat (cb_order cb) + i < length (CB1_NLSF_Q8 cb) \<and> nat (ixs ! 0) * nat (cb_order cb) + i < length (CB1_Wght_Q9 cb)"
  shows "silk_NLSF_decode ixs (continued_CB e p n w cb) = silk_NLSF_decode ixs cb"
proof -
  have f: "cb_order (continued_CB e p n w cb) = cb_order cb" "CB1_NLSF_Q8 (continued_CB e p n w cb) = CB1_NLSF_Q8 cb @ n"
    "CB1_Wght_Q9 (continued_CB e p n w cb) = CB1_Wght_Q9 cb @ w" "quantStepSize_Q16 (continued_CB e p n w cb) = quantStepSize_Q16 cb"
    "deltaMin_Q15 (continued_CB e p n w cb) = deltaMin_Q15 cb" by (simp_all add: continued_CB_def)
  have r: "(CB1_NLSF_Q8 cb @ n) ! (nat (ixs ! 0) * nat (cb_order cb) + i) = CB1_NLSF_Q8 cb ! (nat (ixs ! 0) * nat (cb_order cb) + i)"
    "(CB1_Wght_Q9 cb @ w) ! (nat (ixs ! 0) * nat (cb_order cb) + i) = CB1_Wght_Q9 cb ! (nat (ixs ! 0) * nat (cb_order cb) + i)"
    if "i \<in> set [0..<nat (cb_order cb)]" for i using assms(2) [of i] that by (simp_all add: nth_append)
  show ?thesis unfolding silk_NLSF_decode_def f Let_def unpack_continued [OF assms(1)]
    by (simp only: r cong: map_cong)
qed

lemma CB1_reads:
  assumes "NLSFs_ok (set_fs_NLSF_CB fs) ixs" "i < nat (cb_order (set_fs_NLSF_CB fs))"
  defines "p \<equiv> nat (ixs ! 0) * nat (cb_order (set_fs_NLSF_CB fs)) + i"
  shows "p < length (CB1_NLSF_Q8 (set_fs_NLSF_CB fs)) \<and> p < length (CB1_Wght_Q9 (set_fs_NLSF_CB fs)) \<and> 0 < CB1_Wght_Q9 (set_fs_NLSF_CB fs) ! p"
proof -
  let ?cb = "set_fs_NLSF_CB fs"
  have "nat (ixs ! 0) < 32" using assms(1) by (auto simp: NLSFs_ok_def)
  then have "Suc (nat (ixs ! 0)) * nat (cb_order ?cb) \<le> 32 * nat (cb_order ?cb)" by (intro mult_le_mono1) simp
  then have "nat (cb_order ?cb) + nat (ixs ! 0) * nat (cb_order ?cb) \<le> 32 * nat (cb_order ?cb)" by (simp only: mult_Suc)
  then have "p < 32 * nat (cb_order ?cb)" using assms(2) unfolding p_def by linarith
  moreover have "length (CB1_NLSF_Q8 ?cb) = 32 * nat (cb_order ?cb)" "length (CB1_Wght_Q9 ?cb) = 32 * nat (cb_order ?cb)" "list_all (\<lambda>w. 0 < w) (CB1_Wght_Q9 ?cb)"
    using codebook_weights codebook_ok(3,4) by (auto simp: set_fs_NLSF_CB_def)
  ultimately show ?thesis by (simp add: list_all_length)
qed

text \<open>All that decoding an envelope reads: indices, selectors, predictors, first stage, weights, distances and entropy tables.\<close>

definition NLSF_reads_ok :: "int list \<Rightarrow> silk_NLSF_CB_struct \<Rightarrow> bool" where
  "NLSF_reads_ok ixs cb \<longleftrightarrow> nat (cb_order cb) < length ixs \<and> unpack_reads_ok cb (ixs ! 0) \<and> length (deltaMin_Q15 cb) = nat (cb_order cb) + 1 \<and>
    (\<forall>i < nat (cb_order cb). nat (ixs ! 0) * nat (cb_order cb) + i < length (CB1_NLSF_Q8 cb) \<and>
      nat (ixs ! 0) * nat (cb_order cb) + i < length (CB1_Wght_Q9 cb) \<and> 0 < CB1_Wght_Q9 cb ! (nat (ixs ! 0) * nat (cb_order cb) + i) \<and>
      icdf8 9 (icdf_at (ec_iCDF cb) (nat (fst (silk_NLSF_unpack cb (ixs ! 0)) ! i)))) \<and>
    (\<forall>e p n w. silk_NLSF_unpack (continued_CB e p n w cb) (ixs ! 0) = silk_NLSF_unpack cb (ixs ! 0) \<and>
      silk_NLSF_decode ixs (continued_CB e p n w cb) = silk_NLSF_decode ixs cb)"

lemma NLSF_reads:
  assumes "NLSFs_ok (set_fs_NLSF_CB fs) ixs"
  shows "NLSF_reads_ok ixs (set_fs_NLSF_CB fs)"
proof -
  let ?cb = "set_fs_NLSF_CB fs"
  have u: "unpack_reads_ok ?cb (ixs ! 0)" using assms set_fs_reads by (simp add: NLSFs_ok_def)
  have "length (deltaMin_Q15 ?cb) = nat (cb_order ?cb) + 1" using codebook_ok by (simp add: set_fs_NLSF_CB_def deltas_ok_def)
  moreover have "nat (cb_order ?cb) < length ixs" using assms by (simp add: NLSFs_ok_def)
  ultimately show ?thesis
    using u CB1_reads [OF assms] NLSF_unpack_ok(3) [OF set_fs_NLSF_CB_ok] unpack_continued [OF u] decode_continued [OF u] by (simp add: NLSF_reads_ok_def)
qed

section \<open>Properties\<close>

text \<open>
  C18. \<open>silk_NLSF_stabilize\<close> always succeeds: for every 16-bit vector and all minimum distances that
  are positive and leave room in the interval, the result is a 16-bit vector of the same length that
  is strictly increasing and keeps every minimum distance, also those to the limits 0 and 1,
  whether the loop ends by itself or its twenty rounds are used up and the fall back runs; a
  vector that is already stable stays as it is.
\<close>

theorem NLSF_stabilize_correct:
  assumes "int16s NLSF_Q15" "NLSF_Q15 \<noteq> []" "deltas_ok (length NLSF_Q15) NDeltaMin_Q15"
  defines "y \<equiv> silk_NLSF_stabilize NDeltaMin_Q15 NLSF_Q15"
  shows "NLSF_stable NDeltaMin_Q15 y \<and> int16s y \<and> length y = length NLSF_Q15 \<and> sorted_wrt (<) y \<and> (NLSF_stable NDeltaMin_Q15 NLSF_Q15 \<longrightarrow> y = NLSF_Q15)"
proof -
  note s = stabilize_ok [OF assms(1-3), folded y_def]
  then have "sorted_wrt (<) y" using stable_increasing [of NDeltaMin_Q15 y] assms(3) by (simp add: sorted_wrt_iff_nth_less)
  moreover have "y = NLSF_Q15" if "NLSF_stable NDeltaMin_Q15 NLSF_Q15"
    using stabilize_loop_stable [OF that, of MAX_LOOPS] by (simp add: y_def silk_NLSF_stabilize_def MAX_LOOPS_def)
  ultimately show ?thesis using s by blast
qed

theorem NLSF_stabilize_correct_witness:
  "NLSF_stable [250, 3, 6, 461] (silk_NLSF_stabilize [250, 3, 6, 461] [20000, - 5, 32767])"
proof -
  have "int16s [20000, - 5, 32767]" "deltas_ok 3 [250, 3, 6, 461]" by code_simp+
  then show ?thesis using NLSF_stabilize_correct [of "[20000, - 5, 32767]" "[250, 3, 6, 461]"] by (simp add: numeral_3_eq_3)
qed

text \<open>
  C21. Decoding the spectral envelope is total and gives a stable filter.  For each codebook and all
  indices that \<open>silk_decode_indices\<close> can deliver, every place that is read lies inside its table: the
  index vector, the selectors \<open>ec_sel\<close> and predictors \<open>pred_Q8\<close> of \<open>silk_NLSF_unpack\<close>, the first stage and
  its weights, the minimum distances; the unpacked offsets are those of whole entropy tables.
  Neither the unpacked nor the decoded values change when the tables are followed by other data.
  The weights divided by are positive, and the decoded frequencies are as many as the order of the
  codebook, strictly increasing and at least the minimum distances of the codebook apart.
\<close>

theorem NLSF_decode_stable:
  assumes "NLSFs_ok (set_fs_NLSF_CB fs) ixs"
  defines "cb \<equiv> set_fs_NLSF_CB fs"
  defines "y \<equiv> silk_NLSF_decode ixs cb"
  shows "length y = nat (cb_order cb) \<and> NLSF_stable (deltaMin_Q15 cb) y \<and> sorted_wrt (<) y \<and> int16s y \<and>
    (\<forall>i < nat (cb_order cb). nat (ixs ! 0) * nat (cb_order cb) + i < length (CB1_NLSF_Q8 cb) \<and> 0 < CB1_Wght_Q9 cb ! (nat (ixs ! 0) * nat (cb_order cb) + i)) \<and>
    NLSF_reads_ok ixs cb"
proof -
  have d: "deltas_ok (nat (cb_order cb)) (deltaMin_Q15 cb)" "0 < cb_order cb" using codebook_ok by (auto simp: cb_def set_fs_NLSF_CB_def)
  note s = NLSF_decode_ok [OF d, of ixs, folded y_def]
  then have "sorted_wrt (<) y" using stable_increasing [of "deltaMin_Q15 cb" y] d(1) by (simp add: sorted_wrt_iff_nth_less)
  then show ?thesis using s CB1_reads [OF assms(1)] NLSF_reads [OF assms(1)] by (simp add: cb_def)
qed

theorem NLSF_decode_stable_witness:
  "NLSF_stable (deltaMin_Q15 silk_NLSF_CB_NB_MB) (silk_NLSF_decode [31, 10, - 10, 10, - 10, 0, 3, - 4, 10, - 10, 1] silk_NLSF_CB_NB_MB)"
proof -
  have "NLSFs_ok (set_fs_NLSF_CB 8) [31, 10, - 10, 10, - 10, 0, 3, - 4, 10, - 10, 1]"
    by (simp add: NLSFs_ok_def set_fs_NLSF_CB_def codebook_ok(3) atLeastAtMost_insertL [symmetric] eval_nat_numeral atLeastAtMostSuc_conv)
  from NLSF_decode_stable [OF this] show ?thesis by (simp add: set_fs_NLSF_CB_def)
qed

end
