(* ===== verification/Silk_Parameters.thy ===== *)
theory Silk_Parameters
  imports Silk_Frame Silk_Gains Silk_NLSF
begin

text \<open>
  The parameters of a frame from its indices (\<open>silk/decode_parameters.c\<close>, \<open>silk/decode_pitch.c\<close>):
  gains, spectral envelope, pitch lags and long-term prediction.  The conversion of the
  envelope to filter coefficients is not modelled: the control record holds the two vectors of line
  spectral frequencies that are converted instead of the coefficients.
\<close>

section \<open>Model\<close>







section \<open>Pitch and long-term prediction\<close>





section \<open>Interpolation\<close>





section \<open>All parameters of a frame\<close>









section \<open>Properties\<close>



end
