(* ===== verification/Opus_Packet.thy ===== *)
theory Opus_Packet
  imports Opus_Prelude
begin

text \<open>
  Opus packets (\<open>src/opus.c\<close> and the packet inspection functions of \<open>src/opus_decoder.c\<close>): frame
  lengths of one or two bytes, the table-of-contents byte, the four framing codes with padding and
  the self-delimited form.  A pointer into the packet is a position in the byte list \<open>data\<close>; a read
  outside of it gives the value \<open>Out_Of_Bounds\<close>, which C leaves undefined.
\<close>

section \<open>Errors\<close>

datatype opus_error = OPUS_BAD_ARG | OPUS_BUFFER_TOO_SMALL | OPUS_INTERNAL_ERROR | OPUS_INVALID_PACKET | Out_Of_Bounds

fun and_then :: "'e + 'a \<Rightarrow> ('a \<Rightarrow> 'e + 'b) \<Rightarrow> 'e + 'b" where
  "and_then (Inl e) f = Inl e"
| "and_then (Inr x) f = f x"

lemma and_then_cong [fundef_cong]:
  "m = m' \<Longrightarrow> (\<And>x. m' = Inr x \<Longrightarrow> f x = f' x) \<Longrightarrow> and_then m f = and_then m' f'"
  by (cases m') auto

lemma and_then_Inr: "and_then m f = Inr y \<longleftrightarrow> (\<exists>x. m = Inr x \<and> f x = Inr y)"
  by (cases m) auto

lemma and_then_Inl: "and_then m f = Inl e \<longleftrightarrow> m = Inl e \<or> (\<exists>x. m = Inr x \<and> f x = Inl e)"
  by (cases m) auto

text \<open>Reading an \<open>unsigned char\<close>.\<close>

definition read_byte :: "int list \<Rightarrow> int \<Rightarrow> opus_error + int" where
  "read_byte data i = (if 0 \<le> i \<and> nat i < length data then Inr (u8 (data ! nat i)) else Inl Out_Of_Bounds)"

section \<open>Frame sizes and the table of contents\<close>

definition encode_size :: "int \<Rightarrow> int list" where
  "encode_size sz =
    (if sz < 252 then [u8 sz]
     else let d0 = u8 (252 + (sz AND 3)) in [d0, u8 (drop_bit 2 (sz - d0))])"

text \<open>The number of bytes read and the size, both \<open>-1\<close> if the bytes are missing.\<close>

definition parse_size :: "int list \<Rightarrow> int \<Rightarrow> int \<Rightarrow> opus_error + int \<times> int" where
  "parse_size data pos len =
    (if len < 1 then Inr (- 1, - 1)
     else and_then (read_byte data pos) (\<lambda>d0.
       if d0 < 252 then Inr (1, d0)
       else if len < 2 then Inr (- 1, - 1)
       else and_then (read_byte data (pos + 1)) (\<lambda>d1. Inr (2, i16 (4 * d1 + d0)))))"

definition opus_packet_get_samples_per_frame :: "int \<Rightarrow> int \<Rightarrow> int" where
  "opus_packet_get_samples_per_frame toc Fs =
    (if toc AND 128 \<noteq> 0 then push_bit (nat (drop_bit 3 toc AND 3)) Fs div 400
     else if toc AND 96 = 96 then (if toc AND 8 \<noteq> 0 then Fs div 50 else Fs div 100)
     else
       let audiosize = drop_bit 3 toc AND 3
       in if audiosize = 3 then Fs * 60 div 1000 else push_bit (nat audiosize) Fs div 100)"

section \<open>Parsing\<close>

function parse_padding :: "int list \<Rightarrow> int \<Rightarrow> int \<Rightarrow> int \<Rightarrow> opus_error + int \<times> int \<times> int" where
  "parse_padding data pos len pad =
    (if len \<le> 0 then Inl OPUS_INVALID_PACKET
     else and_then (read_byte data pos) (\<lambda>p.
       let tmp = (if p = 255 then 254 else p)
       in if p = 255 then parse_padding data (pos + 1) (len - 1 - tmp) (pad + tmp)
          else Inr (pos + 1, len - 1 - tmp, pad + tmp)))"
  by pat_completeness auto
termination by (relation "measure (\<lambda>(data, pos, len, pad). nat len)") auto

declare parse_padding.simps [simp del]

text \<open>The sizes of all frames but the last: position, remaining length, length left for the last frame.\<close>

fun parse_vbr_sizes :: "int list \<Rightarrow> nat \<Rightarrow> int \<Rightarrow> int \<Rightarrow> int \<Rightarrow> opus_error + int \<times> int \<times> int \<times> int list" where
  "parse_vbr_sizes data 0 pos len last_size = Inr (pos, len, last_size, [])"
| "parse_vbr_sizes data (Suc n) pos len last_size =
    and_then (parse_size data pos len) (\<lambda>(nb, sz).
      let len = len - nb
      in if sz < 0 \<or> sz > len then Inl OPUS_INVALID_PACKET
         else and_then (parse_vbr_sizes data n (pos + nb) len (last_size - (nb + sz)))
           (\<lambda>(pos, len, last_size, szs). Inr (pos, len, last_size, sz # szs)))"

text \<open>What the framing code determines before the size of the last frame is known.\<close>

record framing =
  fr_count :: int
  fr_cbr :: bool
  fr_pos :: int
  fr_len :: int
  fr_last_size :: int
  fr_sizes :: "int list"
  fr_pad :: int

text \<open>Framing code 3 after the padding length: \<open>pos\<close>, \<open>len\<close> and \<open>pad\<close> as the padding left them.\<close>

definition parse_code3_frames :: "int list \<Rightarrow> bool \<Rightarrow> bool \<Rightarrow> int \<Rightarrow> int \<Rightarrow> int \<times> int \<times> int \<Rightarrow> opus_error + framing" where
  "parse_code3_frames data self_delimited cbr count len0 = (\<lambda>(pos, len, pad).
    if len < 0 then Inl OPUS_INVALID_PACKET
    else if \<not> cbr then
      and_then (parse_vbr_sizes data (nat (count - 1)) pos len len) (\<lambda>(pos, len, last_size, sizes).
        if last_size < 0 then Inl OPUS_INVALID_PACKET
        else Inr \<lparr>fr_count = count, fr_cbr = cbr, fr_pos = pos, fr_len = len, fr_last_size = last_size, fr_sizes = sizes, fr_pad = pad\<rparr>)
    else if \<not> self_delimited then
      let last_size = len div count
      in if last_size * count \<noteq> len then Inl OPUS_INVALID_PACKET
         else Inr \<lparr>fr_count = count, fr_cbr = cbr, fr_pos = pos, fr_len = len, fr_last_size = last_size,
           fr_sizes = replicate (nat (count - 1)) (i16 last_size), fr_pad = pad\<rparr>
    else Inr \<lparr>fr_count = count, fr_cbr = cbr, fr_pos = pos, fr_len = len, fr_last_size = len0, fr_sizes = [], fr_pad = pad\<rparr>)"

definition parse_code3 :: "int list \<Rightarrow> int \<Rightarrow> int \<Rightarrow> bool \<Rightarrow> opus_error + framing" where
  "parse_code3 data framesize len0 self_delimited =
    (if len0 < 1 then Inl OPUS_INVALID_PACKET
     else and_then (read_byte data 1) (\<lambda>ch.
       let count = ch AND 63
       in if count \<le> 0 \<or> framesize * count > 5760 then Inl OPUS_INVALID_PACKET
          else and_then (if ch AND 64 \<noteq> 0 then parse_padding data 2 (len0 - 1) 0 else Inr (2, len0 - 1, 0))
            (parse_code3_frames data self_delimited (ch AND 128 = 0) count len0)))"

definition parse_code :: "int list \<Rightarrow> int \<Rightarrow> int \<Rightarrow> bool \<Rightarrow> opus_error + framing" where
  "parse_code data toc len self_delimited =
    (if toc AND 3 = 0 then
       Inr \<lparr>fr_count = 1, fr_cbr = False, fr_pos = 1, fr_len = len, fr_last_size = len, fr_sizes = [], fr_pad = 0\<rparr>
     else if toc AND 3 = 1 then
       if \<not> self_delimited then
         if len AND 1 \<noteq> 0 then Inl OPUS_INVALID_PACKET
         else Inr \<lparr>fr_count = 2, fr_cbr = True, fr_pos = 1, fr_len = len, fr_last_size = len div 2, fr_sizes = [i16 (len div 2)], fr_pad = 0\<rparr>
       else Inr \<lparr>fr_count = 2, fr_cbr = True, fr_pos = 1, fr_len = len, fr_last_size = len, fr_sizes = [], fr_pad = 0\<rparr>
     else if toc AND 3 = 2 then
       and_then (parse_size data 1 len) (\<lambda>(nb, sz).
         let len = len - nb
         in if sz < 0 \<or> sz > len then Inl OPUS_INVALID_PACKET
            else Inr \<lparr>fr_count = 2, fr_cbr = False, fr_pos = 1 + nb, fr_len = len, fr_last_size = len - sz, fr_sizes = [sz], fr_pad = 0\<rparr>)
     else parse_code3 data (opus_packet_get_samples_per_frame toc 48000) len self_delimited)"

text \<open>The size of the last frame, and with it all sizes; the position after the sizes.\<close>

definition parse_last_size :: "int list \<Rightarrow> bool \<Rightarrow> framing \<Rightarrow> opus_error + int \<times> int list" where
  "parse_last_size data self_delimited f =
    (if self_delimited then
       and_then (parse_size data (fr_pos f) (fr_len f)) (\<lambda>(nb, sz).
         let len = fr_len f - nb
         in if sz < 0 \<or> sz > len then Inl OPUS_INVALID_PACKET
            else if fr_cbr f then
              if sz * fr_count f > len then Inl OPUS_INVALID_PACKET
              else Inr (fr_pos f + nb, replicate (nat (fr_count f - 1)) sz @ [sz])
            else if nb + sz > fr_last_size f then Inl OPUS_INVALID_PACKET
            else Inr (fr_pos f + nb, fr_sizes f @ [sz]))
     else if fr_last_size f > 1275 then Inl OPUS_INVALID_PACKET
     else Inr (fr_pos f, fr_sizes f @ [i16 (fr_last_size f)]))"

record packet_info =
  pk_toc :: int
  pk_count :: int
  pk_frames :: "int list"
  pk_size :: "int list"
  pk_payload_offset :: int
  pk_padding :: int
  pk_padding_len :: int
  pk_packet_offset :: int

text \<open>Start of each frame.\<close>

fun frame_offsets :: "int \<Rightarrow> int list \<Rightarrow> int list" where
  "frame_offsets pos [] = []"
| "frame_offsets pos (sz # szs) = pos # frame_offsets (pos + sz) szs"

definition opus_packet_parse_impl :: "int list \<Rightarrow> int \<Rightarrow> bool \<Rightarrow> bool \<Rightarrow> opus_error + packet_info" where
  "opus_packet_parse_impl data len self_delimited size_null =
    (if size_null \<or> len < 0 then Inl OPUS_BAD_ARG
     else if len = 0 then Inl OPUS_INVALID_PACKET
     else and_then (read_byte data 0) (\<lambda>toc.
       and_then (parse_code data toc (len - 1) self_delimited) (\<lambda>f.
       and_then (parse_last_size data self_delimited f) (\<lambda>(pos, sizes).
         let fin = pos + sum_list sizes
         in Inr \<lparr>pk_toc = toc, pk_count = fr_count f, pk_frames = frame_offsets pos sizes, pk_size = sizes,
              pk_payload_offset = pos, pk_padding = fin, pk_padding_len = fr_pad f, pk_packet_offset = fr_pad f + fin\<rparr>))))"

definition opus_packet_parse :: "int list \<Rightarrow> int \<Rightarrow> bool \<Rightarrow> opus_error + packet_info" where
  "opus_packet_parse data len size_null = opus_packet_parse_impl data len False size_null"

section \<open>Inspection\<close>

datatype opus_mode = MODE_SILK_ONLY | MODE_HYBRID | MODE_CELT_ONLY

definition opus_packet_get_mode :: "int \<Rightarrow> opus_mode" where
  "opus_packet_get_mode toc =
    (if toc AND 128 \<noteq> 0 then MODE_CELT_ONLY else if toc AND 96 = 96 then MODE_HYBRID else MODE_SILK_ONLY)"

definition OPUS_BANDWIDTH_NARROWBAND :: int where "OPUS_BANDWIDTH_NARROWBAND = 1101"

definition OPUS_BANDWIDTH_MEDIUMBAND :: int where "OPUS_BANDWIDTH_MEDIUMBAND = 1102"

definition OPUS_BANDWIDTH_SUPERWIDEBAND :: int where "OPUS_BANDWIDTH_SUPERWIDEBAND = 1104"

definition OPUS_BANDWIDTH_FULLBAND :: int where "OPUS_BANDWIDTH_FULLBAND = 1105"

definition opus_packet_get_bandwidth :: "int \<Rightarrow> int" where
  "opus_packet_get_bandwidth toc =
    (if toc AND 128 \<noteq> 0 then
       let bandwidth = OPUS_BANDWIDTH_MEDIUMBAND + (drop_bit 5 toc AND 3)
       in if bandwidth = OPUS_BANDWIDTH_MEDIUMBAND then OPUS_BANDWIDTH_NARROWBAND else bandwidth
     else if toc AND 96 = 96 then
       (if toc AND 16 \<noteq> 0 then OPUS_BANDWIDTH_FULLBAND else OPUS_BANDWIDTH_SUPERWIDEBAND)
     else OPUS_BANDWIDTH_NARROWBAND + (drop_bit 5 toc AND 3))"

definition opus_packet_get_nb_channels :: "int \<Rightarrow> int" where
  "opus_packet_get_nb_channels toc = (if toc AND 4 \<noteq> 0 then 2 else 1)"

definition opus_packet_get_nb_frames :: "int list \<Rightarrow> int \<Rightarrow> opus_error + int" where
  "opus_packet_get_nb_frames packet len =
    (if len < 1 then Inl OPUS_BAD_ARG
     else and_then (read_byte packet 0) (\<lambda>toc.
       let count = toc AND 3
       in if count = 0 then Inr 1
          else if count \<noteq> 3 then Inr 2
          else if len < 2 then Inl OPUS_INVALID_PACKET
          else and_then (read_byte packet 1) (\<lambda>ch. Inr (ch AND 63))))"

definition opus_packet_get_nb_samples :: "int list \<Rightarrow> int \<Rightarrow> int \<Rightarrow> opus_error + int" where
  "opus_packet_get_nb_samples packet len Fs =
    and_then (opus_packet_get_nb_frames packet len) (\<lambda>count.
    and_then (read_byte packet 0) (\<lambda>toc.
      let samples = count * opus_packet_get_samples_per_frame toc Fs
      in if samples * 25 > Fs * 3 then Inl OPUS_INVALID_PACKET else Inr samples))"

definition opus_packet_has_lbrr :: "int list \<Rightarrow> int \<Rightarrow> opus_error + bool" where
  "opus_packet_has_lbrr packet len =
    and_then (read_byte packet 0) (\<lambda>toc.
      if opus_packet_get_mode toc = MODE_CELT_ONLY then Inr False
      else
        let packet_frame_size = opus_packet_get_samples_per_frame toc 48000;
            nb_frames = (if packet_frame_size > 960 then packet_frame_size div 960 else 1)
        in and_then (opus_packet_parse packet len False) (\<lambda>p.
           and_then (read_byte packet (pk_frames p ! 0)) (\<lambda>b.
             let lbrr = drop_bit (nat (7 - nb_frames)) b AND 1 \<noteq> 0
             in Inr (if opus_packet_get_nb_channels toc = 2
                  then lbrr \<or> drop_bit (nat (6 - 2 * nb_frames)) b AND 1 \<noteq> 0 else lbrr))))"

section \<open>Sizes\<close>

text \<open>A frame holds at most 1275 bytes.\<close>

definition frame_size_ok :: "int \<Rightarrow> bool" where "frame_size_ok sz \<longleftrightarrow> 0 \<le> sz \<and> sz \<le> 1275"

lemma u8_byte [simp]: "is_byte b \<Longrightarrow> u8 b = b"
  by (simp add: is_byte_def)

lemma read_byte_append [simp]: "is_byte b \<Longrightarrow> read_byte (pre @ b # rest) (int (length pre)) = Inr b"
  by (simp add: read_byte_def)

lemma read_byte_nth: "bytes data \<Longrightarrow> i < length data \<Longrightarrow> read_byte data (int i) = Inr (data ! i)"
  by (simp add: read_byte_def bytes_nth)

lemma read_byte_first:
  "bytes data \<Longrightarrow> data \<noteq> [] \<Longrightarrow> read_byte data 0 = Inr (data ! 0)"
  "bytes data \<Longrightarrow> 2 \<le> length data \<Longrightarrow> read_byte data 1 = Inr (data ! 1)"
  using read_byte_nth [of data 0] read_byte_nth [of data 1] by auto

lemma read_byte_is_byte: "read_byte data i = Inr b \<Longrightarrow> is_byte b"
  by (auto simp: read_byte_def split: if_splits)

lemma read_byte_ok: "bytes data \<Longrightarrow> 0 \<le> i \<Longrightarrow> i < int (length data) \<Longrightarrow> \<exists>b. read_byte data i = Inr b \<and> is_byte b"
  by (auto simp: read_byte_def)

lemma encode_size_props:
  assumes "frame_size_ok sz"
  shows "bytes (encode_size sz)" "length (encode_size sz) = (if sz < 252 then 1 else 2)"
proof -
  have "is_byte (252 + (sz AND 3))" by (simp add: is_byte_def bitarith)
  then show "bytes (encode_size sz)" by (simp add: encode_size_def Let_def)
  show "length (encode_size sz) = (if sz < 252 then 1 else 2)" by (simp add: encode_size_def Let_def)
qed

lemma parse_encode_size:
  assumes "frame_size_ok sz" "int (length (encode_size sz)) \<le> len"
  shows "parse_size (pre @ encode_size sz @ rest) (int (length pre)) len = Inr (int (length (encode_size sz)), sz)"
proof (cases "sz < 252")
  case True
  then show ?thesis using assms by (simp add: encode_size_def parse_size_def frame_size_ok_def is_byte_def)
next
  case False
  define d0 where "d0 = 252 + sz mod 4"
  define d1 where "d1 = (sz - d0) div 4"
  have m: "4 dvd sz - d0" unfolding d0_def by presburger
  have d: "d0 < 256" "252 \<le> d0" "0 \<le> d1" "d1 < 256" "4 * d1 + d0 = sz"
    using assms False m by (auto simp: d0_def d1_def frame_size_ok_def)
  have e: "encode_size sz = [d0, d1]"
    using False d by (simp add: encode_size_def Let_def bitarith shift_arith flip: d0_def d1_def)
  have r: "read_byte (pre @ d0 # d1 # rest) (int (length pre) + 1) = Inr d1"
    using read_byte_append [of d1 "pre @ [d0]" rest] d by (simp add: add.commute is_byte_def)
  show ?thesis using assms d r by (simp add: e parse_size_def frame_size_ok_def is_byte_def)
qed

lemma parse_size_ok:
  assumes "bytes data" "0 \<le> pos" "pos + len \<le> int (length data)"
  shows "\<exists>nb sz. parse_size data pos len = Inr (nb, sz) \<and> (nb = - 1 \<and> sz = - 1 \<or> (nb = 1 \<or> nb = 2) \<and> nb \<le> len \<and> frame_size_ok sz)"
proof (cases "len < 1")
  case False
  then obtain d0 where d0: "read_byte data pos = Inr d0" "is_byte d0" using read_byte_ok [of data pos] assms by auto
  show ?thesis
  proof (cases "252 \<le> d0 \<and> 2 \<le> len")
    case True
    then obtain d1 where d1: "read_byte data (pos + 1) = Inr d1" "is_byte d1" using read_byte_ok [of data "pos + 1"] assms by auto
    then show ?thesis using d0 True by (auto simp: parse_size_def is_byte_def frame_size_ok_def)
  qed (use d0 False in \<open>auto simp: parse_size_def is_byte_def frame_size_ok_def\<close>)
qed (simp add: parse_size_def)

section \<open>Parsing an arbitrary packet\<close>

text \<open>A step of the parser either succeeds with \<open>P\<close> or rejects the packet; it never reads out of bounds.\<close>

definition checks :: "opus_error + 'a \<Rightarrow> ('a \<Rightarrow> bool) \<Rightarrow> bool" where
  "checks m P \<longleftrightarrow> (case m of Inl e \<Rightarrow> e = OPUS_INVALID_PACKET | Inr x \<Rightarrow> P x)"

lemma checks_simps [simp]: "checks (Inl OPUS_INVALID_PACKET) P" "checks (Inr x) P \<longleftrightarrow> P x"
  by (simp_all add: checks_def)

lemma checks_bind: "checks m P \<Longrightarrow> (\<And>x. P x \<Longrightarrow> checks (f x) Q) \<Longrightarrow> checks (and_then m f) Q"
  by (cases m) (simp_all add: checks_def)

lemma checks_mono: "checks m P \<Longrightarrow> (\<And>x. P x \<Longrightarrow> Q x) \<Longrightarrow> checks m Q"
  by (cases m) (simp_all add: checks_def)

lemma checks_read: "bytes data \<Longrightarrow> 0 \<le> i \<Longrightarrow> i < int (length data) \<Longrightarrow> checks (read_byte data i) is_byte"
  using read_byte_ok [of data i] by auto

lemma checks_padding:
  assumes "bytes data" "0 \<le> pos" "0 \<le> pad" "pos + len + pad = int (length data)"
  shows "checks (parse_padding data pos len pad) (\<lambda>(pos, len, pad). 0 \<le> pos \<and> 0 \<le> pad \<and> pos + len + pad = int (length data))"
  using assms
proof (induction data pos len pad rule: parse_padding.induct)
  case (1 data pos len pad)
  show ?case
  proof (cases "len \<le> 0")
    case False
    then obtain p where p: "read_byte data pos = Inr p" "is_byte p" using read_byte_ok [of data pos] "1.prems" by auto
    show ?thesis using "1.IH" [OF False p(1) refl] "1.prems" p False
      by (subst parse_padding.simps) (auto simp: Let_def is_byte_def)
  qed (simp add: parse_padding.simps)
qed

text \<open>A size that was accepted: its bytes and the frame fit the remaining length.\<close>

lemma checks_size:
  assumes "bytes data" "0 \<le> pos" "pos + len \<le> int (length data)"
    and Q: "\<And>nb sz. \<lbrakk>nb = 1 \<or> nb = 2; nb \<le> len; frame_size_ok sz; sz \<le> len - nb\<rbrakk> \<Longrightarrow> checks (f nb sz (len - nb)) Q"
  shows "checks (and_then (parse_size data pos len) (\<lambda>(nb, sz).
    let len = len - nb in if sz < 0 \<or> sz > len then Inl OPUS_INVALID_PACKET else f nb sz len)) Q"
proof -
  obtain nb sz where s: "parse_size data pos len = Inr (nb, sz)"
    "nb = - 1 \<and> sz = - 1 \<or> (nb = 1 \<or> nb = 2) \<and> nb \<le> len \<and> frame_size_ok sz"
    using parse_size_ok [OF assms(1-3)] by blast
  then show ?thesis using Q [of nb sz] by (auto simp: Let_def frame_size_ok_def)
qed

lemma checks_vbr_sizes:
  assumes "bytes data" "0 \<le> pos" "0 \<le> len" "pos + len \<le> int (length data)"
  shows "checks (parse_vbr_sizes data n pos len last_size) (\<lambda>(pos', len', last', szs).
    last' = last_size - (len - len') - sum_list szs \<and> 0 \<le> pos' \<and> 0 \<le> len' \<and> pos' + len' = pos + len
    \<and> length szs = n \<and> list_all frame_size_ok szs)"
  using assms
proof (induction n arbitrary: pos len last_size)
  case (Suc n)
  show ?case unfolding parse_vbr_sizes.simps
  proof (rule checks_size [OF Suc.prems(1,2,4)])
    fix nb sz assume nb: "nb = 1 \<or> nb = 2" "nb \<le> len" "frame_size_ok sz" "sz \<le> len - nb"
    have "0 \<le> pos + nb" "0 \<le> len - nb" "pos + nb + (len - nb) \<le> int (length data)" using nb Suc.prems by auto
    from Suc.IH [OF Suc.prems(1) this, of "last_size - (nb + sz)"]
    show "checks (and_then (parse_vbr_sizes data n (pos + nb) (len - nb) (last_size - (nb + sz)))
        (\<lambda>(pos, len, last_size, szs). Inr (pos, len, last_size, sz # szs)))
      (\<lambda>(pos', len', last', szs). last' = last_size - (len - len') - sum_list szs \<and> 0 \<le> pos' \<and> 0 \<le> len' \<and> pos' + len' = pos + len
        \<and> length szs = Suc n \<and> list_all frame_size_ok szs)"
      by (rule checks_bind) (use nb(3) in auto)
  qed
qed simp

text \<open>What the framing code guarantees to the rest of the parser.\<close>

definition framing_ok :: "int list \<Rightarrow> int \<Rightarrow> bool \<Rightarrow> framing \<Rightarrow> bool" where
  "framing_ok data framesize self_delimited f \<longleftrightarrow>
    1 \<le> fr_count f \<and> fr_count f * framesize \<le> 5760 \<and> 0 \<le> fr_pos f \<and> 0 \<le> fr_len f \<and> 0 \<le> fr_pad f \<and>
    fr_pos f + fr_len f + fr_pad f = int (length data) \<and> 0 \<le> fr_last_size f \<and>
    (\<not> fr_cbr f \<longrightarrow> length (fr_sizes f) = nat (fr_count f - 1) \<and> list_all frame_size_ok (fr_sizes f)
       \<and> sum_list (fr_sizes f) + fr_last_size f = fr_len f) \<and>
    (fr_cbr f \<and> \<not> self_delimited \<longrightarrow> fr_sizes f = replicate (nat (fr_count f - 1)) (i16 (fr_last_size f))
       \<and> fr_last_size f * fr_count f = fr_len f)"

lemma samples_per_frame_48k:
  assumes "is_byte toc"
  shows "120 \<le> opus_packet_get_samples_per_frame toc 48000 \<and> opus_packet_get_samples_per_frame toc 48000 \<le> 2880"
proof -
  have "drop_bit 3 toc AND 3 \<in> {0, 1, 2, 3}" by (auto simp: bitarith)
  then show ?thesis by (auto simp: opus_packet_get_samples_per_frame_def Let_def shift_arith)
qed

lemma checks_code3_frames:
  assumes "bytes data" "0 \<le> pos" "0 \<le> pad" "pos + len + pad = int (length data)" "0 \<le> len0" "1 \<le> count" "count * framesize \<le> 5760"
  shows "checks (parse_code3_frames data self_delimited cbr count len0 (pos, len, pad)) (framing_ok data framesize self_delimited)"
proof (cases "len < 0")
  case False
  then have l: "0 \<le> len" "pos + len \<le> int (length data)" using assms by auto
  have "0 \<le> len div count" using l assms(6) by (simp add: pos_imp_zdiv_nonneg_iff)
  moreover have "checks (and_then (parse_vbr_sizes data (nat (count - 1)) pos len len) (\<lambda>(pos, len, last_size, sizes).
      if last_size < 0 then Inl OPUS_INVALID_PACKET
      else Inr \<lparr>fr_count = count, fr_cbr = False, fr_pos = pos, fr_len = len, fr_last_size = last_size, fr_sizes = sizes, fr_pad = pad\<rparr>))
    (framing_ok data framesize self_delimited)"
    by (rule checks_bind [OF checks_vbr_sizes [OF assms(1,2) l]]) (use assms in \<open>auto simp: framing_ok_def\<close>)
  ultimately show ?thesis using assms l by (cases cbr) (auto simp: parse_code3_frames_def framing_ok_def Let_def)
qed (simp add: parse_code3_frames_def)

lemma checks_code3:
  assumes d: "bytes data" "len + 1 = int (length data)" "0 \<le> len"
  shows "checks (parse_code3 data framesize len self_delimited) (framing_ok data framesize self_delimited)"
proof (cases "len < 1")
  case False
  then obtain ch where ch: "read_byte data 1 = Inr ch" using read_byte_ok [of data 1] d by auto
  define m where "m = (if ch AND 64 \<noteq> 0 then parse_padding data 2 (len - 1) 0 else Inr (2, len - 1, 0))"
  have m: "checks m (\<lambda>(pos, len, pad). 0 \<le> pos \<and> 0 \<le> pad \<and> pos + len + pad = int (length data))"
    using checks_padding [of data 2 0 "len - 1"] d unfolding m_def by auto
  have "checks (and_then m (parse_code3_frames data self_delimited (ch AND 128 = 0) (ch AND 63) len)) (framing_ok data framesize self_delimited)"
    if "1 \<le> ch AND 63" "(ch AND 63) * framesize \<le> 5760"
    using m by (rule checks_bind) (use checks_code3_frames [OF d(1)] d(3) that in auto)
  then show ?thesis using False ch by (auto simp: parse_code3_def Let_def m_def mult.commute)
qed (simp add: parse_code3_def)

lemma checks_code:
  assumes d: "bytes data" "len + 1 = int (length data)" "0 \<le> len" and toc: "is_byte toc"
  shows "checks (parse_code data toc len self_delimited) (framing_ok data (opus_packet_get_samples_per_frame toc 48000) self_delimited)"
proof -
  define framesize where "framesize = opus_packet_get_samples_per_frame toc 48000"
  have fs: "120 \<le> framesize" "framesize \<le> 2880" using samples_per_frame_48k [OF toc] by (simp_all add: framesize_def)
  consider (0) "toc AND 3 = 0" | (1) "toc AND 3 = 1" | (2) "toc AND 3 = 2" | (3) "toc AND 3 \<noteq> 0" "toc AND 3 \<noteq> 1" "toc AND 3 \<noteq> 2" by blast
  then show ?thesis unfolding framesize_def [symmetric]
  proof cases
    case 2
    have "checks (and_then (parse_size data 1 len) (\<lambda>(nb, sz). let len' = len - nb
        in if sz < 0 \<or> sz > len' then Inl OPUS_INVALID_PACKET else
          Inr \<lparr>fr_count = 2, fr_cbr = False, fr_pos = 1 + nb, fr_len = len - nb, fr_last_size = len - nb - sz, fr_sizes = [sz], fr_pad = 0\<rparr>))
      (framing_ok data framesize self_delimited)"
      by (rule checks_size) (use d fs in \<open>auto simp: framing_ok_def frame_size_ok_def\<close>)
    then show "checks (parse_code data toc len self_delimited) (framing_ok data framesize self_delimited)"
      using 2 by (simp add: parse_code_def Let_def)
  next
    case 3
    then show "checks (parse_code data toc len self_delimited) (framing_ok data framesize self_delimited)"
      using checks_code3 [OF d] by (simp add: parse_code_def framesize_def)
  qed (use d fs in \<open>auto simp: parse_code_def framing_ok_def bitarith\<close>)
qed

lemma checks_last_size:
  assumes d: "bytes data" and f: "framing_ok data framesize self_delimited f"
  shows "checks (parse_last_size data self_delimited f) (\<lambda>(pos, sizes). 0 \<le> pos \<and> fr_pos f \<le> pos \<and> int (length sizes) = fr_count f
    \<and> list_all frame_size_ok sizes \<and> pos + sum_list sizes + fr_pad f \<le> int (length data)
    \<and> (\<not> self_delimited \<longrightarrow> pos + sum_list sizes + fr_pad f = int (length data)))"
proof (cases self_delimited)
  case True
  have "checks (and_then (parse_size data (fr_pos f) (fr_len f)) (\<lambda>(nb, sz). let len = fr_len f - nb
     in if sz < 0 \<or> sz > len then Inl OPUS_INVALID_PACKET
        else if fr_cbr f then
          if sz * fr_count f > fr_len f - nb then Inl OPUS_INVALID_PACKET
          else Inr (fr_pos f + nb, replicate (nat (fr_count f - 1)) sz @ [sz])
        else if nb + sz > fr_last_size f then Inl OPUS_INVALID_PACKET
        else Inr (fr_pos f + nb, fr_sizes f @ [sz])))
    (\<lambda>(pos, sizes). 0 \<le> pos \<and> fr_pos f \<le> pos \<and> int (length sizes) = fr_count f
    \<and> list_all frame_size_ok sizes \<and> pos + sum_list sizes + fr_pad f \<le> int (length data))"
    by (rule checks_size) (use d f in \<open>auto simp: framing_ok_def sum_list_replicate list_all_iff algebra_simps\<close>)
  then show ?thesis using True by (simp add: parse_last_size_def Let_def)
next
  case False
  have "i16 (fr_last_size f) = fr_last_size f" if "fr_last_size f \<le> 1275" using that f by (simp add: framing_ok_def)
  then show ?thesis using False f
    by (auto simp: parse_last_size_def framing_ok_def frame_size_ok_def sum_list_replicate list_all_iff algebra_simps)
qed

lemma length_frame_offsets [simp]: "length (frame_offsets pos szs) = length szs"
  by (induction szs arbitrary: pos) auto

lemma frame_offsets_nth: "i < length szs \<Longrightarrow> frame_offsets pos szs ! i = pos + sum_list (take i szs)"
proof (induction szs arbitrary: pos i)
  case (Cons sz szs)
  then show ?case by (cases i) auto
qed simp

lemma sum_list_take_le:
  assumes "list_all frame_size_ok szs" "i < length szs"
  shows "0 \<le> sum_list (take i szs)" "sum_list (take i szs) + szs ! i \<le> sum_list szs"
proof -
  have n: "0 \<le> sum_list ys" if "set ys \<subseteq> set szs" for ys
    using assms(1) that by (intro sum_list_nonneg) (auto simp: list_all_iff frame_size_ok_def)
  show "0 \<le> sum_list (take i szs)" by (rule n) (rule set_take_subset)
  have "szs = take i szs @ szs ! i # drop (Suc i) szs" using assms(2) by (rule id_take_nth_drop)
  then have "sum_list szs = sum_list (take i szs) + (szs ! i + sum_list (drop (Suc i) szs))" by (metis sum_list.Cons sum_list.append)
  moreover have "0 \<le> sum_list (drop (Suc i) szs)" by (rule n) (rule set_drop_subset)
  ultimately show "sum_list (take i szs) + szs ! i \<le> sum_list szs" by linarith
qed

text \<open>A parsed packet: its frames lie one after the other inside \<open>data\<close>, the padding follows.\<close>

definition packet_ok :: "int list \<Rightarrow> bool \<Rightarrow> packet_info \<Rightarrow> bool" where
  "packet_ok data self_delimited p \<longleftrightarrow>
    1 \<le> pk_count p \<and> pk_count p \<le> 48 \<and> pk_count p * opus_packet_get_samples_per_frame (pk_toc p) 48000 \<le> 5760 \<and>
    pk_toc p = data ! 0 \<and> int (length (pk_size p)) = pk_count p \<and> list_all frame_size_ok (pk_size p) \<and>
    pk_frames p = frame_offsets (pk_payload_offset p) (pk_size p) \<and> 0 \<le> pk_payload_offset p \<and>
    pk_padding p = pk_payload_offset p + sum_list (pk_size p) \<and> 0 \<le> pk_padding_len p \<and>
    pk_packet_offset p = pk_padding p + pk_padding_len p \<and> pk_packet_offset p \<le> int (length data) \<and>
    (\<not> self_delimited \<longrightarrow> pk_packet_offset p = int (length data))"

lemma checks_parse:
  assumes "bytes data" "data \<noteq> []"
  shows "checks (opus_packet_parse_impl data (int (length data)) self_delimited False) (packet_ok data self_delimited)"
proof -
  have toc: "read_byte data 0 = Inr (data ! 0)" "is_byte (data ! 0)" using assms by (simp_all add: read_byte_first bytes_nth)
  let ?fs = "opus_packet_get_samples_per_frame (data ! 0) 48000"
  have "checks (and_then (parse_code data (data ! 0) (int (length data) - 1) self_delimited) (\<lambda>f.
       and_then (parse_last_size data self_delimited f) (\<lambda>(pos, sizes).
         let fin = pos + sum_list sizes
         in Inr \<lparr>pk_toc = data ! 0, pk_count = fr_count f, pk_frames = frame_offsets pos sizes, pk_size = sizes,
              pk_payload_offset = pos, pk_padding = fin, pk_padding_len = fr_pad f, pk_packet_offset = fr_pad f + fin\<rparr>)))
    (packet_ok data self_delimited)"
  proof (rule checks_bind)
    show "checks (parse_code data (data ! 0) (int (length data) - 1) self_delimited) (framing_ok data ?fs self_delimited)"
      using assms toc(2) by (intro checks_code) (auto simp: Suc_leI)
  next
    fix f assume f: "framing_ok data ?fs self_delimited f"
    have "fr_count f * 120 \<le> fr_count f * ?fs" using f samples_per_frame_48k [OF toc(2)] by (intro mult_left_mono) (auto simp: framing_ok_def)
    moreover have "fr_count f * ?fs \<le> 5760" using f by (simp add: framing_ok_def)
    ultimately have c: "fr_count f \<le> 48" by linarith
    show "checks (and_then (parse_last_size data self_delimited f) (\<lambda>(pos, sizes).
         let fin = pos + sum_list sizes
         in Inr \<lparr>pk_toc = data ! 0, pk_count = fr_count f, pk_frames = frame_offsets pos sizes, pk_size = sizes,
              pk_payload_offset = pos, pk_padding = fin, pk_padding_len = fr_pad f, pk_packet_offset = fr_pad f + fin\<rparr>))
      (packet_ok data self_delimited)"
      by (rule checks_bind [OF checks_last_size [OF assms(1) f]]) (use f c in \<open>auto simp: packet_ok_def framing_ok_def Let_def\<close>)
  qed
  then show ?thesis using assms(2) toc(1) by (simp add: opus_packet_parse_impl_def)
qed

lemma parse_impl_cases:
  assumes "bytes data"
  obtains (invalid) "opus_packet_parse_impl data (int (length data)) self_delimited False = Inl OPUS_INVALID_PACKET"
  | (parsed) p where "opus_packet_parse_impl data (int (length data)) self_delimited False = Inr p" "packet_ok data self_delimited p" "data \<noteq> []"
proof (cases "data = []")
  case True
  then show ?thesis using invalid by (simp add: opus_packet_parse_impl_def)
next
  case False
  then show ?thesis using checks_parse [OF assms False, of self_delimited] invalid parsed
    by (cases "opus_packet_parse_impl data (int (length data)) self_delimited False") (auto simp: checks_def)
qed

text \<open>The number of frames in the header is the number of frames parsed.\<close>

lemma parse_nb_frames:
  assumes "bytes data" "opus_packet_parse_impl data (int (length data)) self_delimited False = Inr p"
  shows "opus_packet_get_nb_frames data (int (length data)) = Inr (pk_count p)"
proof -
  have ne: "data \<noteq> []" using assms(2) by (auto simp: opus_packet_parse_impl_def)
  then have r0: "read_byte data 0 = Inr (data ! 0)" using assms(1) by (simp add: read_byte_first)
  obtain f where f: "parse_code data (data ! 0) (int (length data) - 1) self_delimited = Inr f" "pk_count p = fr_count f"
    using assms(2) ne r0 by (auto simp: opus_packet_parse_impl_def and_then_Inr Let_def)
  show ?thesis
  proof (cases "data ! 0 AND 3 = 3")
    case True
    then have c3: "parse_code3 data (opus_packet_get_samples_per_frame (data ! 0) 48000) (int (length data) - 1) self_delimited = Inr f"
      using f(1) by (simp add: parse_code_def)
    then have l: "2 \<le> length data" by (auto simp: parse_code3_def split: if_splits)
    then have r1: "read_byte data 1 = Inr (data ! 1)" using assms(1) by (simp add: read_byte_first)
    have "fr_count f = data ! 1 AND 63"
      using c3 l r1 by (auto simp: parse_code3_def parse_code3_frames_def and_then_Inr Let_def split: if_splits)
    then show ?thesis using True l ne r0 r1 f(2) by (simp add: opus_packet_get_nb_frames_def Let_def)
  next
    case False
    then have "data ! 0 AND 3 \<in> {0, 1, 2}" by (auto simp: bitarith)
    then have "fr_count f = (if data ! 0 AND 3 = 0 then 1 else 2)"
      using f(1) by (auto simp: parse_code_def and_then_Inr Let_def split: if_splits)
    then show ?thesis using False ne r0 f(2) by (auto simp: opus_packet_get_nb_frames_def Let_def)
  qed
qed

section \<open>Results\<close>

text \<open>
  C9. Parsing is safe on every byte string, in both framings: \<open>opus_packet_parse_impl\<close> never reads
  outside of the packet; it either rejects the packet or reports 1 to 48 frames of at most 1275 bytes
  and together at most 120 ms, which lie one after the other inside the packet and are followed by
  the padding.  Without self-delimiting, frames and padding end exactly where the packet ends.
\<close>

theorem packet_parse_safe:
  assumes "bytes data" "len = int (length data)"
  shows "opus_packet_parse_impl data len self_delimited False = Inl OPUS_INVALID_PACKET
    \<or> (\<exists>p. opus_packet_parse_impl data len self_delimited False = Inr p
        \<and> 1 \<le> pk_count p \<and> pk_count p \<le> 48 \<and> pk_count p * opus_packet_get_samples_per_frame (pk_toc p) 48000 \<le> 5760
        \<and> int (length (pk_size p)) = pk_count p \<and> int (length (pk_frames p)) = pk_count p
        \<and> (\<forall>i. i < length (pk_size p) \<longrightarrow> 0 \<le> pk_size p ! i \<and> pk_size p ! i \<le> 1275
             \<and> pk_frames p ! i = pk_payload_offset p + sum_list (take i (pk_size p))
             \<and> 0 \<le> pk_frames p ! i \<and> pk_frames p ! i + pk_size p ! i \<le> pk_padding p)
        \<and> pk_padding p + pk_padding_len p = pk_packet_offset p \<and> 0 \<le> pk_padding_len p \<and> pk_packet_offset p \<le> len
        \<and> (\<not> self_delimited \<longrightarrow> pk_packet_offset p = len))"
proof (rule parse_impl_cases [OF assms(1), of self_delimited])
  fix p assume p: "opus_packet_parse_impl data (int (length data)) self_delimited False = Inr p" and ok: "packet_ok data self_delimited p"
  have frames: "0 \<le> pk_size p ! i \<and> pk_size p ! i \<le> 1275 \<and> pk_frames p ! i = pk_payload_offset p + sum_list (take i (pk_size p))
      \<and> 0 \<le> pk_frames p ! i \<and> pk_frames p ! i + pk_size p ! i \<le> pk_padding p" if "i < length (pk_size p)" for i
    using ok that sum_list_take_le [of "pk_size p" i] by (auto simp: packet_ok_def frame_offsets_nth list_all_length frame_size_ok_def)
  have F: "\<forall>i. i < length (pk_size p) \<longrightarrow> 0 \<le> pk_size p ! i \<and> pk_size p ! i \<le> 1275
      \<and> pk_frames p ! i = pk_payload_offset p + sum_list (take i (pk_size p))
      \<and> 0 \<le> pk_frames p ! i \<and> pk_frames p ! i + pk_size p ! i \<le> pk_padding p" using frames by blast
  have R: "1 \<le> pk_count p" "pk_count p \<le> 48" "pk_count p * opus_packet_get_samples_per_frame (pk_toc p) 48000 \<le> 5760"
    "int (length (pk_size p)) = pk_count p" "int (length (pk_frames p)) = pk_count p"
    "pk_padding p + pk_padding_len p = pk_packet_offset p" "0 \<le> pk_padding_len p" "pk_packet_offset p \<le> int (length data)"
    "\<not> self_delimited \<longrightarrow> pk_packet_offset p = int (length data)"
    using ok by (auto simp: packet_ok_def)
  show ?thesis unfolding assms(2) by (intro disjI2 exI [of _ p] conjI p R F)
qed (use assms in simp)

theorem packet_parse_safe_witness:
  "\<exists>p. opus_packet_parse_impl [131, 66, 3, 7, 7, 9, 9, 0, 0, 0] 10 False False = Inr p \<and> pk_packet_offset p = 10"
proof -
  have "opus_packet_parse_impl [131, 66, 3, 7, 7, 9, 9, 0, 0, 0] 10 False False \<noteq> Inl OPUS_INVALID_PACKET" by code_simp
  moreover have "bytes [131, 66, 3, 7, 7, 9, 9, 0, 0, 0]" by code_simp
  ultimately show ?thesis using packet_parse_safe [of "[131, 66, 3, 7, 7, 9, 9, 0, 0, 0]" 10 False] by auto
qed

text \<open>
  C37. \<open>opus_packet_has_lbrr\<close> reads the first byte of the first frame without looking at its size.
  It reads outside of the packet exactly when the packet is not CELT-only, parses, and ends where
  its first frame starts, as a table-of-contents byte alone does.
\<close>

theorem has_lbrr_out_of_bounds:
  assumes "bytes data" "data \<noteq> []"
  shows "opus_packet_has_lbrr data (int (length data)) = Inl Out_Of_Bounds \<longleftrightarrow>
    opus_packet_get_mode (data ! 0) \<noteq> MODE_CELT_ONLY \<and>
    (\<exists>p. opus_packet_parse data (int (length data)) False = Inr p \<and> pk_payload_offset p = int (length data))"
proof (cases "opus_packet_get_mode (data ! 0) = MODE_CELT_ONLY")
  case False
  have r0: "read_byte data 0 = Inr (data ! 0)" using assms by (simp add: read_byte_first)
  show ?thesis
  proof (rule parse_impl_cases [OF assms(1), of False])
    fix p assume p: "opus_packet_parse_impl data (int (length data)) False False = Inr p" and ok: "packet_ok data False p"
    have "0 < length (pk_size p)" using ok by (auto simp: packet_ok_def)
    then have f: "pk_frames p ! 0 = pk_payload_offset p" "0 \<le> pk_payload_offset p" "pk_payload_offset p \<le> int (length data)"
      using ok sum_list_take_le [of "pk_size p" 0] by (auto simp: packet_ok_def frame_offsets_nth list_all_length frame_size_ok_def)
    then show ?thesis using False r0 p
      by (auto simp: opus_packet_has_lbrr_def opus_packet_parse_def Let_def read_byte_def)
  qed (use False r0 in \<open>simp add: opus_packet_has_lbrr_def opus_packet_parse_def Let_def\<close>)
qed (use assms in \<open>simp add: opus_packet_has_lbrr_def read_byte_first\<close>)

theorem has_lbrr_out_of_bounds_witness: "opus_packet_has_lbrr [8] 1 = Inl Out_Of_Bounds"
proof -
  have "opus_packet_get_mode 8 \<noteq> MODE_CELT_ONLY" "bytes [8]" by code_simp+
  moreover have "\<exists>p. opus_packet_parse [8] 1 False = Inr p \<and> pk_payload_offset p = 1"
    by (simp add: opus_packet_parse_def opus_packet_parse_impl_def read_byte_def parse_code_def parse_last_size_def Let_def)
  ultimately show ?thesis using has_lbrr_out_of_bounds [of "[8]"] by simp
qed

text \<open>
  C34. The functions that inspect a packet without parsing it agree with the parser: for a packet that
  parses, \<open>opus_packet_get_nb_frames\<close> returns the number of frames parsed, and at every sampling rate
  Opus supports \<open>opus_packet_get_nb_samples\<close> accepts the packet and returns that many frames' worth
  of samples.
\<close>

theorem packet_inspection_agrees:
  assumes "bytes data" "len = int (length data)" "opus_packet_parse_impl data len self_delimited False = Inr p"
    "Fs \<in> {8000, 12000, 16000, 24000, 48000}"
  shows "opus_packet_get_nb_frames data len = Inr (pk_count p)
    \<and> opus_packet_get_nb_samples data len Fs = Inr (pk_count p * opus_packet_get_samples_per_frame (pk_toc p) Fs)"
proof -
  have nf: "opus_packet_get_nb_frames data len = Inr (pk_count p)" using parse_nb_frames assms by simp
  have ne: "data \<noteq> []" using assms(2,3) by (auto simp: opus_packet_parse_impl_def)
  then have ok: "packet_ok data self_delimited p" using checks_parse [OF assms(1) ne, of self_delimited] assms(2,3) by simp
  have b: "is_byte (data ! 0)" "read_byte data 0 = Inr (data ! 0)" using assms(1) ne by (simp_all add: bytes_nth read_byte_first)
  have "drop_bit 3 (data ! 0) AND 3 \<in> {0, 1, 2, 3}" by (auto simp: bitarith)
  then have s: "48000 * opus_packet_get_samples_per_frame (data ! 0) Fs = Fs * opus_packet_get_samples_per_frame (data ! 0) 48000"
    using assms(4) by (auto simp: opus_packet_get_samples_per_frame_def Let_def shift_arith)
  have "Fs * (pk_count p * opus_packet_get_samples_per_frame (data ! 0) 48000) \<le> Fs * 5760"
    using ok assms(4) by (intro mult_left_mono) (auto simp: packet_ok_def)
  then have "48000 * (pk_count p * opus_packet_get_samples_per_frame (data ! 0) Fs) \<le> Fs * 5760"
    using s by (simp add: ac_simps)
  then show ?thesis using nf b ok by (auto simp: opus_packet_get_nb_samples_def packet_ok_def Let_def)
qed

theorem packet_inspection_agrees_witness:
  "opus_packet_get_nb_samples [131, 66, 3, 7, 7, 9, 9, 0, 0, 0] 10 48000 = Inr 240"
proof -
  have b: "bytes [131, 66, 3, 7, 7, 9, 9, 0, 0, 0]" by code_simp
  have p: "opus_packet_parse_impl [131, 66, 3, 7, 7, 9, 9, 0, 0, 0] 10 False False
    = Inr \<lparr>pk_toc = 131, pk_count = 2, pk_frames = [3, 5], pk_size = [2, 2], pk_payload_offset = 3, pk_padding = 7, pk_padding_len = 3, pk_packet_offset = 10\<rparr>"
    by code_simp
  have "opus_packet_get_samples_per_frame 131 48000 = 120" by code_simp
  then show ?thesis using packet_inspection_agrees [OF b _ p, of 48000] by simp
qed

end
