(* ===== verification/Opus_Extensions.thy ===== *)
theory Opus_Extensions
  imports Opus_Packet "HOL-Library.Multiset"
begin

text \<open>
  Packet extensions (\<open>src/extensions.c\<close>): numbered payloads in the padding of a packet, each with the
  frame it belongs to.  Short extensions (numbers below 32) carry at most one byte; long ones carry
  their length, except for the last extension of the packet, which extends to the end.
\<close>

section \<open>Definitions\<close>

record opus_extension_data =
  ext_id :: int
  ext_frame :: int
  ext_data :: "int list"
  ext_len :: int

text \<open>
  The length bytes of a long extension: position and length left at the last of them, their sum and
  the size of the header, or nothing if the data ends before.
\<close>

function ext_length :: "int list \<Rightarrow> int \<Rightarrow> int \<Rightarrow> int \<Rightarrow> int \<Rightarrow> opus_error + (int \<times> int \<times> int \<times> int) option" where
  "ext_length data pos len nb header_size =
    (if len - 1 = 0 then Inr None
     else and_then (read_byte data (pos + 1)) (\<lambda>b.
       if b = 255 then ext_length data (pos + 1) (len - 1) (nb + b) (header_size + 1)
       else Inr (Some (pos + 1, len - 1, nb + b, header_size + 1))))"
  by pat_completeness auto
termination
  by (relation "measure (\<lambda>(data, pos, len, nb, h). nat (int (length data) - pos))") (auto simp: read_byte_def split: if_splits)

declare ext_length.simps [simp del]

text \<open>The remaining length (\<open>-1\<close> on failure), the new position and the size of the header.\<close>

definition skip_extension :: "int list \<Rightarrow> int \<Rightarrow> int \<Rightarrow> opus_error + int \<times> int \<times> int" where
  "skip_extension data pos len =
    (if len = 0 then Inr (0, pos, 0)
     else and_then (read_byte data pos) (\<lambda>b.
       let eid = drop_bit 1 b; L = b AND 1
       in if eid = 0 \<and> L = 1 then
            if len < 1 then Inr (- 1, pos, 1) else Inr (len - 1, pos + 1, 1)
          else if eid > 0 \<and> eid < 32 then
            if len < 1 + L then Inr (- 1, pos, 0) else Inr (len - (1 + L), pos + (1 + L), 1)
          else if L = 0 then Inr (0, pos + len, 1)
          else and_then (ext_length data pos len 0 1) (\<lambda>r. case r of
              None \<Rightarrow> Inr (- 1, pos, 1)
            | Some (pos, len, nb, header_size) \<Rightarrow>
                if nb \<le> len - 1 then Inr (len - 1 - nb, pos + 1 + nb, header_size) else Inr (- 1, pos + 1, header_size))))"

lemma ext_length_decr:
  "ext_length data pos len nb h = Inr (Some (pos', len', nb', h')) \<Longrightarrow> 0 < len \<Longrightarrow> 0 < len' \<and> len' < len \<and> nb \<le> nb'"
proof (induction data pos len nb h rule: ext_length.induct)
  case (1 data pos len nb h)
  show ?case
  proof (cases "len - 1 = 0")
    case False
    then obtain b where b: "read_byte data (pos + 1) = Inr b"
      using "1.prems"(1) by (subst (asm) ext_length.simps) (auto simp: and_then_Inr)
    show ?thesis
    proof (cases "b = 255")
      case True
      then show ?thesis using "1.IH" [OF False b True] "1.prems" False b by (subst (asm) (2) ext_length.simps) auto
    next
      case nb: False
      then show ?thesis using "1.prems" False b read_byte_is_byte [OF b] by (subst (asm) ext_length.simps) (auto simp: is_byte_def)
    qed
  qed (use "1.prems" in \<open>simp add: ext_length.simps\<close>)
qed

lemma skip_extension_decr:
  assumes "skip_extension data pos len = Inr (len', pos', h)" "0 < len"
  shows "len' < len"
proof -
  obtain b where b: "read_byte data pos = Inr b" using assms by (auto simp: skip_extension_def and_then_Inr)
  have L: "b AND 1 = 0 \<or> b AND 1 = 1" by (auto simp: bitarith)
  have "len1 < len" "0 \<le> nb" if "ext_length data pos len 0 1 = Inr (Some (pos1, len1, nb, h1))" for pos1 len1 nb h1
    using ext_length_decr [OF that assms(2)] by auto
  then show ?thesis using assms b L
    by (fastforce simp: skip_extension_def Let_def and_then_Inr split: if_splits option.splits)
qed

function extensions_count_loop :: "int list \<Rightarrow> int \<Rightarrow> int \<Rightarrow> int \<Rightarrow> opus_error + int" where
  "extensions_count_loop data pos len cnt =
    (if len > 0 then
       and_then (read_byte data pos) (\<lambda>b.
       and_then (skip_extension data pos len) (\<lambda>(len, pos, header_size).
         if len < 0 then Inl OPUS_INVALID_PACKET
         else extensions_count_loop data pos len (if drop_bit 1 b > 1 then cnt + 1 else cnt)))
     else Inr cnt)"
  by pat_completeness auto
termination
  by (relation "measure (\<lambda>(data, pos, len, cnt). nat len)") (auto dest: skip_extension_decr)

declare extensions_count_loop.simps [simp del]

definition opus_packet_extensions_count :: "int list \<Rightarrow> int \<Rightarrow> opus_error + int" where
  "opus_packet_extensions_count data len = extensions_count_loop data 0 len 0"

text \<open>The frame after a byte \<open>b\<close> that starts an extension: number 1 is the separator.\<close>

definition ext_next_frame :: "int list \<Rightarrow> int \<Rightarrow> int \<Rightarrow> int \<Rightarrow> int \<Rightarrow> opus_error + int" where
  "ext_next_frame data pos len curr_frame b =
    (if drop_bit 1 b = 1 then
       if b AND 1 = 0 then Inr (curr_frame + 1)
       else if len \<ge> 2 then and_then (read_byte data (pos + 1)) (\<lambda>d. Inr (curr_frame + d))
       else Inr curr_frame
     else Inr curr_frame)"

text \<open>
  The extensions found so far are \<open>rev acc\<close>; \<open>n\<close> is the capacity of the output array.  The result
  is the error, if any, with the extensions stored.
\<close>

function extensions_parse_loop :: "int list \<Rightarrow> int \<Rightarrow> int \<Rightarrow> int \<Rightarrow> nat \<Rightarrow> opus_extension_data list
    \<Rightarrow> opus_error option \<times> opus_extension_data list" where
  "extensions_parse_loop data pos len curr_frame n acc =
    (if len > 0 then
       (case read_byte data pos of Inl e \<Rightarrow> (Some e, rev acc) | Inr b \<Rightarrow>
       (let eid = drop_bit 1 b in
       (case ext_next_frame data pos len curr_frame b of Inl e \<Rightarrow> (Some e, rev acc) | Inr frame \<Rightarrow>
       if eid = 1 \<and> frame \<ge> 48 then (Some OPUS_INVALID_PACKET, rev acc)
       else
       (case skip_extension data pos len of Inl e \<Rightarrow> (Some e, rev acc) | Inr (len', pos', header_size) \<Rightarrow>
         if len' < 0 then (Some OPUS_INVALID_PACKET, rev acc)
         else if eid > 1 then
           if length acc = n then (Some OPUS_BUFFER_TOO_SMALL, rev acc)
           else
             let elen = pos' - pos - header_size
             in extensions_parse_loop data pos' len' frame n
                  (\<lparr>ext_id = eid, ext_frame = frame, ext_data = take (nat elen) (drop (nat (pos + header_size)) data), ext_len = elen\<rparr> # acc)
         else extensions_parse_loop data pos' len' frame n acc))))
     else (None, rev acc))"
  by pat_completeness auto
termination
  by (relation "measure (\<lambda>(data, pos, len, frame, n, acc). nat len)") (auto dest: skip_extension_decr)

declare extensions_parse_loop.simps [simp del]

definition opus_packet_extensions_parse :: "int list \<Rightarrow> int \<Rightarrow> nat \<Rightarrow> opus_error option \<times> opus_extension_data list" where
  "opus_packet_extensions_parse data len n = extensions_parse_loop data 0 len 0 n []"

text \<open>The separator before the first extension of a frame.\<close>

definition ext_separator :: "int \<Rightarrow> int \<Rightarrow> int \<Rightarrow> int \<Rightarrow> opus_error + int list" where
  "ext_separator len pos curr_frame frame =
    (if frame \<noteq> curr_frame then
       let diff = frame - curr_frame
       in if len - pos < 2 then Inl OPUS_BUFFER_TOO_SMALL
          else if diff = 1 then Inr [2] else Inr [3, u8 diff]
     else Inr [])"

definition ext_payload :: "int \<Rightarrow> int \<Rightarrow> bool \<Rightarrow> opus_extension_data \<Rightarrow> opus_error + int list" where
  "ext_payload len pos is_last e =
    (if ext_id e < 32 then
       if ext_len e < 0 \<or> ext_len e > 1 then Inl OPUS_BAD_ARG
       else if len - pos < ext_len e + 1 then Inl OPUS_BUFFER_TOO_SMALL
       else Inr (u8 (push_bit 1 (ext_id e) + ext_len e) # (if ext_len e > 0 then [ext_data e ! 0] else []))
     else if ext_len e < 0 then Inl OPUS_BAD_ARG
     else
       let length_bytes = (if is_last then 0 else 1 + ext_len e div 255)
       in if len - pos < 1 + length_bytes + ext_len e then Inl OPUS_BUFFER_TOO_SMALL
          else Inr (u8 (push_bit 1 (ext_id e) + cbool (\<not> is_last))
            # (if is_last then [] else replicate (nat (ext_len e div 255)) 255 @ [ext_len e mod 255])
            @ take (nat (ext_len e)) (ext_data e)))"

text \<open>
  One extension of frame \<open>frame\<close> after the bytes \<open>out\<close>.  The state is the output, the frame of the
  last separator and the number of extensions written.
\<close>

definition generate_one :: "int \<Rightarrow> int \<Rightarrow> int \<Rightarrow> opus_extension_data \<Rightarrow> int list \<times> int \<times> int \<Rightarrow> opus_error + int list \<times> int \<times> int" where
  "generate_one len nb_extensions frame e = (\<lambda>(out, curr_frame, written).
    if ext_frame e = frame then
      and_then (ext_separator len (int (length out)) curr_frame frame) (\<lambda>sep.
      and_then (ext_payload len (int (length (out @ sep))) (written = nb_extensions - 1) e) (\<lambda>bs.
        Inr (out @ sep @ bs, frame, written + 1)))
    else Inr (out, curr_frame, written))"

fun generate_list :: "('a \<Rightarrow> 's \<Rightarrow> 'e + 's) \<Rightarrow> 'a list \<Rightarrow> 's \<Rightarrow> 'e + 's" where
  "generate_list f [] s = Inr s"
| "generate_list f (x # xs) s = and_then (f x s) (generate_list f xs)"

definition opus_packet_extensions_generate :: "int \<Rightarrow> opus_extension_data list \<Rightarrow> bool \<Rightarrow> opus_error + int list" where
  "opus_packet_extensions_generate len exts pad =
    (let nb_extensions = int (length exts);
         max_frame = fold (\<lambda>e m. max m (ext_frame e)) exts 0
     in if list_ex (\<lambda>e. ext_id e < 2 \<or> ext_id e > 127) exts then Inl OPUS_BAD_ARG
        else if max_frame \<ge> 48 then Inl OPUS_BAD_ARG
        else and_then (generate_list (\<lambda>frame. generate_list (generate_one len nb_extensions frame) exts) (map int [0..<nat (max_frame + 1)]) ([], 0, 0))
          (\<lambda>(out, curr_frame, written).
            let pos = int (length out)
            in Inr (if pad \<and> pos < len then replicate (nat (len - pos)) 1 @ out else out)))"

section \<open>Arbitrary padding\<close>

lemma ext_length_ok:
  assumes "bytes data" "0 \<le> pos" "0 < len" "pos + len \<le> int (length data)" "0 \<le> h"
  shows "\<exists>r. ext_length data pos len nb h = Inr r \<and>
    (\<forall>pos' len' nb' h'. r = Some (pos', len', nb', h') \<longrightarrow> pos' + len' = pos + len \<and> pos < pos' \<and> 0 < len' \<and> nb \<le> nb' \<and> pos' - pos = h' - h)"
  using assms
proof (induction data pos len nb h rule: ext_length.induct)
  case (1 data pos len nb h)
  show ?case
  proof (cases "len - 1 = 0")
    case False
    then obtain b where b: "read_byte data (pos + 1) = Inr b" "is_byte b" using read_byte_ok [of data "pos + 1"] "1.prems" by auto
    show ?thesis
    proof (cases "b = 255")
      case True
      obtain r where "ext_length data (pos + 1) (len - 1) (nb + b) (h + 1) = Inr r"
        "\<forall>pos' len' nb' h'. r = Some (pos', len', nb', h') \<longrightarrow> pos' + len' = pos + 1 + (len - 1) \<and> pos + 1 < pos' \<and> 0 < len' \<and> nb + b \<le> nb' \<and> pos' - (pos + 1) = h' - (h + 1)"
        using "1.IH" [OF False b(1) True] "1.prems" False by auto
      then show ?thesis using False b True by (subst ext_length.simps) auto
    next
      case nb: False
      then show ?thesis using False b "1.prems" by (subst ext_length.simps) (auto simp: is_byte_def)
    qed
  qed (simp add: ext_length.simps)
qed

text \<open>Skipping one extension stays inside the data.\<close>

lemma skip_extension_ok:
  assumes d: "bytes data" "0 \<le> pos" "0 < len" "pos + len \<le> int (length data)"
  shows "\<exists>len' pos' h. skip_extension data pos len = Inr (len', pos', h) \<and>
    (0 \<le> len' \<longrightarrow> pos' + len' = pos + len \<and> len' < len \<and> pos + h \<le> pos' \<and> 1 \<le> h)"
proof -
  obtain b where b: "read_byte data pos = Inr b" "is_byte b" using read_byte_ok [of data pos] d by auto
  obtain r where r: "ext_length data pos len 0 1 = Inr r"
    "\<forall>pos' len' nb' h'. r = Some (pos', len', nb', h') \<longrightarrow> pos' + len' = pos + len \<and> pos < pos' \<and> 0 < len' \<and> 0 \<le> nb' \<and> pos' - pos = h' - 1"
    using ext_length_ok [OF d, of 1 0] by auto
  have L: "b AND 1 = 0 \<or> b AND 1 = 1" by (auto simp: bitarith)
  show ?thesis using d b r L by (fastforce simp: skip_extension_def Let_def split: option.split)
qed

definition extension_ok :: "opus_extension_data \<Rightarrow> bool" where
  "extension_ok e \<longleftrightarrow> 2 \<le> ext_id e \<and> ext_id e \<le> 127 \<and> 0 \<le> ext_frame e \<and> ext_frame e < 48 \<and>
    ext_len e = int (length (ext_data e)) \<and> bytes (ext_data e) \<and> (ext_id e < 32 \<longrightarrow> ext_len e \<le> 1)"

lemma skip_short:
  assumes "read_byte data pos = Inr b" "0 < drop_bit 1 b" "drop_bit 1 b < 32" "skip_extension data pos len = Inr (len', pos', h)" "0 < len" "0 \<le> len'"
  shows "pos' - pos - h \<le> 1"
proof -
  have "b AND 1 = 0 \<or> b AND 1 = 1" by (auto simp: bitarith)
  then show ?thesis using assms by (auto simp: skip_extension_def Let_def split: if_splits)
qed

lemma ext_next_frame_ok:
  assumes "bytes data" "0 \<le> pos" "pos + len \<le> int (length data)" "0 \<le> frame"
  shows "\<exists>f. ext_next_frame data pos len frame b = Inr f \<and> 0 \<le> f \<and> (drop_bit 1 b \<noteq> 1 \<longrightarrow> f = frame)"
proof (cases "2 \<le> len")
  case True
  then obtain d where "read_byte data (pos + 1) = Inr d" "is_byte d" using read_byte_ok [of data "pos + 1"] assms by auto
  then show ?thesis using assms by (auto simp: ext_next_frame_def is_byte_def)
qed (use assms in \<open>auto simp: ext_next_frame_def\<close>)

text \<open>One round of the parser.\<close>

lemma parse_loop_step:
  assumes "len > 0" "read_byte data pos = Inr b" "ext_next_frame data pos len frame b = Inr f"
  shows "extensions_parse_loop data pos len frame n acc =
    (if drop_bit 1 b = 1 \<and> f \<ge> 48 then (Some OPUS_INVALID_PACKET, rev acc)
     else case skip_extension data pos len of Inl e \<Rightarrow> (Some e, rev acc) | Inr (len', pos', header_size) \<Rightarrow>
       if len' < 0 then (Some OPUS_INVALID_PACKET, rev acc)
       else if drop_bit 1 b > 1 then
         if length acc = n then (Some OPUS_BUFFER_TOO_SMALL, rev acc)
         else extensions_parse_loop data pos' len' f n
           (\<lparr>ext_id = drop_bit 1 b, ext_frame = f,
             ext_data = take (nat (pos' - pos - header_size)) (drop (nat (pos + header_size)) data), ext_len = pos' - pos - header_size\<rparr> # acc)
       else extensions_parse_loop data pos' len' f n acc)"
  by (subst extensions_parse_loop.simps) (simp only: assms if_True sum.case Let_def)

lemma parse_loop_ok:
  assumes "bytes data" "0 \<le> pos" "pos + len \<le> int (length data)" "0 \<le> frame" "frame < 48" "list_all extension_ok acc" "length acc \<le> n"
  shows "case extensions_parse_loop data pos len frame n acc of (err, xs) \<Rightarrow>
    err \<in> {None, Some OPUS_INVALID_PACKET, Some OPUS_BUFFER_TOO_SMALL} \<and> list_all extension_ok xs \<and> length xs \<le> n"
  using assms
proof (induction data pos len frame n acc rule: extensions_parse_loop.induct)
  case (1 data pos len frame n acc)
  show ?case
  proof (cases "len > 0")
    case True
    then obtain b where b: "read_byte data pos = Inr b" "is_byte b" using read_byte_ok [of data pos] "1.prems" by auto
    define eid where "eid = drop_bit 1 b"
    have eid: "0 \<le> eid" "eid \<le> 127" using b(2) by (auto simp: eid_def is_byte_def shift_arith)
    obtain f where f: "ext_next_frame data pos len frame b = Inr f" "0 \<le> f" "eid \<noteq> 1 \<longrightarrow> f = frame"
      using ext_next_frame_ok "1.prems" unfolding eid_def by blast
    note step = parse_loop_step [OF True b(1) f(1), of n acc, folded eid_def]
    obtain len' pos' h where s: "skip_extension data pos len = Inr (len', pos', h)"
      "0 \<le> len' \<longrightarrow> pos' + len' = pos + len \<and> len' < len \<and> pos + h \<le> pos' \<and> 1 \<le> h"
      using skip_extension_ok [OF "1.prems"(1,2) True "1.prems"(3)] by auto
    show ?thesis
    proof (cases "eid = 1 \<and> f \<ge> 48 \<or> len' < 0")
      case bad: True
      then show ?thesis using "1.prems" by (auto simp: step s(1) list_all_rev)
    next
      case False
      then have ok: "\<not> (eid = 1 \<and> f \<ge> 48)" and l': "0 \<le> len'" by auto
      then have fl: "f < 48" using f(3) "1.prems"(5) by auto
      define e where "e = \<lparr>ext_id = eid, ext_frame = f, ext_data = take (nat (pos' - pos - h)) (drop (nat (pos + h)) data), ext_len = pos' - pos - h\<rparr>"
      note ih = "1.IH" [OF True b(1) eid_def f(1) ok s(1) refl refl]
      show ?thesis
      proof (cases "eid > 1")
        case big: True
        have "extension_ok e"
          using big eid f(2) fl s(2) l' "1.prems"(1,2,3) skip_short [OF b(1) _ _ s(1) True l', folded eid_def]
          by (auto simp: e_def extension_ok_def)
        then show ?thesis
          using ih(1) [OF _ big _ refl, folded e_def] ok s l' "1.prems" fl f(2) big
          by (auto simp: step list_all_rev simp flip: e_def)
      next
        case small: False
        then show ?thesis using ih(2) ok s l' "1.prems" fl f(2) by (auto simp: step list_all_rev)
      qed
    qed
  next
    case False
    then show ?thesis using "1.prems" by (subst extensions_parse_loop.simps) (simp add: list_all_rev)
  qed
qed

text \<open>Counting agrees with a parse that succeeds.\<close>

lemma count_parse_loop:
  "extensions_parse_loop data pos len frame n acc = (None, xs) \<Longrightarrow> \<exists>ys. xs = rev acc @ ys \<and>
    extensions_count_loop data pos len c = Inr (c + int (length ys))"
proof (induction data pos len frame n acc arbitrary: c rule: extensions_parse_loop.induct)
  case (1 data pos len frame n acc)
  show ?case
  proof (cases "len > 0")
    case True
    obtain b where b: "read_byte data pos = Inr b"
      using "1.prems" True by (subst (asm) extensions_parse_loop.simps) (auto split: sum.splits)
    obtain f where f: "ext_next_frame data pos len frame b = Inr f"
      using "1.prems" True b by (subst (asm) extensions_parse_loop.simps) (auto simp: Let_def split: sum.splits)
    note step = parse_loop_step [OF True b f, of n acc]
    have ok: "\<not> (drop_bit 1 b = 1 \<and> f \<ge> 48)" using "1.prems" unfolding step by (auto simp del: One_nat_def)
    obtain len' pos' h where s: "skip_extension data pos len = Inr (len', pos', h)"
      using "1.prems" ok unfolding step by (auto simp del: One_nat_def split: sum.splits if_splits)
    have l': "\<not> len' < 0" using "1.prems" ok s unfolding step by (auto simp del: One_nat_def)
    note ih = "1.IH" [OF True b refl f ok s refl refl l']
    have c: "extensions_count_loop data pos len c = extensions_count_loop data pos' len' (if drop_bit 1 b > 1 then c + 1 else c)"
      using True b s l' by (subst extensions_count_loop.simps) simp
    show ?thesis
    proof (cases "drop_bit 1 b > 1")
      case big: True
      have n: "length acc \<noteq> n" using "1.prems" ok s l' big unfolding step by (auto simp del: One_nat_def)
      obtain ys where "xs = rev acc @ \<lparr>ext_id = drop_bit 1 b, ext_frame = f,
          ext_data = take (nat (pos' - pos - h)) (drop (nat (pos + h)) data), ext_len = pos' - pos - h\<rparr> # ys"
        "extensions_count_loop data pos' len' (c + 1) = Inr (c + 1 + int (length ys))"
        using ih(1) [OF big n refl, of "c + 1"] "1.prems" ok s l' big n unfolding step by (auto simp del: One_nat_def)
      then show ?thesis using big unfolding c by (simp del: One_nat_def)
    next
      case small: False
      then show ?thesis using ih(2) [OF small, of c] "1.prems" ok s l' unfolding step c by (auto simp del: One_nat_def)
    qed
  next
    case False
    then show ?thesis using "1.prems"
      by (subst (asm) extensions_parse_loop.simps, subst extensions_count_loop.simps) auto
  qed
qed

section \<open>Generated padding\<close>

lemma ext_length_run:
  assumes "is_byte r" "r \<noteq> 255" "int k + 1 < len"
  shows "ext_length (pre @ replicate k 255 @ r # rest) (int (length pre) - 1) len nb h
    = Inr (Some (int (length pre) + int k, len - (int k + 1), nb + 255 * int k + r, h + int k + 1))"
  using assms(3)
proof (induction k arbitrary: pre len nb h)
  case 0
  then show ?case using assms(1,2) by (subst ext_length.simps) simp
next
  case (Suc k)
  have "ext_length (pre @ replicate (Suc k) 255 @ r # rest) (int (length pre) - 1) len nb h
      = ext_length ((pre @ [255]) @ replicate k 255 @ r # rest) (int (length (pre @ [255])) - 1) (len - 1) (nb + 255) (h + 1)"
    using Suc.prems by (subst ext_length.simps) (simp add: is_byte_def)
  also have "\<dots> = Inr (Some (int (length (pre @ [255])) + int k, len - 1 - (int k + 1), nb + 255 + 255 * int k + r, h + 1 + int k + 1))"
    using Suc.prems by (intro Suc.IH) simp
  finally show ?case by (simp add: algebra_simps)
qed

lemma byte_fields:
  assumes "2 \<le> i" "i \<le> 127" "L \<in> {0, 1 :: int}"
  shows "u8 (push_bit 1 i + L) = 2 * i + L" "is_byte (2 * i + L)" "drop_bit 1 (2 * i + L) = i" "(2 * i + L) AND 1 = L"
  using assms by (auto simp: shift_arith bitarith is_byte_def)

text \<open>Skipping an extension as it is written.\<close>

lemma skip_payload:
  assumes e: "extension_ok e" and p: "ext_payload len pos is_last e = Inr bs" and r: "is_last \<longrightarrow> rest = []"
  shows "\<exists>b bs' h. bs = b # bs' \<and> is_byte b \<and> drop_bit 1 b = ext_id e \<and>
    skip_extension (pre @ bs @ rest) (int (length pre)) (int (length (bs @ rest))) = Inr (int (length rest), int (length pre) + int (length bs), h) \<and>
    int (length bs) - h = ext_len e \<and> 0 \<le> h \<and> drop (nat h) bs = ext_data e"
proof -
  let ?i = "ext_id e" and ?d = "ext_data e" and ?n = "ext_len e"
  have i: "2 \<le> ?i" "?i \<le> 127" "?n = int (length ?d)" using e by (auto simp: extension_ok_def)
  consider (short) "?i < 32" | (long) "32 \<le> ?i" "is_last" | (mid) "32 \<le> ?i" "\<not> is_last" by fastforce
  then show ?thesis
  proof cases
    case short
    then have "?n \<le> 1" "0 \<le> ?n" using e by (auto simp: extension_ok_def)
    then have n: "?n = 0 \<or> ?n = 1" by linarith
    then have d: "?d = (if ?n = 1 then [?d ! 0] else [])" using i(3) by (cases ?d) auto
    have bs: "bs = (2 * ?i + ?n) # ?d"
      using p short n d i byte_fields [of ?i ?n] by (auto simp: ext_payload_def split: if_splits)
    have "skip_extension (pre @ bs @ rest) (int (length pre)) (int (length (bs @ rest))) = Inr (int (length rest), int (length pre) + int (length bs), 1)"
      using byte_fields [OF i(1,2), of ?n] n i short by (auto simp: bs skip_extension_def Let_def)
    then show ?thesis using byte_fields [OF i(1,2), of ?n] n i(3) by (auto simp: bs intro!: exI [of _ 1])
  next
    case long
    have bs: "bs = (2 * ?i) # ?d" "rest = []"
      using p long i byte_fields [of ?i 0] r by (auto simp: ext_payload_def Let_def split: if_splits)
    have "skip_extension (pre @ bs @ rest) (int (length pre)) (int (length (bs @ rest))) = Inr (int (length rest), int (length pre) + int (length bs), 1)"
      using byte_fields [OF i(1,2), of 0] long i by (auto simp: bs skip_extension_def Let_def)
    then show ?thesis using byte_fields [OF i(1,2), of 0] i(3) by (auto simp: bs intro!: exI [of _ 1])
  next
    case mid
    define k where "k = nat (?n div 255)"
    define m where "m = ?n mod 255"
    have m: "is_byte m" "m \<noteq> 255" "255 * int k + m = ?n" using i(3) by (auto simp: m_def k_def is_byte_def pos_mod_bound less_imp_le)
    have bs: "bs = (2 * ?i + 1) # replicate k 255 @ m # ?d"
      using p mid i byte_fields [of ?i 1] by (auto simp: ext_payload_def Let_def k_def m_def split: if_splits)
    have "ext_length (pre @ bs @ rest) (int (length pre)) (int (length (bs @ rest))) 0 1
      = Inr (Some (int (length pre) + 1 + int k, int (length (bs @ rest)) - (int k + 1), ?n, 1 + int k + 1))"
      using ext_length_run [OF m(1,2), of k "int (length (bs @ rest))" "pre @ [2 * ?i + 1]" "?d @ rest" 0 1] m(3) by (simp add: bs)
    then have "skip_extension (pre @ bs @ rest) (int (length pre)) (int (length (bs @ rest))) = Inr (int (length rest), int (length pre) + int (length bs), int k + 2)"
      using byte_fields [OF i(1,2), of 1] mid i by (auto simp: bs skip_extension_def Let_def)
    then show ?thesis using byte_fields [OF i(1,2), of 1] i(3) by (auto simp: bs nat_add_distrib intro!: exI [of _ "int k + 2"])
  qed
qed

text \<open>Parsing one extension as it is written.\<close>

lemma parse_payload:
  assumes e: "extension_ok e" and p: "ext_payload len pos is_last e = Inr bs" and r: "is_last \<longrightarrow> rest = []" and n: "length acc < n"
  shows "extensions_parse_loop (pre @ bs @ rest) (int (length pre)) (int (length (bs @ rest))) (ext_frame e) n acc
    = extensions_parse_loop (pre @ bs @ rest) (int (length (pre @ bs))) (int (length rest)) (ext_frame e) n (e # acc)"
proof -
  obtain b bs' h where b: "bs = b # bs'" "is_byte b" "drop_bit 1 b = ext_id e"
    and s: "skip_extension (pre @ bs @ rest) (int (length pre)) (int (length (bs @ rest))) = Inr (int (length rest), int (length pre) + int (length bs), h)"
    and h: "int (length bs) - h = ext_len e" "0 \<le> h" "drop (nat h) bs = ext_data e"
    using skip_payload [OF e p r] by blast
  have i: "1 < ext_id e" "ext_len e = int (length (ext_data e))" using e by (auto simp: extension_ok_def)
  have rb: "read_byte (pre @ bs @ rest) (int (length pre)) = Inr b" using b by simp
  have nf: "ext_next_frame (pre @ bs @ rest) (int (length pre)) (int (length (bs @ rest))) (ext_frame e) b = Inr (ext_frame e)"
    unfolding ext_next_frame_def b(3) using i by simp
  have "nat h \<le> length bs" "nat (int (length pre) + h) = length pre + nat h" using h i by auto
  then have "take (nat (ext_len e)) (drop (nat (int (length pre) + h)) (pre @ bs @ rest)) = ext_data e" using h(3) i(2) by simp
  moreover have "int (length pre) + int (length bs) - int (length pre) - h = ext_len e" using h(1) by simp
  moreover have "0 < int (length (bs @ rest))" using b(1) by simp
  ultimately have "extensions_parse_loop (pre @ bs @ rest) (int (length pre)) (int (length (bs @ rest))) (ext_frame e) n acc
    = extensions_parse_loop (pre @ bs @ rest) (int (length (pre @ bs))) (int (length rest)) (ext_frame e) n
      (\<lparr>ext_id = ext_id e, ext_frame = ext_frame e, ext_data = ext_data e, ext_len = ext_len e\<rparr> # acc)"
    using i(1) n parse_loop_step [OF _ rb nf, of n acc] unfolding b(3) s by (simp del: drop_append take_append)
  moreover have rec: "\<lparr>ext_id = ext_id e, ext_frame = ext_frame e, ext_data = ext_data e, ext_len = ext_len e\<rparr> = e" by simp
  ultimately show ?thesis unfolding rec by simp
qed

lemma parse_separator:
  assumes s: "ext_separator len pos cf frame = Inr sep" and f: "0 \<le> cf" "cf \<le> frame" "frame < 48"
  shows "extensions_parse_loop (pre @ sep @ rest) (int (length pre)) (int (length (sep @ rest))) cf n acc
    = extensions_parse_loop (pre @ sep @ rest) (int (length (pre @ sep))) (int (length rest)) frame n acc"
proof -
  consider "sep = []" "frame = cf" | "sep = [2]" "frame = cf + 1" | "sep = [3, frame - cf]" "is_byte (frame - cf)"
    using s f by (auto simp: ext_separator_def Let_def is_byte_def split: if_splits)
  then show ?thesis
  proof cases
    case 2
    have rb: "read_byte (pre @ 2 # rest) (int (length pre)) = Inr 2" by (simp add: is_byte_def)
    have "ext_next_frame (pre @ 2 # rest) (int (length pre)) (1 + int (length rest)) cf 2 = Inr frame"
      using 2 by (simp add: ext_next_frame_def)
    from parse_loop_step [OF _ rb this, of n acc] show ?thesis
      using 2 f rb by (simp add: skip_extension_def Let_def add.commute)
  next
    case 3
    have rb: "read_byte (pre @ 3 # (frame - cf) # rest) (int (length pre)) = Inr 3" by (simp add: is_byte_def)
    have "read_byte (pre @ 3 # (frame - cf) # rest) (int (length pre) + 1) = Inr (frame - cf)"
      using read_byte_append [OF 3(2), of "pre @ [3]" rest] by (simp add: add.commute)
    then have "ext_next_frame (pre @ 3 # (frame - cf) # rest) (int (length pre)) (2 + int (length rest)) cf 3 = Inr frame"
      by (simp add: ext_next_frame_def)
    from parse_loop_step [OF _ rb this, of n acc] show ?thesis
      using 3 f rb by (simp add: skip_extension_def Let_def add.commute)
  qed simp
qed

lemma payload_props:
  assumes "extension_ok e" "ext_payload len pos is_last e = Inr bs"
  shows "bytes bs" "bs \<noteq> []" "pos + int (length bs) \<le> len"
    "pos + int (length bs) \<le> len' \<Longrightarrow> ext_payload len' pos is_last e = Inr bs"
proof -
  let ?d = "ext_data e"
  have b: "?d \<noteq> [] \<Longrightarrow> is_byte (?d ! 0)" using assms(1) bytes_nth [of ?d 0] by (auto simp: extension_ok_def)
  have l: "ext_id e < 32 \<Longrightarrow> length ?d = 0 \<or> length ?d = 1" using assms(1) by (cases "length ?d") (auto simp: extension_ok_def)
  have m: "is_byte (ext_len e mod 255)" by (simp add: is_byte_def pos_mod_bound less_imp_le)
  show "bytes bs" using assms b m
    by (auto simp: ext_payload_def extension_ok_def Let_def is_byte_def split: if_splits)
  show "bs \<noteq> []" "pos + int (length bs) \<le> len" "pos + int (length bs) \<le> len' \<Longrightarrow> ext_payload len' pos is_last e = Inr bs"
    using assms l by (auto simp: ext_payload_def extension_ok_def Let_def split: if_splits)
qed

text \<open>Extensions in the order they are written, each with the separator it needs.\<close>

abbreviation emit :: "int \<Rightarrow> int \<Rightarrow> opus_extension_data \<Rightarrow> int list \<times> int \<times> int \<Rightarrow> opus_error + int list \<times> int \<times> int" where
  "emit len nb \<equiv> \<lambda>e. generate_one len nb (ext_frame e) e"

lemma emitE:
  assumes "emit len nb e (out, cf, w) = Inr s"
  obtains sep bs where "ext_separator len (int (length out)) cf (ext_frame e) = Inr sep"
    "ext_payload len (int (length (out @ sep))) (w = nb - 1) e = Inr bs" "s = (out @ sep @ bs, ext_frame e, w + 1)"
  using assms by (auto simp: generate_one_def and_then_Inr)

lemma separator_props:
  assumes "ext_separator len pos cf frame = Inr sep" "cf \<le> frame" "0 \<le> cf" "frame < 48"
  shows "bytes sep" "pos + int (length sep) + 1 \<le> len' \<Longrightarrow> ext_separator len' pos cf frame = Inr sep"
  using assms by (auto simp: ext_separator_def Let_def is_byte_def split: if_splits)

lemma emit_all:
  assumes "generate_list (emit len nb) es (out, cf, w) = Inr (out', cf', w')" "w + int (length es) = nb"
    "list_all extension_ok es" "sorted (cf # map ext_frame es)" "0 \<le> cf" "int (length out) \<le> len"
  shows "\<exists>suf. out' = out @ suf \<and> bytes suf \<and> int (length out') \<le> len \<and>
    (\<forall>len'. int (length out') \<le> len' \<longrightarrow> generate_list (emit len' nb) es (out, cf, w) = Inr (out', cf', w')) \<and>
    (\<forall>pre n acc. length acc + length es \<le> n \<longrightarrow>
      extensions_parse_loop (pre @ suf) (int (length pre)) (int (length suf)) cf n acc = (None, rev acc @ es))"
  using assms
proof (induction es arbitrary: out cf w)
  case Nil
  then show ?case by (simp add: extensions_parse_loop.simps)
next
  case (Cons e es)
  obtain s where s: "emit len nb e (out, cf, w) = Inr s" "generate_list (emit len nb) es s = Inr (out', cf', w')"
    using Cons.prems(1) by (auto simp: and_then_Inr)
  obtain sep bs where sep: "ext_separator len (int (length out)) cf (ext_frame e) = Inr sep"
    and bs: "ext_payload len (int (length (out @ sep))) (w = nb - 1) e = Inr bs" and st: "s = (out @ sep @ bs, ext_frame e, w + 1)"
    using emitE [OF s(1)] by blast
  have e: "extension_ok e" "list_all extension_ok es" using Cons.prems(3) by simp_all
  then have f: "cf \<le> ext_frame e" "0 \<le> ext_frame e" "ext_frame e < 48" using Cons.prems(4) by (simp_all add: extension_ok_def)
  note b = payload_props [OF e(1) bs] and sp = separator_props [OF sep f(1) Cons.prems(5) f(3)]
  have "\<exists>suf. out' = (out @ sep @ bs) @ suf \<and> bytes suf \<and> int (length out') \<le> len \<and>
    (\<forall>len'. int (length out') \<le> len' \<longrightarrow> generate_list (emit len' nb) es (out @ sep @ bs, ext_frame e, w + 1) = Inr (out', cf', w')) \<and>
    (\<forall>pre n acc. length acc + length es \<le> n \<longrightarrow>
      extensions_parse_loop (pre @ suf) (int (length pre)) (int (length suf)) (ext_frame e) n acc = (None, rev acc @ es))"
    using s(2) st Cons.prems b(3) e f by (intro Cons.IH) auto
  then obtain suf where suf: "out' = (out @ sep @ bs) @ suf" "bytes suf" "int (length out') \<le> len"
    and ren: "\<And>len'. int (length out') \<le> len' \<Longrightarrow> generate_list (emit len' nb) es (out @ sep @ bs, ext_frame e, w + 1) = Inr (out', cf', w')"
    and prs: "\<And>pre n acc. length acc + length es \<le> n \<Longrightarrow>
      extensions_parse_loop (pre @ suf) (int (length pre)) (int (length suf)) (ext_frame e) n acc = (None, rev acc @ es)"
    by blast
  have last: "w = nb - 1 \<longrightarrow> suf = []" using Cons.prems(2) suf(1) s(2) st by auto
  have g: "generate_list (emit len' nb) (e # es) (out, cf, w) = Inr (out', cf', w')" if "int (length out') \<le> len'" for len'
  proof -
    have "1 \<le> int (length bs)" using b(2) by (cases bs) auto
    then have "int (length out) + int (length sep) + 1 \<le> len'" "int (length (out @ sep)) + int (length bs) \<le> len'"
      using that suf(1) by auto
    then show ?thesis using sp(2) b(4) ren [OF that] by (simp add: generate_one_def)
  qed
  have p: "extensions_parse_loop (pre @ sep @ bs @ suf) (int (length pre)) (int (length (sep @ bs @ suf))) cf n acc = (None, rev acc @ e # es)"
    if n: "length acc + length (e # es) \<le> n" for pre n acc
  proof -
    have "extensions_parse_loop (pre @ sep @ bs @ suf) (int (length pre)) (int (length (sep @ bs @ suf))) cf n acc
        = extensions_parse_loop ((pre @ sep) @ bs @ suf) (int (length (pre @ sep))) (int (length (bs @ suf))) (ext_frame e) n acc"
      using parse_separator [OF sep Cons.prems(5) f(1,3), of pre "bs @ suf" n acc] by simp
    also have "\<dots> = extensions_parse_loop ((pre @ sep @ bs) @ suf) (int (length (pre @ sep @ bs))) (int (length suf)) (ext_frame e) n (e # acc)"
      using parse_payload [OF e(1) bs last, of acc n "pre @ sep"] n by simp
    also have "\<dots> = (None, rev (e # acc) @ es)" using n by (intro prs) simp
    finally show ?thesis by simp
  qed
  show ?case using suf b(1) sp(1) g p by (intro exI [of _ "sep @ bs @ suf"]) simp
qed

section \<open>The order of the extensions\<close>

definition by_frame :: "int list \<Rightarrow> opus_extension_data list \<Rightarrow> opus_extension_data list" where
  "by_frame fs exts = concat (map (\<lambda>f. filter (\<lambda>e. ext_frame e = f) exts) fs)"

lemma generate_list_append: "generate_list f (xs @ ys) s = and_then (generate_list f xs s) (generate_list f ys)"
proof (induction xs arbitrary: s)
  case (Cons x xs)
  then show ?case by (cases "f x s") auto
qed simp

lemma generate_frame:
  "generate_list (generate_one len nb f) exts s = generate_list (emit len nb) (filter (\<lambda>e. ext_frame e = f) exts) s"
proof (induction exts arbitrary: s)
  case (Cons e exts)
  have "generate_one len nb f e s = Inr s" if "ext_frame e \<noteq> f" using that by (cases s) (simp add: generate_one_def)
  moreover have "generate_list (generate_one len nb f) exts = generate_list (emit len nb) (filter (\<lambda>e. ext_frame e = f) exts)"
    using Cons by (intro ext)
  ultimately show ?case by auto
qed simp

lemma generate_by_frame:
  "generate_list (\<lambda>f. generate_list (generate_one len nb f) exts) fs s = generate_list (emit len nb) (by_frame fs exts) s"
proof (induction fs arbitrary: s)
  case (Cons f fs)
  have "generate_list (\<lambda>f. generate_list (generate_one len nb f) exts) fs = generate_list (emit len nb) (by_frame fs exts)"
    using Cons by (intro ext)
  moreover have "by_frame (f # fs) exts = filter (\<lambda>e. ext_frame e = f) exts @ by_frame fs exts" by (simp add: by_frame_def)
  ultimately show ?case by (simp only: generate_list.simps generate_list_append generate_frame [of len nb f exts s])
qed (simp add: by_frame_def)

lemma by_frame_filter: "distinct fs \<Longrightarrow> filter (\<lambda>e. ext_frame e = k) (by_frame fs exts) = (if k \<in> set fs then filter (\<lambda>e. ext_frame e = k) exts else [])"
proof (induction fs)
  case (Cons f fs)
  have "filter (\<lambda>e. ext_frame e = k) (filter (\<lambda>e. ext_frame e = f) exts) = (if k = f then filter (\<lambda>e. ext_frame e = k) exts else [])"
    by (auto simp: filter_empty_conv)
  then show ?case using Cons by (auto simp: by_frame_def)
qed (simp add: by_frame_def)

lemma by_frame_mset: "distinct fs \<Longrightarrow> mset (by_frame fs exts) = mset (filter (\<lambda>e. ext_frame e \<in> set fs) exts)"
proof (induction fs)
  case (Cons f fs)
  have "mset (filter (\<lambda>e. ext_frame e \<in> set (f # fs)) exts)
      = mset (filter (\<lambda>e. ext_frame e = f) exts) + mset (filter (\<lambda>e. ext_frame e \<in> set fs) exts)"
    using Cons.prems by (induction exts) auto
  then show ?case using Cons by (simp add: by_frame_def)
qed (simp add: by_frame_def)

lemma by_frame_sorted: "sorted fs \<Longrightarrow> sorted (map ext_frame (by_frame fs exts))"
proof (induction fs)
  case (Cons f fs)
  have m: "map ext_frame (filter (\<lambda>e. ext_frame e = f) xs) = replicate (length (filter (\<lambda>e. ext_frame e = f) xs)) f" for xs
    by (induction xs) auto
  show ?case using Cons by (auto simp: by_frame_def sorted_append m)
qed (simp add: by_frame_def)

text \<open>Frame by frame, and in the given order within a frame: a stable sort.\<close>

lemma by_frame_sort:
  assumes "distinct fs" "sorted fs" "\<forall>e\<in>set exts. ext_frame e \<in> set fs"
  shows "by_frame fs exts = sort_key ext_frame exts"
proof (rule properties_for_sort_key [symmetric])
  show "mset (by_frame fs exts) = mset exts"
    using by_frame_mset [OF assms(1), of exts] assms(3) by (simp add: filter_True)
  fix e assume "e \<in> set (by_frame fs exts)"
  then have "ext_frame e \<in> set fs" by (auto simp: by_frame_def)
  then show "filter (\<lambda>x. ext_frame e = ext_frame x) (by_frame fs exts) = filter (\<lambda>x. ext_frame e = ext_frame x) exts"
    using by_frame_filter [OF assms(1), of "ext_frame e" exts] by (simp add: eq_commute [of "ext_frame e"])
qed (rule by_frame_sorted [OF assms(2)])

lemma fold_max_frame:
  "m \<le> fold (\<lambda>e m. max m (ext_frame e)) exts m" "e \<in> set exts \<Longrightarrow> ext_frame e \<le> fold (\<lambda>e m. max m (ext_frame e)) exts m"
proof (induction exts arbitrary: m)
  case (Cons a exts)
  {
    case 1
    show ?case using Cons(1) [of "max m (ext_frame a)"] by simp
  next
    case 2
    then show ?case using Cons [of "max m (ext_frame a)"] by auto
  }
qed simp_all

lemma fold_max_less: "m < k \<Longrightarrow> list_all (\<lambda>e. ext_frame e < k) exts \<Longrightarrow> fold (\<lambda>e m. max m (ext_frame e)) exts m < k"
  by (induction exts arbitrary: m) auto

text \<open>For sound extensions the generator is the sequence of its extensions sorted by frame.\<close>

lemma generate_sorted:
  assumes "list_all extension_ok exts"
  shows "opus_packet_extensions_generate len exts pad =
    and_then (generate_list (emit len (int (length exts))) (sort_key ext_frame exts) ([], 0, 0)) (\<lambda>(out, cf, w).
      Inr (if pad \<and> int (length out) < len then replicate (nat (len - int (length out))) 1 @ out else out))"
proof -
  define mf where "mf = fold (\<lambda>e m. max m (ext_frame e)) exts 0"
  define fs where "fs = map int [0..<nat (mf + 1)]"
  have ok: "\<not> list_ex (\<lambda>e. ext_id e < 2 \<or> ext_id e > 127) exts" using assms by (auto simp: list_ex_iff list_all_iff extension_ok_def)
  have "mf < 48" unfolding mf_def using assms by (intro fold_max_less) (auto simp: list_all_iff extension_ok_def)
  moreover have "\<forall>e\<in>set exts. ext_frame e \<in> set fs"
  proof
    fix e assume e: "e \<in> set exts"
    then have "0 \<le> ext_frame e" "ext_frame e \<le> mf" using assms fold_max_frame(2) [OF e] by (auto simp: mf_def list_all_iff extension_ok_def)
    then show "ext_frame e \<in> set fs" by (auto simp: fs_def intro!: image_eqI [of _ _ "nat (ext_frame e)"])
  qed
  then have "by_frame fs exts = sort_key ext_frame exts" by (intro by_frame_sort) (auto simp: fs_def distinct_map sorted_map)
  ultimately show ?thesis using ok
    by (simp add: opus_packet_extensions_generate_def generate_by_frame Let_def flip: mf_def fs_def)
qed

lemma emit_sort:
  assumes "list_all extension_ok exts" "generate_list (emit len (int (length exts))) (sort_key ext_frame exts) ([], 0, 0) = Inr (out, cf, w)" "0 \<le> len"
  shows "bytes out" "int (length out) \<le> len"
    "int (length out) \<le> len' \<Longrightarrow> generate_list (emit len' (int (length exts))) (sort_key ext_frame exts) ([], 0, 0) = Inr (out, cf, w)"
    "length acc + length exts \<le> n \<Longrightarrow>
      extensions_parse_loop (pre @ out) (int (length pre)) (int (length out)) 0 n acc = (None, rev acc @ sort_key ext_frame exts)"
proof -
  have e: "list_all extension_ok (sort_key ext_frame exts)" "0 + int (length (sort_key ext_frame exts)) = int (length exts)"
    "sorted (0 # map ext_frame (sort_key ext_frame exts))"
    using assms(1) by (auto simp: list_all_iff extension_ok_def)
  from emit_all [OF assms(2) e(2,1,3)] assms(3)
  show "bytes out" "int (length out) \<le> len"
    "int (length out) \<le> len' \<Longrightarrow> generate_list (emit len' (int (length exts))) (sort_key ext_frame exts) ([], 0, 0) = Inr (out, cf, w)"
    "length acc + length exts \<le> n \<Longrightarrow>
      extensions_parse_loop (pre @ out) (int (length pre)) (int (length out)) 0 n acc = (None, rev acc @ sort_key ext_frame exts)"
    by auto
qed

text \<open>Bytes 1 before the extensions are skipped.\<close>

lemma parse_ones:
  "extensions_parse_loop (pre @ replicate k 1 @ rest) (int (length pre)) (int k + int (length rest)) cf n acc
    = extensions_parse_loop (pre @ replicate k 1 @ rest) (int (length pre) + int k) (int (length rest)) cf n acc"
proof (induction k arbitrary: pre)
  case (Suc k)
  let ?d = "pre @ replicate (Suc k) 1 @ rest"
  have rb: "read_byte ?d (int (length pre)) = Inr 1" by (simp add: is_byte_def)
  have nf: "ext_next_frame ?d (int (length pre)) (int (Suc k) + int (length rest)) cf 1 = Inr cf" by (simp add: ext_next_frame_def)
  have sk: "skip_extension ?d (int (length pre)) (int (Suc k) + int (length rest)) = Inr (int k + int (length rest), int (length pre) + 1, 1)"
    using rb by (simp add: skip_extension_def Let_def)
  have "extensions_parse_loop ?d (int (length pre)) (int (Suc k) + int (length rest)) cf n acc
      = extensions_parse_loop ?d (int (length pre) + 1) (int k + int (length rest)) cf n acc"
    using parse_loop_step [OF _ rb nf, of n acc] unfolding sk by simp
  then show ?case using Suc.IH [of "pre @ [1]"] by (simp add: add_ac)
qed simp

lemma emit_error: "list_all extension_ok es \<Longrightarrow> generate_list (emit len nb) es s = Inl err \<Longrightarrow> err = OPUS_BUFFER_TOO_SMALL"
proof (induction es arbitrary: s)
  case (Cons e es)
  have "err = OPUS_BUFFER_TOO_SMALL" if "emit len nb e s = Inl err"
    using Cons.prems(1) that
    by (cases s) (auto simp: generate_one_def ext_separator_def ext_payload_def extension_ok_def Let_def and_then_Inl split: if_splits)
  then show ?case using Cons by (auto simp: and_then_Inl)
qed simp

text \<open>A bound on the size of an extension with its separator.\<close>

definition ext_bound :: "opus_extension_data \<Rightarrow> int" where "ext_bound e = 4 + ext_len e + ext_len e div 255"

lemma emit_success:
  "\<lbrakk>list_all extension_ok es; int (length out) + (\<Sum>e\<leftarrow>es. ext_bound e) \<le> len\<rbrakk> \<Longrightarrow> \<exists>s. generate_list (emit len nb) es (out, cf, w) = Inr s"
proof (induction es arbitrary: out cf w)
  case (Cons e es)
  have e: "extension_ok e" "list_all extension_ok es" using Cons.prems(1) by simp_all
  have n: "0 \<le> ext_len e" "0 \<le> ext_len e div 255" using e(1) by (simp_all add: extension_ok_def)
  have "0 \<le> (\<Sum>e\<leftarrow>es. ext_bound e)" using e(2) by (intro sum_list_nonneg) (auto simp: ext_bound_def extension_ok_def list_all_iff)
  then have l: "int (length out) + ext_bound e \<le> len" using Cons.prems(2) by simp
  obtain sep where sep: "ext_separator len (int (length out)) cf (ext_frame e) = Inr sep" "length sep \<le> 2"
    using l n by (cases "ext_separator len (int (length out)) cf (ext_frame e)") (auto simp: ext_separator_def ext_bound_def Let_def split: if_splits)
  have "int (length out) + int (length sep) + 2 + ext_len e + ext_len e div 255 \<le> len" using l sep(2) by (simp add: ext_bound_def)
  then obtain bs where bs: "ext_payload len (int (length (out @ sep))) (w = nb - 1) e = Inr bs" "int (length bs) \<le> 2 + ext_len e + ext_len e div 255"
    using e(1) n by (cases "ext_payload len (int (length (out @ sep))) (w = nb - 1) e")
      (auto simp: ext_payload_def extension_ok_def Let_def split: if_splits)
  have "emit len nb e (out, cf, w) = Inr (out @ sep @ bs, ext_frame e, w + 1)" using sep(1) bs(1) by (simp add: generate_one_def)
  moreover have "int (length (out @ sep @ bs)) + (\<Sum>e\<leftarrow>es. ext_bound e) \<le> len" using Cons.prems(2) sep(2) bs(2) by (simp add: ext_bound_def)
  ultimately show ?case using Cons.IH [OF e(2)] by simp
qed simp

section \<open>Results\<close>

text \<open>
  C13. Extensions written by \<open>opus_packet_extensions_generate\<close> are read back: the output fits the
  space given (and fills it when padding is asked for), \<open>opus_packet_extensions_parse\<close> returns the
  extensions sorted by frame and otherwise in the given order, and
  \<open>opus_packet_extensions_count\<close> returns their number.
\<close>

theorem extensions_roundtrip:
  assumes "list_all extension_ok exts" "0 \<le> len" "opus_packet_extensions_generate len exts pad = Inr out"
  shows "opus_packet_extensions_parse out (int (length out)) (length exts) = (None, sort_key ext_frame exts)
    \<and> opus_packet_extensions_count out (int (length out)) = Inr (int (length exts))
    \<and> bytes out \<and> int (length out) \<le> len \<and> (pad \<longrightarrow> int (length out) = len)"
proof -
  obtain o1 cf w where g: "generate_list (emit len (int (length exts))) (sort_key ext_frame exts) ([], 0, 0) = Inr (o1, cf, w)"
    and out: "out = (if pad \<and> int (length o1) < len then replicate (nat (len - int (length o1))) 1 @ o1 else o1)"
    using assms(3) unfolding generate_sorted [OF assms(1)] by (auto simp: and_then_Inr)
  note e = emit_sort [OF assms(1) g assms(2)]
  obtain k where k: "out = replicate k 1 @ o1" "int k + int (length o1) \<le> len" "pad \<longrightarrow> int k + int (length o1) = len"
  proof (cases "pad \<and> int (length o1) < len")
    case True
    then show ?thesis using out by (intro that [of "nat (len - int (length o1))"]) auto
  next
    case False
    then show ?thesis using out e(2) by (intro that [of 0]) auto
  qed
  have p: "opus_packet_extensions_parse out (int (length out)) (length exts) = (None, sort_key ext_frame exts)"
    using parse_ones [of "[]" k o1 0 "length exts" "[]"] e(4) [of "[]" "length exts" "replicate k 1"]
    by (simp add: opus_packet_extensions_parse_def k(1))
  then obtain ys where "sort_key ext_frame exts = ys" "opus_packet_extensions_count out (int (length out)) = Inr (int (length ys))"
    using count_parse_loop [of out 0 "int (length out)" 0 "length exts" "[]" _ 0]
    by (auto simp: opus_packet_extensions_parse_def opus_packet_extensions_count_def)
  then show ?thesis using p k e(1,2) by (auto simp: is_byte_def)
qed

theorem extensions_roundtrip_witness:
  "opus_packet_extensions_parse [2, 69, 2, 8, 9, 2, 6, 66, 5] 9 3 = (None,
     [\<lparr>ext_id = 34, ext_frame = 1, ext_data = [8, 9], ext_len = 2\<rparr>,
      \<lparr>ext_id = 3, ext_frame = 2, ext_data = [], ext_len = 0\<rparr>,
      \<lparr>ext_id = 33, ext_frame = 2, ext_data = [5], ext_len = 1\<rparr>])"
proof -
  let ?e = "[\<lparr>ext_id = 3, ext_frame = 2, ext_data = [], ext_len = 0\<rparr>,
      \<lparr>ext_id = 34, ext_frame = 1, ext_data = [8, 9], ext_len = 2\<rparr>,
      \<lparr>ext_id = 33, ext_frame = 2, ext_data = [5], ext_len = 1\<rparr>]"
  have "list_all extension_ok ?e" by code_simp
  moreover have "opus_packet_extensions_generate 9 ?e False = Inr [2, 69, 2, 8, 9, 2, 6, 66, 5]" by code_simp
  ultimately show ?thesis using extensions_roundtrip [of ?e 9 False] by (simp add: eval_nat_numeral)
qed

text \<open>
  C36. Without padding, the space that extensions need does not depend on the space given: for every list
  of sound extensions there is one output, which \<open>opus_packet_extensions_generate\<close>, called with \<open>pad\<close>
  off, returns whenever it fits and otherwise reports \<open>OPUS_BUFFER_TOO_SMALL\<close>.  So a call that only measures and a second call with
  exactly the measured space agree.
\<close>

theorem extensions_generate_size:
  assumes "list_all extension_ok exts"
  shows "\<exists>out. \<forall>len. 0 \<le> len \<longrightarrow> opus_packet_extensions_generate len exts False
    = (if int (length out) \<le> len then Inr out else Inl OPUS_BUFFER_TOO_SMALL)"
proof -
  let ?g = "\<lambda>len. generate_list (emit len (int (length exts))) (sort_key ext_frame exts) ([], 0, 0)"
  let ?L = "\<Sum>e\<leftarrow>sort_key ext_frame exts. ext_bound e"
  have ok: "list_all extension_ok (sort_key ext_frame exts)" using assms by (simp add: list_all_iff)
  have L: "0 \<le> ?L" using ok by (intro sum_list_nonneg) (auto simp: ext_bound_def extension_ok_def list_all_iff)
  obtain out cf w where g: "?g ?L = Inr (out, cf, w)" using emit_success [OF ok, of "[]" ?L "int (length exts)" 0 0] by auto
  note e = emit_sort [OF assms g L]
  have "?g len = Inl OPUS_BUFFER_TOO_SMALL" if "0 \<le> len" "len < int (length out)" for len
  proof (cases "?g len")
    case (Inl err)
    then show ?thesis using emit_error [OF ok Inl] by simp
  next
    case (Inr s)
    obtain o2 cf2 w2 where s: "s = (o2, cf2, w2)" by (cases s)
    have "int (length o2) \<le> len" "?g ?L = Inr (o2, cf2, w2)"
      using emit_sort [OF assms Inr [unfolded s] that(1)] that e(2) by auto
    then show ?thesis using g that by simp
  qed
  then show ?thesis using e(3) unfolding generate_sorted [OF assms] by (intro exI [of _ out]) auto
qed

theorem extensions_generate_size_witness:
  "\<exists>out. opus_packet_extensions_generate 3 [\<lparr>ext_id = 33, ext_frame = 1, ext_data = [5], ext_len = 1\<rparr>] False
    = (if int (length out) \<le> 3 then Inr out else Inl OPUS_BUFFER_TOO_SMALL)"
proof -
  have "list_all extension_ok [\<lparr>ext_id = 33, ext_frame = 1, ext_data = [5], ext_len = 1\<rparr>]" by code_simp
  from extensions_generate_size [OF this] show ?thesis by (meson zero_le_numeral)
qed

text \<open>
  C25. Parsing extensions is safe on arbitrary padding: it ends, stays inside the padding, stores no
  more than the array holds, and every extension it stores is sound (number 2 to 127, frame below 48,
  contents inside the padding, at most one byte for a short extension); the only errors are a
  malformed padding and an array that is too small.
\<close>

theorem extensions_parse_safe:
  assumes "bytes data" "len = int (length data)" "opus_packet_extensions_parse data len n = (err, exts)"
  shows "err \<in> {None, Some OPUS_INVALID_PACKET, Some OPUS_BUFFER_TOO_SMALL} \<and> list_all extension_ok exts \<and> length exts \<le> n
    \<and> (err = None \<longrightarrow> opus_packet_extensions_count data len = Inr (int (length exts)))"
proof -
  have p: "extensions_parse_loop data 0 len 0 n [] = (err, exts)" using assms(3) by (simp add: opus_packet_extensions_parse_def)
  have "opus_packet_extensions_count data len = Inr (int (length exts))" if "err = None"
    using count_parse_loop [of data 0 len 0 n "[]" exts 0] p that by (auto simp: opus_packet_extensions_count_def)
  then show ?thesis using parse_loop_ok [OF assms(1), of 0 len 0 "[]" n] p assms(2) by auto
qed

theorem extensions_parse_safe_witness:
  "list_all extension_ok (snd (opus_packet_extensions_parse [1, 67, 255, 1, 2, 200] 6 4))"
proof -
  have "bytes [1, 67, 255, 1, 2, 200]" by code_simp
  then show ?thesis
    using extensions_parse_safe [of "[1, 67, 255, 1, 2, 200]" 6 4, OF _ _ prod.collapse [symmetric]] by simp
qed

end
