(* ===== verification/Opus_Repacketizer.thy ===== *)
theory Opus_Repacketizer
  imports Opus_Extensions
begin

text \<open>
  The repacketizer (\<open>src/repacketizer.c\<close>): collecting the frames of packets with the same
  configuration and writing any range of them as one packet, with optional padding, extensions and
  self-delimited framing.  A pointer with its length is the list of bytes it points to; an output is
  the list of bytes written.
\<close>

section \<open>Definitions\<close>

record OpusRepacketizer =
  rp_toc :: int
  rp_nb_frames :: int
  rp_frames :: "int list list"
  rp_framesize :: int
  rp_paddings :: "int list list"

definition opus_repacketizer_init :: "OpusRepacketizer \<Rightarrow> OpusRepacketizer" where
  "opus_repacketizer_init rp = rp\<lparr>rp_nb_frames := 0, rp_frames := [], rp_paddings := []\<rparr>"

text \<open>The bytes of the frames and of the padding of a parsed packet.\<close>

definition packet_frames :: "int list \<Rightarrow> packet_info \<Rightarrow> int list list" where
  "packet_frames data p = map (\<lambda>(off, sz). take (nat sz) (drop (nat off) data)) (zip (pk_frames p) (pk_size p))"

definition packet_padding :: "int list \<Rightarrow> packet_info \<Rightarrow> int list" where
  "packet_padding data p = take (nat (pk_padding_len p)) (drop (nat (pk_padding p)) data)"

definition opus_repacketizer_cat_impl :: "OpusRepacketizer \<Rightarrow> int list \<Rightarrow> int \<Rightarrow> bool \<Rightarrow> opus_error option \<times> OpusRepacketizer" where
  "opus_repacketizer_cat_impl rp data len self_delimited =
    (if len < 1 then (Some OPUS_INVALID_PACKET, rp)
     else case read_byte data 0 of Inl e \<Rightarrow> (Some e, rp) | Inr d0 \<Rightarrow>
       if rp_nb_frames rp \<noteq> 0 \<and> rp_toc rp AND 252 \<noteq> d0 AND 252 then (Some OPUS_INVALID_PACKET, rp)
       else
         let rp = (if rp_nb_frames rp = 0 then rp\<lparr>rp_toc := d0, rp_framesize := opus_packet_get_samples_per_frame d0 8000\<rparr> else rp)
         in case opus_packet_get_nb_frames data len of
              Inl e \<Rightarrow> (Some (if e = Out_Of_Bounds then e else OPUS_INVALID_PACKET), rp)
            | Inr curr_nb_frames \<Rightarrow>
                if curr_nb_frames < 1 then (Some OPUS_INVALID_PACKET, rp)
                else if (curr_nb_frames + rp_nb_frames rp) * rp_framesize rp > 960 then (Some OPUS_INVALID_PACKET, rp)
                else case opus_packet_parse_impl data len self_delimited False of
                    Inl e \<Rightarrow> (Some e, rp)
                  | Inr p \<Rightarrow> (None, rp\<lparr>rp_nb_frames := rp_nb_frames rp + curr_nb_frames,
                      rp_frames := rp_frames rp @ packet_frames data p,
                      rp_paddings := rp_paddings rp @ packet_padding data p # replicate (nat (curr_nb_frames - 1)) []\<rparr>))"

definition opus_repacketizer_cat :: "OpusRepacketizer \<Rightarrow> int list \<Rightarrow> int \<Rightarrow> opus_error option \<times> OpusRepacketizer" where
  "opus_repacketizer_cat rp data len = opus_repacketizer_cat_impl rp data len False"

definition opus_repacketizer_get_nb_frames :: "OpusRepacketizer \<Rightarrow> int" where
  "opus_repacketizer_get_nb_frames rp = rp_nb_frames rp"

text \<open>The capacity of the extension array, and its contents: passed-in extensions first, then those of the paddings.\<close>

definition total_ext_count :: "opus_extension_data list \<Rightarrow> int list list \<Rightarrow> int" where
  "total_ext_count extensions paddings =
    fold (\<lambda>pd t. case opus_packet_extensions_count pd (int (length pd)) of Inl e \<Rightarrow> t | Inr n \<Rightarrow> if n > 0 then t + n else t)
      paddings (int (length extensions))"

fun collect_extensions :: "int \<Rightarrow> int \<Rightarrow> int list list \<Rightarrow> opus_extension_data list \<Rightarrow> opus_error + opus_extension_data list" where
  "collect_extensions cap i [] all_ext = Inr all_ext"
| "collect_extensions cap i (pd # pds) all_ext =
    (case opus_packet_extensions_parse pd (int (length pd)) (nat (cap - int (length all_ext))) of
       (Some e, xs) \<Rightarrow> Inl OPUS_INTERNAL_ERROR
     | (None, xs) \<Rightarrow> collect_extensions cap (i + 1) pds (all_ext @ map (\<lambda>e. e\<lparr>ext_frame := ext_frame e + i\<rparr>) xs))"

text \<open>The extra size of the last frame.\<close>

definition self_delimited_size :: "bool \<Rightarrow> int list \<Rightarrow> int" where
  "self_delimited_size self_delimited lens = (if self_delimited then 1 + cbool (last lens \<ge> 252) else 0)"

text \<open>Framing codes 0 to 2: the total size and the bytes before the frames.\<close>

definition repack_code012 :: "int \<Rightarrow> int list \<Rightarrow> int \<Rightarrow> int \<Rightarrow> opus_error + int \<times> int list" where
  "repack_code012 toc lens tot_size maxlen =
    (if length lens = 1 then
       let tot_size = tot_size + lens ! 0 + 1
       in if tot_size > maxlen then Inl OPUS_BUFFER_TOO_SMALL else Inr (tot_size, [toc AND 252])
     else if length lens = 2 then
       if lens ! 1 = lens ! 0 then
         let tot_size = tot_size + 2 * lens ! 0 + 1
         in if tot_size > maxlen then Inl OPUS_BUFFER_TOO_SMALL else Inr (tot_size, [(toc AND 252) OR 1])
       else
         let tot_size = tot_size + lens ! 0 + lens ! 1 + 2 + cbool (lens ! 0 \<ge> 252)
         in if tot_size > maxlen then Inl OPUS_BUFFER_TOO_SMALL else Inr (tot_size, ((toc AND 252) OR 2) # encode_size (lens ! 0))
     else Inr (tot_size, []))"

text \<open>
  What is left to write after the header: extensions of \<open>pl_ext_len\<close> bytes at \<open>pl_ext_begin\<close>, bytes 1
  from \<open>pl_ones_begin\<close> to \<open>pl_ones_end\<close>.
\<close>

record pad_layout =
  pl_ext_len :: int
  pl_ext_begin :: int
  pl_ones_begin :: int
  pl_ones_end :: int

definition no_pad_layout :: pad_layout where
  "no_pad_layout = \<lparr>pl_ext_len = 0, pl_ext_begin = 0, pl_ones_begin = 0, pl_ones_end = 0\<rparr>"

definition code3_size :: "int list \<Rightarrow> int \<Rightarrow> bool \<Rightarrow> int" where
  "code3_size lens tot_size vbr =
    (if vbr then tot_size + 2 + (\<Sum>l\<leftarrow>butlast lens. 1 + cbool (l \<ge> 252) + l) + last lens
     else tot_size + (int (length lens) * lens ! 0 + 2))"

definition repack_code3 :: "int \<Rightarrow> int list \<Rightarrow> int \<Rightarrow> int \<Rightarrow> bool \<Rightarrow> opus_extension_data list \<Rightarrow> opus_error + int \<times> int list \<times> pad_layout" where
  "repack_code3 toc lens tot_size maxlen pad all_ext =
    (let cnt = int (length lens);
         vbr = list_ex (\<lambda>l. l \<noteq> lens ! 0) (tl lens);
         tot_size = code3_size lens tot_size vbr
     in if tot_size > maxlen then Inl OPUS_BUFFER_TOO_SMALL
        else
          let d0 = (toc AND 252) OR 3;
              d1 = (if vbr then cnt OR 128 else cnt);
              sizes = (if vbr then concat (map encode_size (butlast lens)) else [])
          in and_then (if all_ext \<noteq> [] then and_then (opus_packet_extensions_generate (maxlen - tot_size) all_ext False) (\<lambda>ext. Inr (int (length ext)))
               else Inr 0) (\<lambda>ext_len.
             let pad_amount = (if pad then maxlen - tot_size else if all_ext \<noteq> [] then ext_len + ext_len div 254 + 1 else 0)
             in if pad_amount \<noteq> 0 then
                  let nb_255s = (pad_amount - 1) div 255
                  in if tot_size + ext_len + nb_255s + 1 > maxlen then Inl OPUS_BUFFER_TOO_SMALL
                     else Inr (tot_size + pad_amount,
                       [d0, d1 OR 64] @ replicate (nat nb_255s) 255 @ [u8 (pad_amount - 255 * nb_255s - 1)] @ sizes,
                       \<lparr>pl_ext_len = ext_len, pl_ext_begin = tot_size + pad_amount - ext_len,
                        pl_ones_begin = tot_size + nb_255s + 1, pl_ones_end = tot_size + pad_amount - ext_len\<rparr>)
                else Inr (tot_size, [d0, d1] @ sizes, no_pad_layout\<lparr>pl_ext_len := ext_len\<rparr>)))"

text \<open>Writing \<open>xs\<close> at position \<open>i\<close> of an output; bytes not written yet are taken as 0.\<close>

definition put_at :: "int list \<Rightarrow> int \<Rightarrow> int list \<Rightarrow> int list" where
  "put_at out i xs = take (nat i) out @ replicate (nat i - length out) 0 @ xs @ drop (nat i + length xs) out"

text \<open>The extensions, the bytes 1 before them, or zeros where there are no extensions, after the bytes \<open>out\<close>.\<close>

definition fill_padding :: "int list \<Rightarrow> opus_extension_data list \<Rightarrow> bool \<Rightarrow> int \<Rightarrow> pad_layout \<Rightarrow> opus_error + int list" where
  "fill_padding out all_ext pad maxlen pl =
    and_then (if pl_ext_len pl > 0
              then and_then (opus_packet_extensions_generate (pl_ext_len pl) all_ext False) (\<lambda>ext. Inr (put_at out (pl_ext_begin pl) ext))
              else Inr out) (\<lambda>out2.
      let out3 = (if pl_ones_begin pl < pl_ones_end pl
                  then put_at out2 (pl_ones_begin pl) (replicate (nat (pl_ones_end pl - pl_ones_begin pl)) 1) else out2)
      in Inr (if pad \<and> all_ext = [] then put_at out3 (int (length out)) (replicate (nat maxlen - length out) 0) else out3))"

definition opus_repacketizer_out_range_impl :: "OpusRepacketizer \<Rightarrow> int \<Rightarrow> int \<Rightarrow> int \<Rightarrow> bool \<Rightarrow> bool \<Rightarrow> opus_extension_data list
    \<Rightarrow> opus_error + int \<times> int list" where
  "opus_repacketizer_out_range_impl rp bgn fin maxlen self_delimited pad extensions =
    (if bgn < 0 \<or> bgn \<ge> fin \<or> fin > rp_nb_frames rp then Inl OPUS_BAD_ARG
     else
       let frames = take (nat (fin - bgn)) (drop (nat bgn) (rp_frames rp));
           paddings = take (nat (fin - bgn)) (drop (nat bgn) (rp_paddings rp));
           lens = map (\<lambda>f. int (length f)) frames;
           tot_size = self_delimited_size self_delimited lens
       in and_then (collect_extensions (total_ext_count extensions paddings) 0 paddings extensions) (\<lambda>all_ext.
          and_then (repack_code012 (rp_toc rp) lens tot_size maxlen) (\<lambda>(size1, hdr1).
          and_then (if length lens > 2 \<or> (pad \<and> size1 < maxlen) \<or> all_ext \<noteq> []
                    then repack_code3 (rp_toc rp) lens tot_size maxlen pad all_ext
                    else Inr (size1, hdr1, no_pad_layout)) (\<lambda>(size2, hdr2, pl).
            and_then (fill_padding (hdr2 @ (if self_delimited then encode_size (last lens) else []) @ concat frames) all_ext pad maxlen pl)
              (\<lambda>out. Inr (size2, out))))))"

definition opus_repacketizer_out_range :: "OpusRepacketizer \<Rightarrow> int \<Rightarrow> int \<Rightarrow> int \<Rightarrow> opus_error + int \<times> int list" where
  "opus_repacketizer_out_range rp bgn fin maxlen = opus_repacketizer_out_range_impl rp bgn fin maxlen False False []"

definition opus_repacketizer_out :: "OpusRepacketizer \<Rightarrow> int \<Rightarrow> opus_error + int \<times> int list" where
  "opus_repacketizer_out rp maxlen = opus_repacketizer_out_range_impl rp 0 (rp_nb_frames rp) maxlen False False []"

text \<open>A repacketizer on the stack, before its initialisation.\<close>

definition stack_repacketizer :: OpusRepacketizer where
  "stack_repacketizer = \<lparr>rp_toc = 0, rp_nb_frames = 0, rp_frames = [], rp_framesize = 0, rp_paddings = []\<rparr>"

section \<open>Header bytes\<close>

lemma and_or_num: "((x AND a) OR b) AND (c::int) = (x AND (a AND c)) OR (b AND c)"
  by (simp add: bit.conj_disj_distrib2 and.assoc)

lemma toc_fields:
  assumes "is_byte toc" "k \<in> {0, 1, 2, 3}"
  defines "t \<equiv> (toc AND 252) OR k"
  shows "is_byte t" "t AND 3 = k" "t AND 252 = toc AND 252"
    "opus_packet_get_samples_per_frame t Fs = opus_packet_get_samples_per_frame toc Fs"
proof -
  have m: "t AND 255 = t" "0 \<le> t" using assms(2) by (auto simp: t_def and_or_num)
  then have "t < 256" by (metis and_255_mod pos_mod_bound zero_less_numeral)
  then show "is_byte t" using m by (simp add: is_byte_def)
  show "t AND 3 = k" "t AND 252 = toc AND 252" using assms(2) by (auto simp: t_def and_or_num)
  have d: "drop_bit 3 t AND 3 = drop_bit 3 toc AND 3"
    using assms(2) by (auto simp: t_def drop_bit_or drop_bit_and and_or_num)
  have "t AND 128 = toc AND 128" "t AND 96 = toc AND 96" "t AND 8 = toc AND 8"
    using assms(2) by (auto simp: t_def and_or_num)
  then show "opus_packet_get_samples_per_frame t Fs = opus_packet_get_samples_per_frame toc Fs"
    by (simp add: opus_packet_get_samples_per_frame_def d)
qed

text \<open>The second byte of framing code 3.\<close>

lemma count_byte:
  assumes "1 \<le> c" "c \<le> 48"
  defines "b \<equiv> (\<lambda>vbr padded. let d = (if vbr then c OR 128 else c) in if padded then d OR 64 else d)"
  shows "is_byte (b vbr padded)" "b vbr padded AND 63 = c" "b vbr padded AND 64 \<noteq> 0 \<longleftrightarrow> padded" "b vbr padded AND 128 = 0 \<longleftrightarrow> \<not> vbr"
proof -
  have c: "c mod 64 = c" "c AND 63 = c" using assms by (simp_all add: bitarith)
  have a: "c AND 64 = 0" "c AND 128 = 0"
    using and.assoc [of c 63 64] and.assoc [of c 63 128] unfolding c by simp_all
  have n: "0 \<le> b vbr padded" using assms(1) by (simp add: b_def Let_def)
  have "c AND 255 = c" using assms by (simp add: bitarith)
  then have "b vbr padded AND 255 = b vbr padded" by (simp add: b_def Let_def bit.conj_disj_distrib2)
  then have "b vbr padded < 256" by (metis and_255_mod pos_mod_bound zero_less_numeral)
  then show "is_byte (b vbr padded)" using n by (simp add: is_byte_def)
  show "b vbr padded AND 63 = c" "b vbr padded AND 64 \<noteq> 0 \<longleftrightarrow> padded" "b vbr padded AND 128 = 0 \<longleftrightarrow> \<not> vbr"
    using c a by (simp_all add: b_def Let_def bit.conj_disj_distrib2)
qed

section \<open>Parsing what is written\<close>

lemma parse_padding_run:
  assumes "is_byte r" "r \<noteq> 255" "255 * int k < len"
  shows "parse_padding (pre @ replicate k 255 @ r # rest) (int (length pre)) len pad
    = Inr (int (length pre) + int k + 1, len - (int k + 1) - (254 * int k + r), pad + (254 * int k + r))"
  using assms(3)
proof (induction k arbitrary: pre len pad)
  case 0
  then show ?case using assms(1,2) by (subst parse_padding.simps) (simp add: Let_def)
next
  case (Suc k)
  have "parse_padding (pre @ replicate (Suc k) 255 @ r # rest) (int (length pre)) len pad
      = parse_padding ((pre @ [255]) @ replicate k 255 @ r # rest) (int (length (pre @ [255]))) (len - 255) (pad + 254)"
    using Suc.prems by (subst parse_padding.simps) (simp add: Let_def is_byte_def add.commute)
  also have "\<dots> = Inr (int (length (pre @ [255])) + int k + 1, len - 255 - (int k + 1) - (254 * int k + r), pad + 254 + (254 * int k + r))"
    using Suc.prems by (intro Suc.IH) simp
  finally show ?case by (simp add: algebra_simps)
qed

lemma parse_vbr_run:
  assumes "list_all frame_size_ok ls" "int (length (concat (map encode_size ls))) + sum_list ls \<le> len"
  shows "parse_vbr_sizes (pre @ concat (map encode_size ls) @ rest) (length ls) (int (length pre)) len last_size
    = Inr (int (length pre) + int (length (concat (map encode_size ls))), len - int (length (concat (map encode_size ls))),
        last_size - int (length (concat (map encode_size ls))) - sum_list ls, ls)"
  using assms
proof (induction ls arbitrary: pre len last_size)
  case (Cons l ls)
  let ?e = "encode_size l"
  have l: "frame_size_ok l" "list_all frame_size_ok ls" "0 \<le> l" "0 \<le> sum_list ls"
    using Cons.prems(1) by (auto simp: frame_size_ok_def list_all_iff intro!: sum_list_nonneg)
  have "parse_size (pre @ ?e @ concat (map encode_size ls) @ rest) (int (length pre)) len = Inr (int (length ?e), l)"
    using l Cons.prems(2) by (intro parse_encode_size) auto
  moreover have "parse_vbr_sizes ((pre @ ?e) @ concat (map encode_size ls) @ rest) (length ls) (int (length (pre @ ?e))) (len - int (length ?e)) (last_size - (int (length ?e) + l))
      = Inr (int (length (pre @ ?e)) + int (length (concat (map encode_size ls))), len - int (length ?e) - int (length (concat (map encode_size ls))),
        last_size - (int (length ?e) + l) - int (length (concat (map encode_size ls))) - sum_list ls, ls)"
    using l Cons.prems(2) by (intro Cons.IH) auto
  ultimately show ?case using l Cons.prems(2) by (simp add: Let_def)
qed simp

text \<open>The bytes \<open>data\<close>, followed by \<open>tail\<close>, are a packet with frames \<open>fr\<close> and padding \<open>pd\<close>.\<close>

definition packs :: "bool \<Rightarrow> int list \<Rightarrow> int list \<Rightarrow> int \<Rightarrow> int list list \<Rightarrow> int list \<Rightarrow> bool" where
  "packs self_delimited data tail toc fr pd \<longleftrightarrow> (\<exists>p. opus_packet_parse_impl (data @ tail) (int (length (data @ tail))) self_delimited False = Inr p
    \<and> packet_frames (data @ tail) p = fr \<and> packet_padding (data @ tail) p = pd \<and> pk_packet_offset p = int (length data)
    \<and> pk_toc p = toc \<and> pk_count p = int (length fr))"

abbreviation lens_of :: "int list list \<Rightarrow> int list" where "lens_of fr \<equiv> map (\<lambda>f. int (length f)) fr"

lemma sum_lens: "sum_list (lens_of fr) = int (length (concat fr))"
  by (induction fr) auto

lemma frames_at:
  "map (\<lambda>(off, sz). take (nat sz) (drop (nat off) (pre @ concat fr @ rest))) (zip (frame_offsets (int (length pre)) (lens_of fr)) (lens_of fr)) = fr"
proof (induction fr arbitrary: pre)
  case (Cons f fr)
  have "nat (int (length pre) + int (length f)) = length (pre @ f)" by simp
  then show ?case using Cons [of "pre @ f"] by simp
qed simp

lemma packsI:
  assumes d: "data = hdr @ concat fr @ pd" "read_byte (data @ tail) 0 = Inr toc"
    and c: "parse_code (data @ tail) toc (int (length (data @ tail)) - 1) self_delimited = Inr f" "fr_count f = int (length fr)" "fr_pad f = int (length pd)"
    and l: "parse_last_size (data @ tail) self_delimited f = Inr (int (length hdr), lens_of fr)"
  shows "packs self_delimited data tail toc fr pd"
proof -
  have "data \<noteq> [] \<or> tail \<noteq> []" using d(2) by (auto simp: read_byte_def split: if_splits)
  then have "length (data @ tail) \<noteq> 0" by simp
  then have "int (length (data @ tail)) \<noteq> 0" "\<not> int (length (data @ tail)) < 0" by (simp_all only: of_nat_eq_0_iff) simp_all
  moreover have "nat (int (length hdr) + int (length (concat fr))) = length (hdr @ concat fr)" by simp
  ultimately show ?thesis
    using d(2) c l frames_at [of hdr fr "pd @ tail"]
    by (simp add: packs_def opus_packet_parse_impl_def packet_frames_def packet_padding_def Let_def sum_lens d(1) add_ac)
qed

definition sd_bytes :: "bool \<Rightarrow> int \<Rightarrow> int list" where
  "sd_bytes self_delimited l = (if self_delimited then encode_size l else [])"

lemma i16_size: "frame_size_ok l \<Longrightarrow> i16 l = l"
  by (simp add: frame_size_ok_def)

lemma packs_code0:
  assumes t: "is_byte t" "t AND 3 = 0" and f: "frame_size_ok (int (length f))" and m: "\<not> self_delimited \<longrightarrow> tail = []"
  shows "packs self_delimited (t # sd_bytes self_delimited (int (length f)) @ f) tail t [f] []"
proof -
  let ?l = "int (length f)"
  let ?s = "sd_bytes self_delimited ?l"
  let ?d = "(t # ?s @ f) @ tail"
  define fr where "fr = \<lparr>fr_count = 1, fr_cbr = False, fr_pos = 1, fr_len = int (length ?d) - 1, fr_last_size = int (length ?d) - 1, fr_sizes = [], fr_pad = 0\<rparr>"
  have "parse_last_size ?d self_delimited fr = Inr (int (length (t # ?s)), [?l])"
  proof (cases self_delimited)
    case True
    have "parse_size ?d 1 (int (length ?d) - 1) = Inr (int (length (encode_size ?l)), ?l)"
      using parse_encode_size [OF f, of "int (length ?d) - 1" "[t]" "f @ tail"] True by (simp add: sd_bytes_def)
    then show ?thesis using True f by (simp add: parse_last_size_def fr_def sd_bytes_def Let_def frame_size_ok_def)
  next
    case False
    then show ?thesis using f m by (simp add: parse_last_size_def fr_def sd_bytes_def frame_size_ok_def)
  qed
  moreover have "read_byte ?d 0 = Inr t" using t(1) by (simp add: read_byte_def)
  moreover have "parse_code ?d t (int (length ?d) - 1) self_delimited = Inr fr" using t(2) by (simp add: parse_code_def fr_def)
  ultimately show ?thesis by (intro packsI [where hdr = "t # ?s" and f = fr]) (simp_all add: fr_def)
qed

lemma packs_code1:
  assumes t: "is_byte t" "t AND 3 = 1" and f: "frame_size_ok (int (length f))" "length g = length f" and m: "\<not> self_delimited \<longrightarrow> tail = []"
  shows "packs self_delimited (t # sd_bytes self_delimited (int (length f)) @ f @ g) tail t [f, g] []"
proof -
  let ?l = "int (length f)"
  let ?s = "sd_bytes self_delimited ?l"
  let ?d = "(t # ?s @ f @ g) @ tail"
  let ?n = "int (length ?d) - 1"
  define fr where "fr = \<lparr>fr_count = 2, fr_cbr = True, fr_pos = 1, fr_len = ?n, fr_last_size = (if self_delimited then ?n else ?n div 2),
    fr_sizes = (if self_delimited then [] else [i16 (?n div 2)]), fr_pad = 0\<rparr>"
  have n: "?n = 2 * ?l" if "\<not> self_delimited" using that m f by (simp add: sd_bytes_def)
  have "parse_last_size ?d self_delimited fr = Inr (int (length (t # ?s)), [?l, ?l])"
  proof (cases self_delimited)
    case True
    have "parse_size ?d 1 ?n = Inr (int (length (encode_size ?l)), ?l)"
      using parse_encode_size [OF f(1), of ?n "[t]" "f @ g @ tail"] True by (simp add: sd_bytes_def)
    then show ?thesis using True f by (simp add: parse_last_size_def fr_def sd_bytes_def Let_def frame_size_ok_def)
  next
    case False
    then show ?thesis using f m n i16_size [OF f(1)] by (simp add: parse_last_size_def fr_def sd_bytes_def frame_size_ok_def)
  qed
  moreover have "read_byte ?d 0 = Inr t" using t(1) by (simp add: read_byte_def)
  moreover have "parse_code ?d t ?n self_delimited = Inr fr"
  proof (cases self_delimited)
    case False
    have "?n AND 1 = 0" unfolding n [OF False] by (simp add: bitarith)
    then show ?thesis using False t(2) by (simp add: parse_code_def fr_def)
  qed (use t(2) in \<open>simp add: parse_code_def fr_def\<close>)
  ultimately show ?thesis using f(2) by (intro packsI [where hdr = "t # ?s" and f = fr]) (simp_all add: fr_def)
qed

lemma packs_code2:
  assumes t: "is_byte t" "t AND 3 = 2" and f: "frame_size_ok (int (length f))" "frame_size_ok (int (length g))" and m: "\<not> self_delimited \<longrightarrow> tail = []"
  shows "packs self_delimited (t # encode_size (int (length f)) @ sd_bytes self_delimited (int (length g)) @ f @ g) tail t [f, g] []"
proof -
  let ?l = "int (length f)" and ?r = "int (length g)"
  let ?e = "encode_size ?l" and ?s = "sd_bytes self_delimited ?r"
  let ?d = "(t # ?e @ ?s @ f @ g) @ tail"
  let ?n = "int (length ?d) - 1"
  define fr where "fr = \<lparr>fr_count = 2, fr_cbr = False, fr_pos = 1 + int (length ?e), fr_len = ?n - int (length ?e),
    fr_last_size = ?n - int (length ?e) - ?l, fr_sizes = [?l], fr_pad = 0\<rparr>"
  have "parse_last_size ?d self_delimited fr = Inr (int (length (t # ?e @ ?s)), [?l, ?r])"
  proof (cases self_delimited)
    case True
    have "parse_size ?d (1 + int (length ?e)) (?n - int (length ?e)) = Inr (int (length (encode_size ?r)), ?r)"
      using parse_encode_size [OF f(2), of "?n - int (length ?e)" "t # ?e" "f @ g @ tail"] True by (simp add: sd_bytes_def)
    then show ?thesis using True f by (simp add: parse_last_size_def fr_def sd_bytes_def Let_def frame_size_ok_def)
  next
    case False
    then show ?thesis using f m i16_size [OF f(2)] by (simp add: parse_last_size_def fr_def sd_bytes_def frame_size_ok_def)
  qed
  moreover have "read_byte ?d 0 = Inr t" using t(1) by (simp add: read_byte_def)
  moreover have "parse_size ?d 1 ?n = Inr (int (length ?e), ?l)"
    using parse_encode_size [OF f(1), of ?n "[t]" "?s @ f @ g @ tail"] by simp
  then have "parse_code ?d t ?n self_delimited = Inr fr" using t(2) by (simp add: parse_code_def fr_def Let_def)
  ultimately show ?thesis by (intro packsI [where hdr = "t # ?e @ ?s" and f = fr]) (simp_all add: fr_def)
qed

lemma sum_lens_butlast: "fr \<noteq> [] \<Longrightarrow> sum_list (butlast (lens_of fr)) + last (lens_of fr) = int (length (concat fr))"
proof -
  assume "fr \<noteq> []"
  then have "butlast (lens_of fr) @ [last (lens_of fr)] = lens_of fr" by (intro append_butlast_last_id) simp
  then have "sum_list (butlast (lens_of fr) @ [last (lens_of fr)]) = int (length (concat fr))" using sum_lens by metis
  then show ?thesis by simp
qed

lemma lens_const:
  assumes "\<forall>f\<in>set fr. int (length f) = l"
  shows "lens_of fr = replicate (length fr) l" "int (length (concat fr)) = int (length fr) * l"
proof -
  show 1: "lens_of fr = replicate (length fr) l" using assms by (induction fr) auto
  show "int (length (concat fr)) = int (length fr) * l" using sum_lens [of fr] unfolding 1 by (simp add: sum_list_replicate)
qed

text \<open>The frames of framing code 3, after the padding length.\<close>

lemma code3_frames:
  assumes fr: "fr \<noteq> []" "list_all frame_size_ok (lens_of fr)" and m: "\<not> self_delimited \<longrightarrow> tail = []"
    and vbr: "\<not> vbr \<longrightarrow> (\<forall>f\<in>set fr. int (length f) = last (lens_of fr))"
    and len: "len = int (length (sizes @ sd_bytes self_delimited (last (lens_of fr)) @ concat fr @ tail))"
    and sizes: "sizes = (if vbr then concat (map encode_size (butlast (lens_of fr))) else [])"
  shows "\<exists>f. parse_code3_frames (pre @ sizes @ sd_bytes self_delimited (last (lens_of fr)) @ rest) self_delimited (\<not> vbr) (int (length fr)) len0
      (int (length pre), len, pad) = Inr f \<and> fr_count f = int (length fr) \<and> fr_pad f = pad \<and>
    parse_last_size (pre @ sizes @ sd_bytes self_delimited (last (lens_of fr)) @ rest) self_delimited f
      = Inr (int (length (pre @ sizes @ sd_bytes self_delimited (last (lens_of fr)))), lens_of fr)"
proof -
  let ?L = "last (lens_of fr)"
  let ?s = "sd_bytes self_delimited ?L"
  let ?d = "pre @ sizes @ ?s @ rest"
  have "?L \<in> set (lens_of fr)" using fr(1) by (intro last_in_set) simp
  then have L: "frame_size_ok ?L" using fr(2) unfolding list_all_iff by blast
  have c: "0 < int (length fr)" "nat (int (length fr) - 1) = length (butlast (lens_of fr))" using fr(1) by (auto simp: nat_diff_distrib)
  have lens: "butlast (lens_of fr) @ [?L] = lens_of fr" using fr(1) by (intro append_butlast_last_id) simp
  have sd: "parse_size ?d (int (length (pre @ sizes))) (len - int (length sizes)) = Inr (int (length (encode_size ?L)), ?L)" if self_delimited
    using parse_encode_size [OF L, of "len - int (length sizes)" "pre @ sizes" rest] that len by (simp add: sd_bytes_def)
  show ?thesis
  proof (cases vbr)
    case True
    have b: "list_all frame_size_ok (butlast (lens_of fr))" using fr(2) in_set_butlastD unfolding list_all_iff by metis
    have S: "sum_list (butlast (lens_of fr)) + ?L = int (length (concat fr))" using sum_lens_butlast [OF fr(1)] .
    have "parse_vbr_sizes ?d (nat (int (length fr) - 1)) (int (length pre)) len len
        = Inr (int (length pre) + int (length sizes), len - int (length sizes), len - int (length sizes) - sum_list (butlast (lens_of fr)), butlast (lens_of fr))"
      unfolding c(2) using parse_vbr_run [OF b, of len pre "?s @ rest" len] S L len True sizes by (simp add: frame_size_ok_def)
    then have "parse_code3_frames ?d self_delimited (\<not> vbr) (int (length fr)) len0 (int (length pre), len, pad)
        = Inr \<lparr>fr_count = int (length fr), fr_cbr = False, fr_pos = int (length pre) + int (length sizes), fr_len = len - int (length sizes),
          fr_last_size = len - int (length sizes) - sum_list (butlast (lens_of fr)), fr_sizes = butlast (lens_of fr), fr_pad = pad\<rparr>"
      using True S L len by (simp add: parse_code3_frames_def frame_size_ok_def)
    moreover have "0 \<le> sum_list (butlast (lens_of fr))" using b by (intro sum_list_nonneg) (auto simp: list_all_iff frame_size_ok_def)
    moreover have "int (length (concat fr)) - sum_list (butlast (lens_of fr)) = ?L" using S by simp
    ultimately show ?thesis using sd L S lens m len i16_size [OF L]
      by (cases self_delimited) (simp_all add: parse_last_size_def Let_def frame_size_ok_def sd_bytes_def add_ac)
  next
    case False
    then have l: "lens_of fr = replicate (length fr) ?L" "int (length (concat fr)) = int (length fr) * ?L"
      using lens_const vbr by blast+
    have "Suc (nat (int (length fr) - 1)) = length fr" using c(1) by linarith
    then have r: "replicate (nat (int (length fr) - 1)) ?L @ [?L] = lens_of fr" by (metis l(1) replicate_append_same replicate_Suc)
    have z: "sizes = []" using False sizes by simp
    have g: "1 * ?L \<le> int (length fr) * ?L" using c(1) L by (intro mult_right_mono) (linarith, simp add: frame_size_ok_def)
    have g: "\<not> int (length fr) * ?L + int (length tail) < ?L" using g by simp
    show ?thesis
    proof (cases self_delimited)
      case True
      then show ?thesis using False z sd L r l(2) len c(1) g
        by (simp add: parse_code3_frames_def parse_last_size_def Let_def frame_size_ok_def sd_bytes_def mult.commute)
    next
      case nsd: False
      have n: "len = int (length fr) * ?L" using len z nsd m l(2) by (simp add: sd_bytes_def)
      have "len div int (length fr) = ?L" unfolding n using c(1) by simp
      moreover have "\<not> int (length fr) * ?L < 0" using L by (simp add: frame_size_ok_def not_less)
      ultimately show ?thesis using False z nsd L r n i16_size [OF L] c(1)
        by (simp add: parse_code3_frames_def parse_last_size_def Let_def frame_size_ok_def sd_bytes_def)
    qed
  qed
qed

lemma packs_code3:
  assumes t: "is_byte t" "t AND 3 = 3" and fr: "fr \<noteq> []" "list_all frame_size_ok (lens_of fr)" and m: "\<not> self_delimited \<longrightarrow> tail = []"
    and dur: "int (length fr) * opus_packet_get_samples_per_frame t 48000 \<le> 5760" "int (length fr) \<le> 48"
    and vbr: "\<not> vbr \<longrightarrow> (\<forall>f\<in>set fr. int (length f) = last (lens_of fr))"
    and sizes: "sizes = (if vbr then concat (map encode_size (butlast (lens_of fr))) else [])"
    and ch: "is_byte ch" "ch AND 63 = int (length fr)" "ch AND 64 \<noteq> 0 \<longleftrightarrow> padded" "ch AND 128 = 0 \<longleftrightarrow> \<not> vbr"
    and pad: "padb = (if padded then replicate k 255 @ [r] else [])" "is_byte r" "r \<noteq> 255" "int (length pd) = (if padded then 254 * int k + r else 0)"
  shows "packs self_delimited (t # ch # padb @ sizes @ sd_bytes self_delimited (last (lens_of fr)) @ concat fr @ pd) tail t fr pd"
proof -
  let ?s = "sd_bytes self_delimited (last (lens_of fr))"
  let ?d = "(t # ch # padb @ sizes @ ?s @ concat fr @ pd) @ tail"
  let ?n = "int (length ?d) - 1"
  let ?pre = "t # ch # padb"
  define len where "len = int (length (sizes @ ?s @ concat fr @ tail))"
  have p: "(if ch AND 64 \<noteq> 0 then parse_padding ?d 2 (?n - 1) 0 else Inr (2, ?n - 1, 0)) = Inr (int (length ?pre), len, int (length pd))"
  proof (cases padded)
    case True
    have "parse_padding ([t, ch] @ replicate k 255 @ r # sizes @ ?s @ concat fr @ pd @ tail) (int (length [t, ch])) (?n - 1) 0
        = Inr (int (length [t, ch]) + int k + 1, ?n - 1 - (int k + 1) - (254 * int k + r), 0 + (254 * int k + r))"
      using pad True by (intro parse_padding_run) (auto simp: is_byte_def)
    then show ?thesis using True ch(3) pad by (simp add: len_def)
  next
    case False
    then show ?thesis using ch(3) pad by (simp add: len_def)
  qed
  obtain f where f: "parse_code3_frames (?pre @ sizes @ ?s @ concat fr @ pd @ tail) self_delimited (\<not> vbr) (int (length fr)) ?n
      (int (length ?pre), len, int (length pd)) = Inr f" "fr_count f = int (length fr)" "fr_pad f = int (length pd)"
    "parse_last_size (?pre @ sizes @ ?s @ concat fr @ pd @ tail) self_delimited f = Inr (int (length (?pre @ sizes @ ?s)), lens_of fr)"
    using code3_frames [OF fr m vbr len_def sizes, of ?pre "concat fr @ pd @ tail" ?n "int (length pd)"] by auto
  have r: "read_byte ?d 0 = Inr t" "read_byte ?d 1 = Inr ch" using t(1) ch(1) by (simp_all add: read_byte_def)
  have D: "?pre @ sizes @ ?s @ concat fr @ pd @ tail = ?d" by simp
  have n: "\<not> ?n < 1" "\<not> (int (length fr) \<le> 0 \<or> 5760 < opus_packet_get_samples_per_frame t 48000 * int (length fr))"
    using dur fr(1) by (simp_all add: mult.commute)
  have "parse_code3 ?d (opus_packet_get_samples_per_frame t 48000) ?n self_delimited = Inr f"
    unfolding parse_code3_def r(2) and_then.simps Let_def ch(2,4) p using n f(1) [unfolded D] by (simp only: if_False)
  then have "parse_code ?d t ?n self_delimited = Inr f" using t(2) by (simp add: parse_code_def)
  then show ?thesis using r(1) f(2-3) f(4) [unfolded D] by (intro packsI [where hdr = "?pre @ sizes @ ?s" and f = f]) simp_all
qed

section \<open>The repacketizer\<close>

text \<open>The frames collected so far: sound frames of one configuration, at most 120 ms of them.\<close>

definition rp_ok :: "OpusRepacketizer \<Rightarrow> bool" where
  "rp_ok rp \<longleftrightarrow> rp_nb_frames rp = int (length (rp_frames rp)) \<and> length (rp_paddings rp) = length (rp_frames rp) \<and>
    (\<forall>f\<in>set (rp_frames rp). bytes f \<and> frame_size_ok (int (length f))) \<and> (\<forall>pd\<in>set (rp_paddings rp). bytes pd) \<and>
    (rp_nb_frames rp \<noteq> 0 \<longrightarrow> is_byte (rp_toc rp) \<and> rp_framesize rp = opus_packet_get_samples_per_frame (rp_toc rp) 8000 \<and>
      rp_nb_frames rp * rp_framesize rp \<le> 960)"

lemma samples_48k_8k:
  "opus_packet_get_samples_per_frame toc 48000 = 6 * opus_packet_get_samples_per_frame toc 8000"
proof -
  have "drop_bit 3 toc AND 3 \<in> {0, 1, 2, 3}" by (auto simp: bitarith)
  then show ?thesis by (auto simp: opus_packet_get_samples_per_frame_def shift_arith)
qed

lemma samples_toc:
  assumes "is_byte a" "is_byte b" "a AND 252 = b AND 252"
  shows "opus_packet_get_samples_per_frame a Fs = opus_packet_get_samples_per_frame b Fs"
proof -
  have "opus_packet_get_samples_per_frame ((a AND 252) OR 0) Fs = opus_packet_get_samples_per_frame ((b AND 252) OR 0) Fs" using assms(3) by simp
  then show ?thesis using toc_fields(4) [OF assms(1), of 0] toc_fields(4) [OF assms(2), of 0] by simp
qed

lemma sum_sizes_frames: "list_all frame_size_ok szs \<Longrightarrow> 0 \<le> sum_list szs"
  by (intro sum_list_nonneg) (auto simp: list_all_iff frame_size_ok_def)

lemma parsed_frames:
  assumes d: "bytes data" and p: "packet_ok data self_delimited p"
  shows "lens_of (packet_frames data p) = pk_size p" "int (length (packet_frames data p)) = pk_count p"
    "\<forall>f\<in>set (packet_frames data p). bytes f \<and> frame_size_ok (int (length f))" "bytes (packet_padding data p)"
    "int (length (packet_padding data p)) = pk_padding_len p"
proof -
  have len: "length (pk_frames p) = length (pk_size p)" using p by (simp add: packet_ok_def)
  have nth: "int (length (packet_frames data p ! i)) = pk_size p ! i" if i: "i < length (pk_size p)" for i
  proof -
    have s: "list_all frame_size_ok (pk_size p)" using p by (simp add: packet_ok_def)
    have "pk_frames p ! i = pk_payload_offset p + sum_list (take i (pk_size p))" "frame_size_ok (pk_size p ! i)"
      using p i by (auto simp: packet_ok_def frame_offsets_nth list_all_length)
    moreover have "pk_payload_offset p + sum_list (pk_size p) \<le> int (length data)" "0 \<le> pk_payload_offset p" using p by (auto simp: packet_ok_def)
    ultimately have "0 \<le> pk_frames p ! i" "pk_frames p ! i + pk_size p ! i \<le> int (length data)" "0 \<le> pk_size p ! i"
      using sum_list_take_le [OF s i] by (auto simp: frame_size_ok_def)
    then show ?thesis using i len by (simp add: packet_frames_def nat_diff_distrib)
  qed
  have l: "length (packet_frames data p) = length (pk_size p)" using len by (simp add: packet_frames_def)
  show 1: "lens_of (packet_frames data p) = pk_size p" using nth l by (intro nth_equalityI) simp_all
  show "int (length (packet_frames data p)) = pk_count p" using l p by (simp add: packet_ok_def)
  have "bytes f" if "f \<in> set (packet_frames data p)" for f
    using that d by (auto simp: packet_frames_def bytes_def list_all_iff dest!: in_set_takeD in_set_dropD)
  moreover have "list_all frame_size_ok (lens_of (packet_frames data p))" unfolding 1 using p by (simp add: packet_ok_def)
  ultimately show "\<forall>f\<in>set (packet_frames data p). bytes f \<and> frame_size_ok (int (length f))" by (simp add: list_all_iff)
  show "bytes (packet_padding data p)" using d by (auto simp: packet_padding_def bytes_def list_all_iff dest!: in_set_takeD in_set_dropD)
  have "0 \<le> sum_list (pk_size p)" using p by (intro sum_sizes_frames) (simp add: packet_ok_def)
  then show "int (length (packet_padding data p)) = pk_padding_len p" using p by (auto simp: packet_padding_def packet_ok_def nat_diff_distrib)
qed

lemma nb_frames_error:
  assumes "bytes data" "data \<noteq> []" "opus_packet_get_nb_frames data (int (length data)) = Inl e"
  shows "e = OPUS_INVALID_PACKET"
proof -
  have "2 \<le> length data" if "\<not> int (length data) < 2" using that by simp
  then show ?thesis using assms read_byte_first [OF assms(1)] by (auto simp: opus_packet_get_nb_frames_def Let_def split: if_splits)
qed

text \<open>The repacketizer after the configuration byte \<open>toc\<close> is accepted, and after the frames are.\<close>

definition rp_config :: "OpusRepacketizer \<Rightarrow> int \<Rightarrow> OpusRepacketizer" where
  "rp_config rp toc = (if rp_nb_frames rp = 0 then rp\<lparr>rp_toc := toc, rp_framesize := opus_packet_get_samples_per_frame toc 8000\<rparr> else rp)"

definition rp_add :: "OpusRepacketizer \<Rightarrow> int list \<Rightarrow> packet_info \<Rightarrow> OpusRepacketizer" where
  "rp_add rp data p = rp\<lparr>rp_nb_frames := rp_nb_frames rp + pk_count p, rp_frames := rp_frames rp @ packet_frames data p,
    rp_paddings := rp_paddings rp @ packet_padding data p # replicate (nat (pk_count p - 1)) []\<rparr>"

definition rp_accepts :: "OpusRepacketizer \<Rightarrow> packet_info \<Rightarrow> bool" where
  "rp_accepts rp p \<longleftrightarrow> (rp_nb_frames rp = 0 \<or> rp_toc rp AND 252 = pk_toc p AND 252) \<and>
    (pk_count p + rp_nb_frames rp) * opus_packet_get_samples_per_frame (pk_toc p) 8000 \<le> 960"

lemma rp_config_ok:
  assumes "rp_ok rp" "is_byte toc" "rp_nb_frames rp = 0 \<or> rp_toc rp AND 252 = toc AND 252"
  shows "rp_ok (rp_config rp toc)" "rp_framesize (rp_config rp toc) = opus_packet_get_samples_per_frame toc 8000"
    "is_byte (rp_toc (rp_config rp toc))" "rp_toc (rp_config rp toc) AND 252 = toc AND 252"
  using assms samples_toc [of "rp_toc rp" toc 8000] by (auto simp: rp_config_def rp_ok_def)

lemma cat_impl_eq:
  assumes rp: "rp_ok rp" and d: "bytes data"
  shows "opus_repacketizer_cat_impl rp data (int (length data)) self_delimited =
    (case opus_packet_parse_impl data (int (length data)) self_delimited False of
       Inr p \<Rightarrow> if rp_accepts rp p then (None, rp_add (rp_config rp (pk_toc p)) data p)
                else (Some OPUS_INVALID_PACKET, if rp_nb_frames rp = 0 \<or> rp_toc rp AND 252 = pk_toc p AND 252 then rp_config rp (pk_toc p) else rp)
     | Inl e \<Rightarrow> (Some OPUS_INVALID_PACKET, if data \<noteq> [] \<and> (rp_nb_frames rp = 0 \<or> rp_toc rp AND 252 = data ! 0 AND 252) then rp_config rp (data ! 0) else rp))"
proof (cases "data = [] \<or> \<not> (rp_nb_frames rp = 0 \<or> rp_toc rp AND 252 = data ! 0 AND 252)")
  case True
  then show ?thesis
    by (cases rule: parse_impl_cases [OF d, of self_delimited])
      (use d in \<open>auto simp: opus_repacketizer_cat_impl_def read_byte_first rp_accepts_def packet_ok_def not_less Suc_le_eq\<close>)
next
  case False
  then have r0: "read_byte data 0 = Inr (data ! 0)" "\<not> int (length data) < 1" "is_byte (data ! 0)"
    using d by (auto simp: read_byte_first not_less Suc_le_eq bytes_nth)
  have c: "rp_framesize (rp_config rp (data ! 0)) = opus_packet_get_samples_per_frame (data ! 0) 8000"
    "rp_nb_frames (rp_config rp (data ! 0)) = rp_nb_frames rp"
    using rp_config_ok(2) [OF rp r0(3)] False by (auto simp: rp_config_def)
  show ?thesis
  proof (cases rule: parse_impl_cases [OF d, of self_delimited, case_names invalid parsed])
    case invalid
    then show ?thesis using False r0 nb_frames_error [OF d]
      by (auto simp: opus_repacketizer_cat_impl_def Let_def simp flip: rp_config_def split: sum.split)
  next
    case (parsed p)
    have t: "pk_toc p = data ! 0" "\<not> pk_count p < 1" using parsed(2) by (auto simp: packet_ok_def)
    show ?thesis using False r0 parsed(1) parse_nb_frames [OF d parsed(1)] t c
      by (auto simp: opus_repacketizer_cat_impl_def Let_def rp_accepts_def rp_add_def simp flip: rp_config_def)
  qed
qed

lemma rp_add_ok:
  assumes rp: "rp_ok rp" and d: "bytes data" "data \<noteq> []" and p: "packet_ok data self_delimited p" "rp_accepts rp p"
  shows "rp_ok (rp_add (rp_config rp (pk_toc p)) data p)"
proof -
  have t: "is_byte (pk_toc p)" using d p(1) by (auto simp: packet_ok_def bytes_nth)
  have a: "rp_nb_frames rp = 0 \<or> rp_toc rp AND 252 = pk_toc p AND 252" using p(2) by (simp add: rp_accepts_def)
  note c = rp_config_ok [OF rp t a]
  have s: "(pk_count p + rp_nb_frames rp) * rp_framesize (rp_config rp (pk_toc p)) \<le> 960"
    using p(2) unfolding c(2) by (simp add: rp_accepts_def)
  have f: "rp_framesize (rp_config rp (pk_toc p)) = opus_packet_get_samples_per_frame (rp_toc (rp_config rp (pk_toc p))) 8000"
    unfolding c(2) using samples_toc [OF t c(3)] c(4) by simp
  have k: "rp_frames (rp_config rp (pk_toc p)) = rp_frames rp" "rp_paddings (rp_config rp (pk_toc p)) = rp_paddings rp"
    "rp_nb_frames (rp_config rp (pk_toc p)) = rp_nb_frames rp" by (auto simp: rp_config_def)
  have n: "length (packet_frames data p) = Suc (nat (pk_count p - 1))" using parsed_frames(2) [OF d(1) p(1)] p(1) by (auto simp: packet_ok_def)
  show ?thesis using rp c(3) s f parsed_frames(2-4) [OF d(1) p(1)] n
    by (auto simp: rp_ok_def rp_add_def k add.commute)
qed

lemma put_at_end: "int (length out) \<le> i \<Longrightarrow> put_at out i xs = out @ replicate (nat i - length out) 0 @ xs"
  by (simp add: put_at_def nat_le_iff)

lemma put_at_fill: "put_at (out @ replicate k z @ ys) (int (length out)) (replicate k v) = out @ replicate k v @ ys"
  by (simp add: put_at_def)

section \<open>Writing a range of frames\<close>

lemma sd_size: "frame_size_ok (last lens) \<Longrightarrow> int (length (sd_bytes self_delimited (last lens))) = self_delimited_size self_delimited lens"
  by (simp add: sd_bytes_def self_delimited_size_def encode_size_props(2))

lemma sd_bytes_bytes: "frame_size_ok l \<Longrightarrow> bytes (sd_bytes self_delimited l)"
  by (simp add: sd_bytes_def encode_size_props(1))

lemma last_lens: "fr \<noteq> [] \<Longrightarrow> list_all frame_size_ok (lens_of fr) \<Longrightarrow> frame_size_ok (last (lens_of fr))"
  unfolding list_all_iff by (metis last_in_set map_is_Nil_conv)

lemma repack_code012_ok:
  assumes toc: "is_byte toc" and fr: "length fr = 1 \<or> length fr = 2" "list_all frame_size_ok (lens_of fr)" and m: "\<not> self_delimited \<longrightarrow> tail = []"
    and r: "repack_code012 toc (lens_of fr) (self_delimited_size self_delimited (lens_of fr)) maxlen = Inr (sz, hdr)"
  defines "out \<equiv> hdr @ sd_bytes self_delimited (last (lens_of fr)) @ concat fr"
  shows "sz \<le> maxlen" "int (length out) = sz" "bytes hdr" "\<exists>t. packs self_delimited out tail t fr [] \<and> t AND 252 = toc AND 252"
proof -
  have ne: "fr \<noteq> []" using fr(1) by auto
  note S = sd_size [OF last_lens [OF ne fr(2)], of self_delimited]
  note t0 = toc_fields [OF toc, of 0, simplified] and t1 = toc_fields [OF toc, of 1, simplified] and t2 = toc_fields [OF toc, of 2, simplified]
  have "sz \<le> maxlen \<and> int (length out) = sz \<and> bytes hdr \<and> (\<exists>t. packs self_delimited out tail t fr [] \<and> t AND 252 = toc AND 252)"
  proof (cases "length fr = 1")
    case True
    then obtain f where f: "fr = [f]" by (auto simp: length_Suc_conv)
    have "packs self_delimited ((toc AND 252) # sd_bytes self_delimited (int (length f)) @ f) tail (toc AND 252) [f] []"
      using t0 fr(2) f m by (intro packs_code0) auto
    then show ?thesis using r S f t0 unfolding out_def
      by (auto simp: repack_code012_def Let_def split: if_splits intro!: exI [of _ "toc AND 252"])
  next
    case False
    then obtain f g where f: "fr = [f, g]" using fr(1) by (auto simp: length_Suc_conv eval_nat_numeral)
    have fg: "frame_size_ok (int (length f))" "frame_size_ok (int (length g))" using fr(2) f by auto
    show ?thesis
    proof (cases "length g = length f")
      case True
      have "packs self_delimited (((toc AND 252) OR 1) # sd_bytes self_delimited (int (length f)) @ f @ g) tail ((toc AND 252) OR 1) [f, g] []"
        using t1 fg m True by (intro packs_code1) auto
      then show ?thesis using r S f t1 True unfolding out_def
        by (auto simp: repack_code012_def Let_def split: if_splits intro!: exI [of _ "(toc AND 252) OR 1"])
    next
      case ne: False
      have "packs self_delimited (((toc AND 252) OR 2) # encode_size (int (length f)) @ sd_bytes self_delimited (int (length g)) @ f @ g) tail ((toc AND 252) OR 2) [f, g] []"
        using t2 fg m by (intro packs_code2) auto
      then show ?thesis using r S f t2 ne encode_size_props [OF fg(1)] unfolding out_def
        by (auto simp: repack_code012_def Let_def cbool_def split: if_splits intro!: exI [of _ "(toc AND 252) OR 2"])
    qed
  qed
  then show "sz \<le> maxlen" "int (length out) = sz" "bytes hdr" "\<exists>t. packs self_delimited out tail t fr [] \<and> t AND 252 = toc AND 252" by auto
qed

abbreviation vbr_of :: "int list \<Rightarrow> bool" where "vbr_of lens \<equiv> list_ex (\<lambda>l. l \<noteq> lens ! 0) (tl lens)"

abbreviation sizes_of :: "int list \<Rightarrow> int list" where
  "sizes_of lens \<equiv> if vbr_of lens then concat (map encode_size (butlast lens)) else []"

lemma not_vbr: "fr \<noteq> [] \<Longrightarrow> \<not> vbr_of (lens_of fr) \<Longrightarrow> f \<in> set fr \<Longrightarrow> int (length f) = lens_of fr ! 0"
  by (cases fr) (auto simp: list_ex_iff)

lemma not_vbr_last: "fr \<noteq> [] \<Longrightarrow> \<not> vbr_of (lens_of fr) \<Longrightarrow> lens_of fr ! 0 = last (lens_of fr)"
  using not_vbr [of fr "last fr"] by (simp add: last_map)

lemma length_sizes:
  "list_all frame_size_ok ls \<Longrightarrow> int (length (concat (map encode_size ls))) + sum_list ls = (\<Sum>l\<leftarrow>ls. 1 + cbool (l \<ge> 252) + l)"
  by (induction ls) (auto simp: encode_size_props(2))

lemma length_code3:
  assumes "fr \<noteq> []" "list_all frame_size_ok (lens_of fr)"
  shows "int (length (sizes_of (lens_of fr) @ sd_bytes self_delimited (last (lens_of fr)) @ concat fr)) + 2
    = code3_size (lens_of fr) (self_delimited_size self_delimited (lens_of fr)) (vbr_of (lens_of fr))"
proof (cases "vbr_of (lens_of fr)")
  case True
  have "list_all frame_size_ok (butlast (lens_of fr))" using assms(2) in_set_butlastD unfolding list_all_iff by metis
  from length_sizes [OF this] show ?thesis using True sd_size [OF last_lens [OF assms]] sum_lens_butlast [OF assms(1)]
    by (simp add: code3_size_def)
next
  case False
  have "int (length (concat fr)) = int (length fr) * lens_of fr ! 0"
    by (rule lens_const(2)) (use not_vbr [OF assms(1) False] in blast)
  then show ?thesis using False sd_size [OF last_lens [OF assms]] by (simp add: code3_size_def)
qed

text \<open>Extensions whose frame numbers may be too large for one packet.\<close>

definition ext_sound :: "opus_extension_data \<Rightarrow> bool" where
  "ext_sound e \<longleftrightarrow> extension_ok (e\<lparr>ext_frame := 0\<rparr>) \<and> 0 \<le> ext_frame e"

lemma generate_frames:
  assumes "list_all ext_sound exts" "opus_packet_extensions_generate len exts pad = Inr out"
  shows "list_all extension_ok exts"
proof -
  have "fold (\<lambda>e m. max m (ext_frame e)) exts 0 < 48"
    using assms(2) by (auto simp: opus_packet_extensions_generate_def Let_def split: if_splits)
  then have "ext_frame e < 48" if "e \<in> set exts" for e using fold_max_frame(2) [OF that, of 0] by simp
  then show ?thesis using assms(1) by (auto simp: list_all_iff ext_sound_def extension_ok_def)
qed

lemma generate_ok:
  assumes e: "list_all ext_sound exts" and g: "opus_packet_extensions_generate len exts False = Inr out" "0 \<le> len"
  shows "bytes out" "int (length out) \<le> len" "opus_packet_extensions_generate (int (length out)) exts False = Inr out"
    "opus_packet_extensions_parse (replicate k 1 @ out) (int (length (replicate k 1 @ out))) (length exts) = (None, sort_key ext_frame exts)"
    "exts \<noteq> [] \<Longrightarrow> out \<noteq> []"
proof -
  note ok = generate_frames [OF e g(1)]
  obtain cf w where s: "generate_list (emit len (int (length exts))) (sort_key ext_frame exts) ([], 0, 0) = Inr (out, cf, w)"
    using g(1) unfolding generate_sorted [OF ok] by (auto simp: and_then_Inr)
  note E = emit_sort [OF ok s g(2)]
  show "bytes out" "int (length out) \<le> len" by (rule E(1), rule E(2))
  show "opus_packet_extensions_generate (int (length out)) exts False = Inr out" unfolding generate_sorted [OF ok] by (simp add: E(3))
  show "opus_packet_extensions_parse (replicate k 1 @ out) (int (length (replicate k 1 @ out))) (length exts) = (None, sort_key ext_frame exts)"
    using parse_ones [of "[]" k out 0 "length exts" "[]"] E(4) [of "[]" "length exts" "replicate k 1"] by (simp add: opus_packet_extensions_parse_def)
  show "out \<noteq> []" if "exts \<noteq> []"
  proof
    assume "out = []"
    then have "(None :: opus_error option, sort_key ext_frame exts) = (None, [])"
      using E(4) [of "[]" "length exts" "[]"] by (simp add: extensions_parse_loop.simps)
    then have "length (sort_key ext_frame exts) = 0" by simp
    then show False using that by simp
  qed
qed

lemma parse_zeros: "opus_packet_extensions_parse (replicate k 0) (int k) n = (None, [])"
proof (cases k)
  case 0
  then show ?thesis by (simp add: opus_packet_extensions_parse_def extensions_parse_loop.simps)
next
  case (Suc j)
  let ?d = "replicate (Suc j) 0"
  have rb: "read_byte ?d 0 = Inr 0" by (simp add: read_byte_def is_byte_def)
  have nf: "ext_next_frame ?d 0 (int (Suc j)) 0 0 = Inr 0" by (simp add: ext_next_frame_def)
  have "skip_extension ?d 0 (int (Suc j)) = Inr (0, int (Suc j), 1)" using rb by (simp add: skip_extension_def Let_def)
  then show ?thesis using parse_loop_step [OF _ rb nf, of n "[]"] Suc
    by (simp add: opus_packet_extensions_parse_def extensions_parse_loop.simps [of _ _ 0])
qed

text \<open>The padding that is written: the extensions, after bytes 1, or zeros.\<close>

definition pad_bytes :: "nat \<Rightarrow> opus_extension_data list \<Rightarrow> int list \<Rightarrow> int list" where
  "pad_bytes n all_ext ext = (if all_ext = [] then replicate n 0 else replicate (n - length ext) 1 @ ext)"

lemma fill_padding_ok:
  assumes e: "list_all ext_sound all_ext" "if all_ext = [] then ext = [] else opus_packet_extensions_generate space all_ext False = Inr ext \<and> 0 \<le> space"
    and pl: "pl = \<lparr>pl_ext_len = int (length ext), pl_ext_begin = fin - int (length ext), pl_ones_begin = int (length out), pl_ones_end = fin - int (length ext)\<rparr>"
    and fin: "int (length out) + int (length ext) \<le> fin" "pad \<longrightarrow> fin = maxlen" "\<not> pad \<longrightarrow> all_ext \<noteq> []"
  shows "fill_padding out all_ext pad maxlen pl = Inr (out @ pad_bytes (nat fin - length out) all_ext ext)"
proof (cases "all_ext = []")
  case True
  then have ext: "ext = []" "pad" "fin = maxlen" using e fin by auto
  have "put_at (out @ replicate k 1) (int (length out)) (replicate k 0) = out @ replicate k 0" for k
    using put_at_fill [of out k 1 "[]" 0] by simp
  moreover have "nat (fin - int (length out)) = nat fin - length out" by (simp add: nat_diff_distrib')
  ultimately show ?thesis using True ext fin(1)
    by (auto simp: fill_padding_def pl pad_bytes_def put_at_end put_at_end [where xs = "[]", simplified] nat_diff_distrib')
next
  case False
  then have g: "opus_packet_extensions_generate space all_ext False = Inr ext" "0 \<le> space" using e by auto
  note G = generate_ok [OF e(1) g]
  have pos: "0 < int (length ext)" using G(5) False by simp
  have n: "nat (fin - int (length ext)) - length out = nat fin - length out - length ext"
    "nat (fin - int (length ext) - int (length out)) = nat fin - length out - length ext" using fin(1) by linarith+
  have "put_at out (fin - int (length ext)) ext = out @ replicate (nat fin - length out - length ext) 0 @ ext"
    using fin(1) n by (subst put_at_end) auto
  moreover have "nat fin - length out - length ext = 0" if "\<not> int (length out) < fin - int (length ext)" using that fin(1) by linarith
  ultimately show ?thesis using False pos G(3) n
    by (auto simp: fill_padding_def pl pad_bytes_def put_at_fill)
qed

lemma pad_bytes_props:
  assumes e: "list_all ext_sound all_ext" "if all_ext = [] then ext = [] else opus_packet_extensions_generate space all_ext False = Inr ext \<and> 0 \<le> space"
    and n: "length ext \<le> n"
  shows "length (pad_bytes n all_ext ext) = n" "bytes (pad_bytes n all_ext ext)"
    "opus_packet_extensions_parse (pad_bytes n all_ext ext) (int n) (length all_ext) = (None, sort_key ext_frame all_ext)"
proof -
  show l: "length (pad_bytes n all_ext ext) = n" using n e by (auto simp: pad_bytes_def)
  show "bytes (pad_bytes n all_ext ext)" using e generate_ok(1) [OF e(1)] by (auto simp: pad_bytes_def bytes_def list_all_iff is_byte_def split: if_splits)
  have "int (length (replicate (n - length ext) 1 @ ext)) = int n" using n by simp
  then show "opus_packet_extensions_parse (pad_bytes n all_ext ext) (int n) (length all_ext) = (None, sort_key ext_frame all_ext)"
    using e(2) generate_ok(4) [OF e(1), of space ext "n - length ext"] parse_zeros [of n 0] by (cases "all_ext = []") (auto simp: pad_bytes_def)
qed

text \<open>The extensions \<open>ext\<close> written for \<open>all_ext\<close>, and the result of \<open>repack_code3\<close> for them.\<close>

definition exts_written :: "int \<Rightarrow> opus_extension_data list \<Rightarrow> int list \<Rightarrow> bool" where
  "exts_written space all_ext ext \<longleftrightarrow> (if all_ext = [] then ext = [] else opus_packet_extensions_generate space all_ext False = Inr ext \<and> 0 \<le> space)"

definition pad_amount_of :: "bool \<Rightarrow> int \<Rightarrow> opus_extension_data list \<Rightarrow> int list \<Rightarrow> int" where
  "pad_amount_of pad space all_ext ext =
    (if pad then space else if all_ext \<noteq> [] then int (length ext) + int (length ext) div 254 + 1 else 0)"

lemma repack_code3_E:
  assumes "repack_code3 toc lens tot maxlen pad all_ext = Inr (sz, hdr, pl)" "base = code3_size lens tot (vbr_of lens)"
    "d1 = (if vbr_of lens then int (length lens) OR 128 else int (length lens))"
  obtains ext where "base \<le> maxlen" "exts_written (maxlen - base) all_ext ext" "pad_amount_of pad (maxlen - base) all_ext ext = 0"
    "sz = base" "hdr = [(toc AND 252) OR 3, d1] @ sizes_of lens" "pl = no_pad_layout\<lparr>pl_ext_len := int (length ext)\<rparr>"
  | ext k pa where "base \<le> maxlen" "exts_written (maxlen - base) all_ext ext" "pa = pad_amount_of pad (maxlen - base) all_ext ext" "pa \<noteq> 0"
    "k = (pa - 1) div 255" "base + int (length ext) + k + 1 \<le> maxlen" "sz = base + pa"
    "hdr = [(toc AND 252) OR 3, d1 OR 64] @ replicate (nat k) 255 @ [u8 (pa - 255 * k - 1)] @ sizes_of lens"
    "pl = \<lparr>pl_ext_len = int (length ext), pl_ext_begin = base + pa - int (length ext), pl_ones_begin = base + k + 1, pl_ones_end = base + pa - int (length ext)\<rparr>"
proof -
  define sizes where "sizes = sizes_of lens"
  have le: "base \<le> maxlen" using assms by (auto simp: repack_code3_def Let_def split: if_splits)
  obtain ext where ext: "exts_written (maxlen - base) all_ext ext"
    and x: "(if all_ext \<noteq> [] then and_then (opus_packet_extensions_generate (maxlen - base) all_ext False) (\<lambda>ext. Inr (int (length ext))) else Inr 0)
      = (Inr (int (length ext)) :: opus_error + int)"
    using assms(1) le unfolding assms(2) repack_code3_def Let_def exts_written_def
    by (cases "all_ext = []"; cases "opus_packet_extensions_generate (maxlen - code3_size lens tot (vbr_of lens)) all_ext False") auto
  have r: "repack_code3 toc lens tot maxlen pad all_ext =
    (let pa = pad_amount_of pad (maxlen - base) all_ext ext
     in if pa \<noteq> 0 then
          let k = (pa - 1) div 255
          in if base + int (length ext) + k + 1 > maxlen then Inl OPUS_BUFFER_TOO_SMALL
             else Inr (base + pa, [(toc AND 252) OR 3, d1 OR 64] @ replicate (nat k) 255 @ [u8 (pa - 255 * k - 1)] @ sizes,
               \<lparr>pl_ext_len = int (length ext), pl_ext_begin = base + pa - int (length ext), pl_ones_begin = base + k + 1, pl_ones_end = base + pa - int (length ext)\<rparr>)
        else Inr (base, [(toc AND 252) OR 3, d1] @ sizes, no_pad_layout\<lparr>pl_ext_len := int (length ext)\<rparr>))"
    using le unfolding repack_code3_def assms(2,3) [symmetric] sizes_def [symmetric] Let_def
    by (simp only: x assms(2) [symmetric] and_then.simps pad_amount_of_def if_False not_less [symmetric])
  show ?thesis
  proof (cases "pad_amount_of pad (maxlen - base) all_ext ext = 0")
    case True
    then show ?thesis using assms(1) le ext unfolding r by (intro that(1)) (auto simp: Let_def sizes_def)
  next
    case False
    then show ?thesis using assms(1) le ext unfolding r
      by (intro that(2) [OF le ext refl False refl]) (auto simp: Let_def sizes_def split: if_splits)
  qed
qed

lemma pad_split:
  assumes "0 < (pa::int)" "k = (pa - 1) div 255" "r = pa - 255 * k - 1"
  shows "0 \<le> k" "is_byte r" "r \<noteq> 255" "u8 r = r" "int (nat k) = k" "254 * k + r = pa - k - 1"
proof -
  have "r = (pa - 1) mod 255" using assms(2,3) by (simp add: minus_div_mult_eq_mod [symmetric])
  then have "0 \<le> r" "r < 255" by simp_all
  then show "is_byte r" "r \<noteq> 255" "u8 r = r" by (simp_all add: is_byte_def)
  show "0 \<le> k" using assms by (simp add: pos_imp_zdiv_nonneg_iff)
  then show "int (nat k) = k" by simp
  show "254 * k + r = pa - k - 1" using assms(3) by simp
qed

lemma ext_pad_amount: "((n::int) + n div 254 + 1 - 1) div 255 = n div 254"
proof -
  have "n + n div 254 = n mod 254 + n div 254 * 255" by (simp add: algebra_simps)
  also have "\<dots> div 255 = n div 254" by (simp add: div_pos_pos_trivial)
  finally show ?thesis by simp
qed

text \<open>What a written packet \<open>out\<close> of \<open>sz\<close> bytes promises about its frames and extensions.\<close>

definition repacked :: "bool \<Rightarrow> int \<Rightarrow> int list list \<Rightarrow> opus_extension_data list \<Rightarrow> int list \<Rightarrow> int \<Rightarrow> bool \<Rightarrow> int \<Rightarrow> int list \<Rightarrow> bool" where
  "repacked self_delimited toc fr all_ext tail maxlen pad sz out \<longleftrightarrow>
    int (length out) = sz \<and> 0 < sz \<and> sz \<le> maxlen \<and> (pad \<longrightarrow> sz = maxlen) \<and> bytes out \<and>
    (\<exists>t pd. packs self_delimited out tail t fr pd \<and> t AND 252 = toc AND 252 \<and> (\<not> pad \<and> all_ext = [] \<longrightarrow> pd = []) \<and>
      opus_packet_extensions_parse pd (int (length pd)) (length all_ext) = (None, sort_key ext_frame all_ext))"

lemma code3_packs:
  assumes toc: "is_byte toc" and fr: "fr \<noteq> []" "list_all frame_size_ok (lens_of fr)" and m: "\<not> self_delimited \<longrightarrow> tail = []"
    and dur: "int (length fr) * opus_packet_get_samples_per_frame toc 48000 \<le> 5760" "int (length fr) \<le> 48"
    and d1: "d1 = (if vbr_of (lens_of fr) then int (length fr) OR 128 else int (length fr))"
  defines "rest \<equiv> sizes_of (lens_of fr) @ sd_bytes self_delimited (last (lens_of fr)) @ concat fr"
  shows "packs self_delimited ([(toc AND 252) OR 3, d1] @ rest) tail ((toc AND 252) OR 3) fr []" "is_byte d1"
    "0 < pa \<Longrightarrow> k = (pa - 1) div 255 \<Longrightarrow> int (length pd) = pa - k - 1 \<Longrightarrow>
      packs self_delimited ([(toc AND 252) OR 3, d1 OR 64] @ replicate (nat k) 255 @ [u8 (pa - 255 * k - 1)] @ rest @ pd) tail ((toc AND 252) OR 3) fr pd"
    "is_byte (d1 OR 64)"
proof -
  have c: "1 \<le> int (length fr)" using fr(1) by (simp add: Suc_le_eq)
  note t = toc_fields [OF toc, of 3, simplified]
  note ch = count_byte [OF c dur(2), of "vbr_of (lens_of fr)", folded d1, simplified Let_def, folded d1]
  have v: "\<not> vbr_of (lens_of fr) \<longrightarrow> (\<forall>f\<in>set fr. int (length f) = last (lens_of fr))"
    using not_vbr [OF fr(1)] not_vbr_last [OF fr(1)] by metis
  have D: "int (length fr) * opus_packet_get_samples_per_frame ((toc AND 252) OR 3) 48000 \<le> 5760" using dur(1) t(4) by simp
  show "is_byte d1" "is_byte (d1 OR 64)" using ch(1) [of False] ch(1) [of True] by simp_all
  have "packs self_delimited (((toc AND 252) OR 3) # d1 # [] @ sizes_of (lens_of fr) @ sd_bytes self_delimited (last (lens_of fr)) @ concat fr @ []) tail ((toc AND 252) OR 3) fr []"
    by (rule packs_code3 [OF t(1,2) fr m D dur(2) v refl, where padded = False and k = 0 and r = 0])
      (use ch [of False] in \<open>simp_all add: is_byte_def\<close>)
  then show "packs self_delimited ([(toc AND 252) OR 3, d1] @ rest) tail ((toc AND 252) OR 3) fr []" by (simp add: rest_def)
  assume p: "0 < pa" "k = (pa - 1) div 255" "int (length pd) = pa - k - 1"
  note s = pad_split [OF p(1,2) refl]
  have "packs self_delimited (((toc AND 252) OR 3) # (d1 OR 64) # (replicate (nat k) 255 @ [u8 (pa - 255 * k - 1)]) @ sizes_of (lens_of fr)
      @ sd_bytes self_delimited (last (lens_of fr)) @ concat fr @ pd) tail ((toc AND 252) OR 3) fr pd"
    by (rule packs_code3 [OF t(1,2) fr m D dur(2) v refl, where padded = True and k = "nat k" and r = "u8 (pa - 255 * k - 1)"])
      (use ch [of True] s p(3) in simp_all)
  then show "packs self_delimited ([(toc AND 252) OR 3, d1 OR 64] @ replicate (nat k) 255 @ [u8 (pa - 255 * k - 1)] @ rest @ pd) tail ((toc AND 252) OR 3) fr pd"
    by (simp add: rest_def)
qed

lemma sizes_bytes:
  assumes "fr \<noteq> []" "\<forall>f\<in>set fr. bytes f \<and> frame_size_ok (int (length f))"
  shows "bytes (sizes_of (lens_of fr) @ sd_bytes self_delimited (last (lens_of fr)) @ concat fr)"
proof -
  have l: "list_all frame_size_ok (lens_of fr)" using assms(2) by (simp add: list_all_iff)
  have "bytes (concat (map encode_size ls))" if "list_all frame_size_ok ls" for ls using that by (induction ls) (auto simp: encode_size_props(1))
  moreover have "list_all frame_size_ok (butlast (lens_of fr))" using l in_set_butlastD unfolding list_all_iff by metis
  moreover have "bytes (concat fr)" using assms(2) by (induction fr) auto
  ultimately show ?thesis using sd_bytes_bytes [OF last_lens [OF assms(1) l]] by simp
qed

lemma no_padding:
  assumes "list_all ext_sound all_ext" "exts_written space all_ext ext" "pad_amount_of pad space all_ext ext = 0"
  shows "all_ext = [] \<and> ext = []"
proof (rule ccontr)
  assume "\<not> ?thesis"
  then have n: "all_ext \<noteq> []" and g: "opus_packet_extensions_generate space all_ext False = Inr ext" "0 \<le> space"
    using assms(2) by (auto simp: exts_written_def split: if_splits)
  have "0 < int (length ext)" "int (length ext) \<le> space" using generate_ok(2,5) [OF assms(1) g] n by auto
  moreover have "0 \<le> int (length ext) div 254" by simp
  ultimately show False using assms(3) n by (simp add: pad_amount_of_def split: if_splits)
qed

lemma repack_code3_ok:
  assumes toc: "is_byte toc" and fr: "fr \<noteq> []" "\<forall>f\<in>set fr. bytes f \<and> frame_size_ok (int (length f))" and m: "\<not> self_delimited \<longrightarrow> tail = []"
    and dur: "int (length fr) * opus_packet_get_samples_per_frame toc 48000 \<le> 5760" "int (length fr) \<le> 48"
    and e: "list_all ext_sound all_ext"
    and r: "repack_code3 toc (lens_of fr) (self_delimited_size self_delimited (lens_of fr)) maxlen pad all_ext = Inr (sz, hdr, pl)"
  shows "\<exists>out. fill_padding (hdr @ sd_bytes self_delimited (last (lens_of fr)) @ concat fr) all_ext pad maxlen pl = Inr out \<and>
    repacked self_delimited toc fr all_ext tail maxlen pad sz out"
proof -
  have l: "list_all frame_size_ok (lens_of fr)" using fr(2) by (simp add: list_all_iff)
  define rest where "rest = sizes_of (lens_of fr) @ sd_bytes self_delimited (last (lens_of fr)) @ concat fr"
  define base where "base = code3_size (lens_of fr) (self_delimited_size self_delimited (lens_of fr)) (vbr_of (lens_of fr))"
  define d1 where "d1 = (if vbr_of (lens_of fr) then int (length fr) OR 128 else int (length fr))"
  have d1': "d1 = (if vbr_of (lens_of fr) then int (length (lens_of fr)) OR 128 else int (length (lens_of fr)))" by (simp add: d1_def)
  note P = code3_packs [OF toc fr(1) l m dur d1_def, folded rest_def]
  have R: "int (length rest) + 2 = base" "bytes rest" unfolding rest_def base_def using length_code3 [OF fr(1) l] sizes_bytes [OF fr] by auto
  have T: "((toc AND 252) OR 3) AND 252 = toc AND 252" "is_byte ((toc AND 252) OR 3)" using toc_fields [OF toc, of 3] by simp_all
  show ?thesis
  proof (rule repack_code3_E [OF r base_def d1'])
    fix ext assume b: "base \<le> maxlen" "exts_written (maxlen - base) all_ext ext" and z: "pad_amount_of pad (maxlen - base) all_ext ext = 0"
      and s: "sz = base" and h: "hdr = [(toc AND 252) OR 3, d1] @ sizes_of (lens_of fr)" and pl: "pl = no_pad_layout\<lparr>pl_ext_len := int (length ext)\<rparr>"
    note E = no_padding [OF e b(2) z]
    have "fill_padding ([(toc AND 252) OR 3, d1] @ rest) all_ext pad maxlen pl = Inr ([(toc AND 252) OR 3, d1] @ rest)"
      using E z R(1) by (auto simp: fill_padding_def pl no_pad_layout_def pad_amount_of_def put_at_def)
    moreover have "repacked self_delimited toc fr all_ext tail maxlen pad sz ([(toc AND 252) OR 3, d1] @ rest)"
      unfolding repacked_def using P(1,2) R b(1) s z E T parse_zeros [of 0 0]
      by (auto simp: pad_amount_of_def intro!: exI [of _ "(toc AND 252) OR 3"] exI [of _ "[]"])
    ultimately show ?thesis unfolding h rest_def by auto
  next
    fix ext k pa assume b: "base \<le> maxlen" "exts_written (maxlen - base) all_ext ext" "pa = pad_amount_of pad (maxlen - base) all_ext ext" "pa \<noteq> 0"
      "k = (pa - 1) div 255" "base + int (length ext) + k + 1 \<le> maxlen" and s: "sz = base + pa"
      and h: "hdr = [(toc AND 252) OR 3, d1 OR 64] @ replicate (nat k) 255 @ [u8 (pa - 255 * k - 1)] @ sizes_of (lens_of fr)"
      and pl: "pl = \<lparr>pl_ext_len = int (length ext), pl_ext_begin = base + pa - int (length ext), pl_ones_begin = base + k + 1, pl_ones_end = base + pa - int (length ext)\<rparr>"
    have pa: "0 < pa" using b(1,3,4) by (auto simp: pad_amount_of_def split: if_splits)
    note S = pad_split [OF pa b(5) refl]
    define out where "out = [(toc AND 252) OR 3, d1 OR 64] @ replicate (nat k) 255 @ [u8 (pa - 255 * k - 1)] @ rest"
    have lo: "int (length out) = base + k + 1" using R(1) S(5) by (simp add: out_def)
    have n: "k + 1 + int (length ext) \<le> pa"
      using b(3,4,6) ext_pad_amount [of "int (length ext)"] by (auto simp: pad_amount_of_def b(5) split: if_splits)
    have fin: "pad \<longrightarrow> base + pa = maxlen" "\<not> pad \<longrightarrow> all_ext \<noteq> []" using b(3,4) by (auto simp: pad_amount_of_def split: if_splits)
    have le: "base + pa \<le> maxlen"
      using b(3,4,6) ext_pad_amount [of "int (length ext)"] by (auto simp: pad_amount_of_def b(5) split: if_splits)
    define pd where "pd = pad_bytes (nat (base + pa) - length out) all_ext ext"
    note W = b(2) [unfolded exts_written_def]
    have f: "fill_padding out all_ext pad maxlen pl = Inr (out @ pd)"
      unfolding pd_def using lo n fin pl by (intro fill_padding_ok [OF e W]) auto
    have "length ext \<le> nat (base + pa) - length out" using lo n by linarith
    note B = pad_bytes_props [OF e W this, folded pd_def]
    have lp: "int (length pd) = pa - k - 1" unfolding B(1) using lo n by linarith
    have pp: "opus_packet_extensions_parse pd (int (length pd)) (length all_ext) = (None, sort_key ext_frame all_ext)" using B(3) unfolding B(1) [symmetric] .
    have tot: "int (length (out @ pd)) = sz" "0 < sz" using lo lp s R(1) pa by simp_all
    have "bytes out" using T P(4) R(2) S(2,4) by (auto simp: out_def is_byte_def)
    moreover have "packs self_delimited (out @ pd) tail ((toc AND 252) OR 3) fr pd" using P(3) [OF pa b(5) lp] by (simp add: out_def)
    ultimately have "repacked self_delimited toc fr all_ext tail maxlen pad sz (out @ pd)"
      unfolding repacked_def using B(2) pp T tot s le fin by (auto simp del: length_append intro!: exI [of _ "(toc AND 252) OR 3"] exI [of _ pd])
    then show ?thesis using f unfolding h out_def rest_def by auto
  qed
qed

lemma extension_sound: "extension_ok e \<Longrightarrow> 0 \<le> i \<Longrightarrow> ext_sound (e\<lparr>ext_frame := ext_frame e + i\<rparr>)"
  by (auto simp: ext_sound_def extension_ok_def)

lemma collect_sound:
  "collect_extensions cap i pds acc = Inr all_ext \<Longrightarrow> list_all ext_sound acc \<Longrightarrow> \<forall>pd\<in>set pds. bytes pd \<Longrightarrow> 0 \<le> i \<Longrightarrow> list_all ext_sound all_ext"
proof (induction cap i pds acc rule: collect_extensions.induct)
  case (2 cap i pd pds acc)
  obtain err xs where x: "opus_packet_extensions_parse pd (int (length pd)) (nat (cap - int (length acc))) = (err, xs)" by (meson surj_pair)
  have "list_all extension_ok xs"
    using parse_loop_ok [of pd 0 "int (length pd)" 0 "[]" "nat (cap - int (length acc))"] "2.prems"(3) x by (simp add: opus_packet_extensions_parse_def)
  then have "list_all ext_sound (map (\<lambda>e. e\<lparr>ext_frame := ext_frame e + i\<rparr>) xs)" using "2.prems"(4) by (auto simp: list_all_iff intro: extension_sound)
  moreover have err: "err = None" using "2.prems"(1) x by (auto split: option.splits)
  ultimately show ?case using "2.IH" [OF x [symmetric] err] "2.prems" x by simp
qed simp

lemma collect_none: "\<forall>pd\<in>set pds. pd = [] \<Longrightarrow> collect_extensions cap i pds acc = Inr acc"
proof (induction pds arbitrary: i)
  case (Cons pd pds)
  have "opus_packet_extensions_parse [] 0 n = (None, [])" for n using parse_zeros [of 0 n] by simp
  then show ?case using Cons by simp
qed simp

text \<open>The frames and paddings of a range.\<close>

definition range_of :: "'a list \<Rightarrow> int \<Rightarrow> int \<Rightarrow> 'a list" where
  "range_of xs bgn fin = take (nat (fin - bgn)) (drop (nat bgn) xs)"

lemma range_of_props:
  assumes "rp_ok rp" "0 \<le> bgn" "bgn < fin" "fin \<le> rp_nb_frames rp"
  defines "fr \<equiv> range_of (rp_frames rp) bgn fin"
  shows "int (length fr) = fin - bgn" "fr \<noteq> []" "\<forall>f\<in>set fr. bytes f \<and> frame_size_ok (int (length f))" "is_byte (rp_toc rp)"
    "int (length fr) * opus_packet_get_samples_per_frame (rp_toc rp) 48000 \<le> 5760" "int (length fr) \<le> 48"
    "\<forall>pd\<in>set (range_of (rp_paddings rp) bgn fin). bytes pd"
proof -
  show l: "int (length fr) = fin - bgn" using assms by (simp add: range_of_def rp_ok_def nat_diff_distrib')
  then have "0 < length fr" using assms(3) by linarith
  then show "fr \<noteq> []" by simp
  show "\<forall>f\<in>set fr. bytes f \<and> frame_size_ok (int (length f))"
    using assms(1) by (auto simp: range_of_def fr_def rp_ok_def dest!: in_set_takeD in_set_dropD)
  show "\<forall>pd\<in>set (range_of (rp_paddings rp) bgn fin). bytes pd"
    using assms(1) by (auto simp: range_of_def rp_ok_def dest!: in_set_takeD in_set_dropD)
  have r: "is_byte (rp_toc rp)" "rp_nb_frames rp * opus_packet_get_samples_per_frame (rp_toc rp) 8000 \<le> 960"
    using assms by (auto simp: rp_ok_def)
  then show "is_byte (rp_toc rp)" by simp
  have s: "20 \<le> opus_packet_get_samples_per_frame (rp_toc rp) 8000"
    using samples_per_frame_48k [OF r(1)] unfolding samples_48k_8k by simp
  have "(fin - bgn) * opus_packet_get_samples_per_frame (rp_toc rp) 8000 \<le> rp_nb_frames rp * opus_packet_get_samples_per_frame (rp_toc rp) 8000"
    using assms(2,4) s by (intro mult_right_mono) auto
  then have d: "(fin - bgn) * opus_packet_get_samples_per_frame (rp_toc rp) 8000 \<le> 960" using r(2) by linarith
  then show "int (length fr) * opus_packet_get_samples_per_frame (rp_toc rp) 48000 \<le> 5760" unfolding l samples_48k_8k by simp
  have "(fin - bgn) * 20 \<le> (fin - bgn) * opus_packet_get_samples_per_frame (rp_toc rp) 8000" using s assms(3) by (intro mult_left_mono) auto
  then have "(fin - bgn) * 20 \<le> 960" using d by (rule order_trans)
  then show "int (length fr) \<le> 48" unfolding l by simp
qed

lemma code012_repacked:
  assumes toc: "is_byte toc" and fr: "length fr = 1 \<or> length fr = 2" "\<forall>f\<in>set fr. bytes f \<and> frame_size_ok (int (length f))" and m: "\<not> self_delimited \<longrightarrow> tail = []"
    and r: "repack_code012 toc (lens_of fr) (self_delimited_size self_delimited (lens_of fr)) maxlen = Inr (sz, hdr)" and p: "pad \<longrightarrow> maxlen \<le> sz"
  defines "out \<equiv> hdr @ sd_bytes self_delimited (last (lens_of fr)) @ concat fr"
  shows "fill_padding out [] pad maxlen no_pad_layout = Inr out" "repacked self_delimited toc fr [] tail maxlen pad sz out"
proof -
  have ne: "fr \<noteq> []" and l: "list_all frame_size_ok (lens_of fr)" using fr by (auto simp: list_all_iff)
  note C = repack_code012_ok [OF toc fr(1) l m r, folded out_def]
  have "bytes (sd_bytes self_delimited (last (lens_of fr)) @ concat fr)" using sizes_bytes [OF ne fr(2), of self_delimited] by simp
  then have b: "bytes out" using C(3) by (simp add: out_def)
  have z: "nat maxlen - length out = 0" if pad using C(2) p that by linarith
  show "fill_padding out [] pad maxlen no_pad_layout = Inr out" using z by (auto simp: fill_padding_def no_pad_layout_def put_at_def)
  obtain t where t: "packs self_delimited out tail t fr []" "t AND 252 = toc AND 252" using C(4) by auto
  have "0 < sz" using r fr(1) by (auto simp: repack_code012_def self_delimited_size_def cbool_def Let_def split: if_splits)
  then show "repacked self_delimited toc fr [] tail maxlen pad sz out"
    unfolding repacked_def using C(1,2) b p t parse_zeros [of 0 0] by (auto intro!: exI [of _ t] exI [of _ "[]"])
qed

lemma out_range_ok:
  assumes rp: "rp_ok rp" and e: "list_all ext_sound extensions" and m: "\<not> self_delimited \<longrightarrow> tail = []"
    and o: "opus_repacketizer_out_range_impl rp bgn fin maxlen self_delimited pad extensions = Inr (sz, out)"
  shows "0 \<le> bgn" "bgn < fin" "fin \<le> rp_nb_frames rp" "\<exists>all_ext. collect_extensions (total_ext_count extensions (range_of (rp_paddings rp) bgn fin)) 0 (range_of (rp_paddings rp) bgn fin) extensions = Inr all_ext
    \<and> repacked self_delimited (rp_toc rp) (range_of (rp_frames rp) bgn fin) all_ext tail maxlen pad sz out"
proof -
  show B: "0 \<le> bgn" "bgn < fin" "fin \<le> rp_nb_frames rp"
    using o by (auto simp: opus_repacketizer_out_range_impl_def split: if_splits)
  define fr where "fr = range_of (rp_frames rp) bgn fin"
  define pds where "pds = range_of (rp_paddings rp) bgn fin"
  note R = range_of_props [OF rp B, folded fr_def pds_def]
  have "\<not> (bgn < 0 \<or> bgn \<ge> fin \<or> fin > rp_nb_frames rp)" using B by linarith
  note o' = o [unfolded opus_repacketizer_out_range_impl_def if_not_P [OF this] Let_def, folded range_of_def sd_bytes_def, folded fr_def pds_def]
  obtain all_ext where c: "collect_extensions (total_ext_count extensions pds) 0 pds extensions = Inr all_ext"
    using o' unfolding and_then_Inr by blast
  note o1 = o' [unfolded c and_then.simps]
  obtain size1 hdr1 where r1: "repack_code012 (rp_toc rp) (lens_of fr) (self_delimited_size self_delimited (lens_of fr)) maxlen = Inr (size1, hdr1)"
    using o1 unfolding and_then_Inr by (metis surj_pair)
  note o2 = o1 [unfolded r1 and_then.simps prod.case]
  obtain size2 hdr2 pl where r3: "(if length (lens_of fr) > 2 \<or> (pad \<and> size1 < maxlen) \<or> all_ext \<noteq> []
      then repack_code3 (rp_toc rp) (lens_of fr) (self_delimited_size self_delimited (lens_of fr)) maxlen pad all_ext
      else Inr (size1, hdr1, no_pad_layout)) = Inr (size2, hdr2, pl)"
    using o2 unfolding and_then_Inr by (metis surj_pair)
  have f: "fill_padding (hdr2 @ sd_bytes self_delimited (last (lens_of fr)) @ concat fr) all_ext pad maxlen pl = Inr out" and sz: "sz = size2"
    using o2 [unfolded r3 and_then.simps prod.case] by (auto simp: and_then_Inr)
  note x = collect_sound [OF c e R(7)]
  have "repacked self_delimited (rp_toc rp) fr all_ext tail maxlen pad sz out"
  proof (cases "length (lens_of fr) > 2 \<or> (pad \<and> size1 < maxlen) \<or> all_ext \<noteq> []")
    case True
    then have "repack_code3 (rp_toc rp) (lens_of fr) (self_delimited_size self_delimited (lens_of fr)) maxlen pad all_ext = Inr (sz, hdr2, pl)"
      using r3 sz by simp
    from repack_code3_ok [OF R(4,2,3) m R(5,6) x this] show ?thesis using f by simp
  next
    case False
    have "length fr \<le> 2" "length fr \<noteq> 0" using False R(2) by auto
    then have "length fr = 1 \<or> length fr = 2" by linarith
    from code012_repacked [OF R(4) this R(3) m r1, of pad] show ?thesis using False r3 f sz by auto
  qed
  then show "\<exists>all_ext. collect_extensions (total_ext_count extensions (range_of (rp_paddings rp) bgn fin)) 0 (range_of (rp_paddings rp) bgn fin) extensions = Inr all_ext
    \<and> repacked self_delimited (rp_toc rp) (range_of (rp_frames rp) bgn fin) all_ext tail maxlen pad sz out"
    using c unfolding fr_def pds_def by blast
qed

abbreviation fresh :: OpusRepacketizer where "fresh \<equiv> opus_repacketizer_init stack_repacketizer"

lemma fresh_ok: "rp_ok fresh" "rp_nb_frames fresh = 0"
  by (simp_all add: rp_ok_def opus_repacketizer_init_def stack_repacketizer_def)

lemma parse_packet_ok:
  assumes "bytes data" "opus_packet_parse_impl data (int (length data)) self_delimited False = Inr p"
  shows "packet_ok data self_delimited p" "data \<noteq> []"
  using assms(2) by (cases rule: parse_impl_cases [OF assms(1), of self_delimited]; auto)+

lemma repacked_parse:
  assumes "repacked self_delimited toc fr all_ext tail maxlen pad sz out"
  obtains p where "opus_packet_parse_impl (out @ tail) (int (length (out @ tail))) self_delimited False = Inr p" "packet_frames (out @ tail) p = fr"
    "pk_packet_offset p = sz" "pk_toc p AND 252 = toc AND 252" "\<not> pad \<and> all_ext = [] \<longrightarrow> packet_padding (out @ tail) p = []"
    "opus_packet_extensions_parse (packet_padding (out @ tail) p) (int (length (packet_padding (out @ tail) p))) (length all_ext) = (None, sort_key ext_frame all_ext)"
  using assms unfolding repacked_def packs_def by metis

section \<open>Results\<close>

text \<open>
  C14. Adding a packet keeps the state of the repacketizer sound (as many frames as counted, each of at
  most 1275 bytes, together at most 120 ms, all of the configuration of the first packet).  It
  succeeds exactly for packets that parse, agree in configuration and do not exceed 120 ms; then the
  frames of the packet are appended.  Otherwise the result is \<open>OPUS_INVALID_PACKET\<close> and the frames are
  as before; no byte outside of the packet is read.
\<close>

theorem repacketizer_cat_sound:
  assumes "rp_ok rp" "bytes data" "opus_repacketizer_cat_impl rp data (int (length data)) self_delimited = (err, rp')"
  shows "rp_ok rp' \<and> (err = None \<longleftrightarrow> (\<exists>p. opus_packet_parse_impl data (int (length data)) self_delimited False = Inr p \<and>
      (rp_nb_frames rp = 0 \<or> rp_toc rp AND 252 = data ! 0 AND 252) \<and>
      (pk_count p + rp_nb_frames rp) * opus_packet_get_samples_per_frame (data ! 0) 8000 \<le> 960))
    \<and> (case err of None \<Rightarrow> \<exists>p. opus_packet_parse_impl data (int (length data)) self_delimited False = Inr p
          \<and> rp_frames rp' = rp_frames rp @ packet_frames data p \<and> rp_toc rp' AND 252 = data ! 0 AND 252
        | Some e \<Rightarrow> e = OPUS_INVALID_PACKET \<and> rp_frames rp' = rp_frames rp \<and> rp_nb_frames rp' = rp_nb_frames rp)"
proof (cases rule: parse_impl_cases [OF assms(2), of self_delimited, case_names invalid parsed])
  case invalid
  then show ?thesis using assms(3) rp_config_ok(1) [OF assms(1)] assms(1,2)
    by (auto simp: cat_impl_eq [OF assms(1,2)] rp_config_def bytes_nth split: if_splits)
next
  case (parsed p)
  have t: "pk_toc p = data ! 0" "is_byte (pk_toc p)" using parsed assms(2) by (auto simp: packet_ok_def bytes_nth)
  have k: "rp_frames (rp_config rp t) = rp_frames rp" "rp_nb_frames (rp_config rp t) = rp_nb_frames rp" for t by (auto simp: rp_config_def)
  show ?thesis
  proof (cases "rp_accepts rp p")
    case True
    then have "rp' = rp_add (rp_config rp (pk_toc p)) data p" "err = None" using assms(3) parsed(1) by (auto simp: cat_impl_eq [OF assms(1,2)])
    moreover have "rp_toc (rp_add (rp_config rp (pk_toc p)) data p) AND 252 = data ! 0 AND 252"
      using rp_config_ok(4) [OF assms(1) t(2)] True t by (auto simp: rp_add_def rp_accepts_def)
    ultimately show ?thesis using rp_add_ok [OF assms(1,2) parsed(3,2) True] True parsed(1) t(1) k by (auto simp: rp_add_def rp_accepts_def)
  next
    case False
    then have "err = Some OPUS_INVALID_PACKET" "rp' = (if rp_nb_frames rp = 0 \<or> rp_toc rp AND 252 = pk_toc p AND 252 then rp_config rp (pk_toc p) else rp)"
      using assms(3) parsed(1) by (auto simp: cat_impl_eq [OF assms(1,2)])
    then show ?thesis using False rp_config_ok(1) [OF assms(1) t(2)] assms(1) parsed(1) t(1) k by (auto simp: rp_accepts_def)
  qed
qed

theorem repacketizer_cat_sound_witness:
  "rp_ok (snd (opus_repacketizer_cat_impl (opus_repacketizer_init stack_repacketizer) [131, 66, 3, 7, 7, 9, 9, 0, 0, 0] 10 False))"
proof -
  have "rp_ok fresh" "bytes [131, 66, 3, 7, 7, 9, 9, 0, 0, 0]" by (rule fresh_ok, code_simp)
  from repacketizer_cat_sound [OF this surjective_pairing, of False] show ?thesis by simp
qed

text \<open>
  C10. Writing a range of the collected frames round trips, in both framings, with or without padding
  and extensions, and whatever follows a self-delimited packet: the output has the reported size,
  which is at most \<open>maxlen\<close> and equal to it when padding is asked for; parsing it gives back exactly
  the frames of the range and the configuration; its padding holds the extensions that were passed
  in and those collected from the packets, sorted by frame.
\<close>

theorem repacketizer_out_sound:
  assumes "rp_ok rp" "list_all ext_sound extensions" "\<not> self_delimited \<longrightarrow> tail = []"
    and "opus_repacketizer_out_range_impl rp bgn fin maxlen self_delimited pad extensions = Inr (sz, out)"
  shows "\<exists>all_ext p. collect_extensions (total_ext_count extensions (range_of (rp_paddings rp) bgn fin)) 0 (range_of (rp_paddings rp) bgn fin) extensions = Inr all_ext
    \<and> bytes out \<and> int (length out) = sz \<and> 0 < sz \<and> sz \<le> maxlen \<and> (pad \<longrightarrow> sz = maxlen)
    \<and> opus_packet_parse_impl (out @ tail) (int (length (out @ tail))) self_delimited False = Inr p
    \<and> packet_frames (out @ tail) p = range_of (rp_frames rp) bgn fin \<and> pk_packet_offset p = sz \<and> pk_toc p AND 252 = rp_toc rp AND 252
    \<and> opus_packet_extensions_parse (packet_padding (out @ tail) p) (int (length (packet_padding (out @ tail) p))) (length all_ext)
        = (None, sort_key ext_frame all_ext)"
proof -
  obtain all_ext where a: "collect_extensions (total_ext_count extensions (range_of (rp_paddings rp) bgn fin)) 0 (range_of (rp_paddings rp) bgn fin) extensions = Inr all_ext"
    and r: "repacked self_delimited (rp_toc rp) (range_of (rp_frames rp) bgn fin) all_ext tail maxlen pad sz out"
    using out_range_ok(4) [OF assms] by blast
  have l: "bytes out \<and> int (length out) = sz \<and> 0 < sz \<and> sz \<le> maxlen \<and> (pad \<longrightarrow> sz = maxlen)" using r unfolding repacked_def by blast
  show ?thesis by (rule repacked_parse [OF r]) (use a l in blast)
qed

theorem repacketizer_out_sound_witness:
  "\<exists>p. opus_packet_parse_impl [130, 1, 7, 8, 9] 5 False False = Inr p \<and> packet_frames [130, 1, 7, 8, 9] p = [[7], [8, 9]]"
proof -
  let ?rp = "\<lparr>rp_toc = 128, rp_nb_frames = 3, rp_frames = [[7], [8, 9], [6]], rp_framesize = 20, rp_paddings = [[], [], []]\<rparr>"
  have "rp_ok ?rp" by (simp add: rp_ok_def frame_size_ok_def is_byte_def opus_packet_get_samples_per_frame_def)
  moreover have "opus_repacketizer_out_range_impl ?rp 0 2 10 False False [] = Inr (5, [130, 1, 7, 8, 9])" by code_simp
  ultimately show ?thesis using repacketizer_out_sound [of ?rp "[]" False "[]" 0 2 10 False 5 "[130, 1, 7, 8, 9]"]
    by (auto simp: range_of_def eval_nat_numeral)
qed

end
