(* ===== verification/Opus_Padding.thy ===== *)
theory Opus_Padding
  imports Opus_Repacketizer
begin

text \<open>
  Padding and unpadding of packets and of multistream packets (the second half of
  \<open>src/repacketizer.c\<close>), which drive the repacketizer; the packet of least size that a list of frames
  needs; copying frames inside one buffer.
\<close>

section \<open>Definitions\<close>

text \<open>
  Copying the frames, given by their offsets and sizes, when input and output are the same buffer:
  each frame is read when its turn comes, after the bytes before \<open>pos\<close> have been overwritten.
\<close>

fun move_frames :: "int list \<Rightarrow> nat \<Rightarrow> (int \<times> int) list \<Rightarrow> int list" where
  "move_frames bs pos [] = bs"
| "move_frames bs pos ((off, sz) # fs) = move_frames (blit bs pos (take (nat sz) (drop (nat off) bs))) (pos + nat sz) fs"

text \<open>
  An error carries no bytes: what the buffer holds after a failed call is not modelled, as the source
  may have written the start of a packet when it finds the space too small.
\<close>

definition opus_packet_pad_impl :: "int list \<Rightarrow> int \<Rightarrow> int \<Rightarrow> bool \<Rightarrow> opus_extension_data list \<Rightarrow> opus_error + int \<times> int list" where
  "opus_packet_pad_impl data len new_len pad extensions =
    (if len < 1 then Inl OPUS_BAD_ARG
     else if len = new_len then Inr (0, data)
     else if len > new_len then Inl OPUS_BAD_ARG
     else case opus_repacketizer_cat (opus_repacketizer_init stack_repacketizer) (take (nat len) data) len of
         (Some e, rp) \<Rightarrow> Inl e
       | (None, rp) \<Rightarrow> opus_repacketizer_out_range_impl rp 0 (rp_nb_frames rp) new_len False pad extensions)"

definition opus_packet_pad :: "int list \<Rightarrow> int \<Rightarrow> int \<Rightarrow> opus_error + int list" where
  "opus_packet_pad data len new_len =
    and_then (opus_packet_pad_impl data len new_len True []) (\<lambda>(ret, out). Inr out)"

definition discard_paddings :: "OpusRepacketizer \<Rightarrow> OpusRepacketizer" where
  "discard_paddings rp = rp\<lparr>rp_paddings := map (\<lambda>_. []) (rp_paddings rp)\<rparr>"

definition opus_packet_unpad :: "int list \<Rightarrow> int \<Rightarrow> opus_error + int \<times> int list" where
  "opus_packet_unpad data len =
    (if len < 1 then Inl OPUS_BAD_ARG
     else case opus_repacketizer_cat (opus_repacketizer_init stack_repacketizer) data len of
         (Some e, rp) \<Rightarrow> Inl e
       | (None, rp) \<Rightarrow> opus_repacketizer_out_range_impl (discard_paddings rp) 0 (rp_nb_frames rp) len False False [])"

text \<open>The number of bytes of the streams before the last one.\<close>

fun seek_last_stream :: "nat \<Rightarrow> int list \<Rightarrow> int \<Rightarrow> opus_error + int" where
  "seek_last_stream 0 data pos = Inr pos"
| "seek_last_stream (Suc n) data pos =
    (if int (length data) \<le> 0 then Inl OPUS_INVALID_PACKET
     else and_then (opus_packet_parse_impl data (int (length data)) True False) (\<lambda>p.
       seek_last_stream n (drop (nat (pk_packet_offset p)) data) (pos + pk_packet_offset p)))"

definition opus_multistream_packet_pad :: "int list \<Rightarrow> int \<Rightarrow> nat \<Rightarrow> opus_error + int list" where
  "opus_multistream_packet_pad data new_len nb_streams =
    (let len = int (length data)
     in if len < 1 then Inl OPUS_BAD_ARG
        else if len = new_len then Inr data
        else if len > new_len then Inl OPUS_BAD_ARG
        else and_then (seek_last_stream (nb_streams - 1) data 0) (\<lambda>pos.
          let rest = drop (nat pos) data
          in and_then (opus_packet_pad rest (int (length rest)) (int (length rest) + (new_len - len))) (\<lambda>out.
            Inr (take (nat pos) data @ out))))"

text \<open>
  The streams still to be unpadded, the last of them not self-delimited, and the output so far, which
  is kept apart from the input although the source writes it into the same buffer.
\<close>

fun unpad_streams :: "nat \<Rightarrow> int list \<Rightarrow> int list \<Rightarrow> opus_error + int list" where
  "unpad_streams 0 data dst = Inr dst"
| "unpad_streams (Suc n) data dst =
    (let self_delimited = (n \<noteq> 0); len = int (length data)
     in if len \<le> 0 then Inl OPUS_INVALID_PACKET
        else and_then (opus_packet_parse_impl data len self_delimited False) (\<lambda>p.
          case opus_repacketizer_cat_impl (opus_repacketizer_init stack_repacketizer)
              (take (nat (pk_packet_offset p)) data) (pk_packet_offset p) self_delimited of
            (Some e, rp) \<Rightarrow> Inl e
          | (None, rp) \<Rightarrow>
              and_then (opus_repacketizer_out_range_impl (discard_paddings rp) 0 (rp_nb_frames rp) len self_delimited False []) (\<lambda>(ret, out).
                unpad_streams n (drop (nat (pk_packet_offset p)) data) (dst @ out))))"

definition opus_multistream_packet_unpad :: "int list \<Rightarrow> nat \<Rightarrow> opus_error + int list" where
  "opus_multistream_packet_unpad data nb_streams =
    (if int (length data) < 1 then Inl OPUS_BAD_ARG else unpad_streams nb_streams data [])"

section \<open>Packets without padding\<close>

text \<open>The packet of least size for the frames \<open>fr\<close>, by its definition and as the repacketizer writes it.\<close>

definition plain_header :: "int \<Rightarrow> int list \<Rightarrow> int list" where
  "plain_header toc lens =
    (if length lens = 1 then [toc AND 252]
     else if length lens = 2 then (if lens ! 1 = lens ! 0 then [(toc AND 252) OR 1] else ((toc AND 252) OR 2) # encode_size (lens ! 0))
     else [(toc AND 252) OR 3, if vbr_of lens then int (length lens) OR 128 else int (length lens)] @ sizes_of lens)"

definition plain_packet :: "bool \<Rightarrow> int \<Rightarrow> int list list \<Rightarrow> int list" where
  "plain_packet self_delimited toc fr = plain_header toc (lens_of fr) @ sd_bytes self_delimited (last (lens_of fr)) @ concat fr"

lemma plain_code012:
  assumes fr: "length fr = 1 \<or> length fr = 2" "list_all frame_size_ok (lens_of fr)"
  shows "repack_code012 toc (lens_of fr) (self_delimited_size self_delimited (lens_of fr)) maxlen =
    (if int (length (plain_packet self_delimited toc fr)) \<le> maxlen
     then Inr (int (length (plain_packet self_delimited toc fr)), plain_header toc (lens_of fr)) else Inl OPUS_BUFFER_TOO_SMALL)"
proof -
  have "fr \<noteq> []" using fr(1) by auto
  note S = sd_size [OF last_lens [OF this fr(2)], of self_delimited]
  show ?thesis
  proof (cases "length fr = 1")
    case True
    then obtain f where "fr = [f]" by (auto simp: length_Suc_conv)
    then show ?thesis using S by (simp add: repack_code012_def plain_packet_def plain_header_def)
  next
    case False
    then obtain f g where f: "fr = [f, g]" using fr(1) by (auto simp: length_Suc_conv eval_nat_numeral)
    then have "frame_size_ok (int (length f))" using fr(2) by auto
    from encode_size_props(2) [OF this] show ?thesis using f S
      by (auto simp: repack_code012_def plain_packet_def plain_header_def cbool_def)
  qed
qed

lemma plain_code3:
  assumes fr: "2 < length fr" "list_all frame_size_ok (lens_of fr)"
  shows "repack_code3 toc (lens_of fr) (self_delimited_size self_delimited (lens_of fr)) maxlen False [] =
    (if int (length (plain_packet self_delimited toc fr)) \<le> maxlen
     then Inr (int (length (plain_packet self_delimited toc fr)), plain_header toc (lens_of fr), no_pad_layout) else Inl OPUS_BUFFER_TOO_SMALL)"
proof -
  have ne: "fr \<noteq> []" using fr(1) by auto
  have h: "plain_header toc (lens_of fr) = [(toc AND 252) OR 3, if vbr_of (lens_of fr) then int (length (lens_of fr)) OR 128 else int (length (lens_of fr))] @ sizes_of (lens_of fr)"
    using fr(1) by (simp only: plain_header_def length_map) auto
  have "int (length (plain_packet self_delimited toc fr)) = code3_size (lens_of fr) (self_delimited_size self_delimited (lens_of fr)) (vbr_of (lens_of fr))"
    using length_code3 [OF ne fr(2), of self_delimited] unfolding plain_packet_def h by simp
  then show ?thesis unfolding repack_code3_def h Let_def by (simp add: no_pad_layout_def)
qed

lemma out_range_plain:
  assumes rp: "rp_ok rp" and B: "0 \<le> bgn" "bgn < fin" "fin \<le> rp_nb_frames rp" and pds: "\<forall>pd\<in>set (range_of (rp_paddings rp) bgn fin). pd = []"
    and out_def: "out = plain_packet self_delimited (rp_toc rp) (range_of (rp_frames rp) bgn fin)"
  shows "opus_repacketizer_out_range_impl rp bgn fin maxlen self_delimited False [] =
    (if int (length out) \<le> maxlen then Inr (int (length out), out) else Inl OPUS_BUFFER_TOO_SMALL)"
proof -
  define fr where "fr = range_of (rp_frames rp) bgn fin"
  note R = range_of_props [OF rp B, folded fr_def]
  have l: "list_all frame_size_ok (lens_of fr)" using R(3) by (simp add: list_all_iff)
  have out: "out = plain_packet self_delimited (rp_toc rp) fr" by (simp add: out_def fr_def)
  have "\<not> (bgn < 0 \<or> bgn \<ge> fin \<or> fin > rp_nb_frames rp)" using B by linarith
  note E = opus_repacketizer_out_range_impl_def [of rp bgn fin maxlen self_delimited False "[]", unfolded if_not_P [OF this] Let_def, folded range_of_def sd_bytes_def, folded fr_def,
    unfolded collect_none [OF pds] and_then.simps]
  have F: "fill_padding x [] False maxlen no_pad_layout = Inr x" for x by (simp add: fill_padding_def no_pad_layout_def)
  show ?thesis
  proof (cases "2 < length fr")
    case True
    then have "repack_code012 (rp_toc rp) (lens_of fr) (self_delimited_size self_delimited (lens_of fr)) maxlen = Inr (self_delimited_size self_delimited (lens_of fr), [])"
      by (simp add: repack_code012_def)
    then show ?thesis unfolding E plain_code3 [OF True l] using True F by (simp add: out plain_packet_def)
  next
    case False
    have "length fr \<le> 2" "length fr \<noteq> 0" using False R(2) by auto
    then have n: "length fr = 1 \<or> length fr = 2" by linarith
    show ?thesis unfolding E plain_code012 [OF n l] using False F by (simp add: out plain_packet_def)
  qed
qed

lemma plain_repacked:
  assumes rp: "rp_ok rp" and B: "0 \<le> bgn" "bgn < fin" "fin \<le> rp_nb_frames rp" and pds: "\<forall>pd\<in>set (range_of (rp_paddings rp) bgn fin). pd = []"
    and m: "\<not> self_delimited \<longrightarrow> tail = []"
    and out_def: "out = plain_packet self_delimited (rp_toc rp) (range_of (rp_frames rp) bgn fin)"
  shows "repacked self_delimited (rp_toc rp) (range_of (rp_frames rp) bgn fin) [] tail (int (length out)) False (int (length out)) out"
  using out_range_ok(4) [OF rp _ m, of "[]" bgn fin "int (length out)" False "int (length out)" out]
    out_range_plain [OF rp B pds out_def, of "int (length out)"] collect_none [OF pds] by simp

text \<open>The size of the header is at most two bytes per frame, and one byte for a single frame.\<close>

lemma plain_size:
  assumes "fr \<noteq> []" "list_all frame_size_ok (lens_of fr)"
  shows "int (length (plain_packet False toc fr)) \<le> (if length fr = 1 then 1276 else 1277 * int (length fr))"
    "int (length (plain_packet False toc fr)) \<le> 2 * int (length fr) + int (length (concat fr))"
proof -
  have n: "int (length (concat (map encode_size ls))) \<le> 2 * int (length ls)" if "list_all frame_size_ok ls" for ls
    using that by (induction ls) (auto simp: encode_size_props(2))
  have b: "list_all frame_size_ok (butlast (lens_of fr))" using assms(2) in_set_butlastD unfolding list_all_iff by metis
  have h: "int (length (plain_header toc (lens_of fr))) \<le> (if length fr = 1 then 1 else 2 * int (length fr))"
  proof (cases "length fr = 1 \<or> length fr = 2")
    case True
    have "frame_size_ok (lens_of fr ! 0)" using assms by (cases fr) auto
    then show ?thesis using True encode_size_props(2) by (auto simp: plain_header_def)
  next
    case False
    have "length fr \<noteq> 0" using assms(1) by simp
    then have l: "2 < length fr" using False by linarith
    have "int (length (sizes_of (lens_of fr))) \<le> 2 * (int (length fr) - 1)" using n [OF b] l by auto
    then show ?thesis using False by (simp only: plain_header_def) simp
  qed
  have c: "int (length (concat fr)) \<le> 1275 * int (length fr)" using assms(2)
    by (induction fr) (auto simp: frame_size_ok_def)
  show "int (length (plain_packet False toc fr)) \<le> (if length fr = 1 then 1276 else 1277 * int (length fr))"
    "int (length (plain_packet False toc fr)) \<le> 2 * int (length fr) + int (length (concat fr))"
    using h c by (auto simp: plain_packet_def sd_bytes_def split: if_splits)
qed

section \<open>Unpadding makes packets shorter\<close>

lemma parse_size_bytes:
  assumes "parse_size data pos len = Inr (nb, sz)" "0 \<le> sz"
  shows "nb = int (length (encode_size sz))"
proof (cases "len < 1")
  case False
  then obtain b where b: "read_byte data pos = Inr b" using assms by (auto simp: parse_size_def and_then_Inr)
  note B = read_byte_is_byte [OF b]
  show ?thesis
  proof (cases "b < 252")
    case True
    then show ?thesis using assms b False by (auto simp: parse_size_def encode_size_def)
  next
    case nb: False
    then obtain c where c: "read_byte data (pos + 1) = Inr c" "nb = 2" "sz = i16 (4 * c + b)"
      using assms b False by (auto simp: parse_size_def and_then_Inr split: if_splits)
    then show ?thesis using nb B read_byte_is_byte [OF c(1)] by (simp add: encode_size_def is_byte_def Let_def)
  qed
qed (use assms in \<open>simp add: parse_size_def\<close>)

lemma parse_padding_pos: "parse_padding data pos len pad = Inr (pos', len', pad') \<Longrightarrow> pos < pos' \<and> pad \<le> pad'"
proof (induction data pos len pad rule: parse_padding.induct)
  case (1 data pos len pad)
  show ?case
  proof (cases "len \<le> 0")
    case False
    then obtain p where p: "read_byte data pos = Inr p" using "1.prems" by (subst (asm) parse_padding.simps) (auto simp: and_then_Inr)
    show ?thesis using "1.IH" [OF False p refl] "1.prems" False p read_byte_is_byte [OF p]
      by (subst (asm) (2) parse_padding.simps) (auto simp: Let_def is_byte_def split: if_splits)
  qed (use "1.prems" in \<open>simp add: parse_padding.simps\<close>)
qed

lemma parse_vbr_pos:
  "parse_vbr_sizes data n pos len ls = Inr (pos', len', ls', szs) \<Longrightarrow> pos' = pos + int (length (concat (map encode_size szs))) \<and> length szs = n"
proof (induction n arbitrary: pos len ls pos' len' ls' szs)
  case (Suc n)
  obtain nb sz where s: "parse_size data pos len = Inr (nb, sz)" using Suc.prems by (auto simp: and_then_Inr)
  then have "0 \<le> sz" using Suc.prems by (auto simp: Let_def split: if_splits)
  note nb = parse_size_bytes [OF s this]
  obtain szs' where v: "parse_vbr_sizes data n (pos + nb) (len - nb) (ls - (nb + sz)) = Inr (pos', len', ls', szs')" "szs = sz # szs'"
    using Suc.prems s by (auto simp: Let_def and_then_Inr split: if_splits)
  from Suc.IH [OF v(1)] show ?case using nb v(2) by simp
qed auto

text \<open>The bytes before the frames: as many as the repacketizer needs, or more.\<close>

definition min_header :: "int \<Rightarrow> int" where "min_header n = (if n \<le> 2 then 1 else 2)"

lemma parse_code_pos:
  assumes "parse_code data toc len self_delimited = Inr f"
  shows "if fr_cbr f then min_header (fr_count f) \<le> fr_pos f \<and> (\<not> self_delimited \<longrightarrow> fr_sizes f = replicate (nat (fr_count f - 1)) (i16 (fr_last_size f)))
    else min_header (fr_count f) + int (length (concat (map encode_size (fr_sizes f)))) \<le> fr_pos f \<and> length (fr_sizes f) = nat (fr_count f - 1)"
proof (cases "toc AND 3 = 0 \<or> toc AND 3 = 1 \<or> toc AND 3 = 2")
  case True
  have "0 \<le> sz \<Longrightarrow> parse_size data 1 len = Inr (nb, sz) \<Longrightarrow> int (length (encode_size sz)) = nb" for nb sz using parse_size_bytes by simp
  then show ?thesis using True assms by (auto simp: parse_code_def min_header_def Let_def and_then_Inr split: if_splits)
next
  case False
  then obtain ch pos len' pad where ch: "read_byte data 1 = Inr ch"
      "(if ch AND 64 \<noteq> 0 then parse_padding data 2 (len - 1) 0 else Inr (2, len - 1, 0)) = Inr (pos, len', pad)"
      "parse_code3_frames data self_delimited (ch AND 128 = 0) (ch AND 63) len (pos, len', pad) = Inr f"
    using assms by (auto simp: parse_code_def parse_code3_def Let_def and_then_Inr simp del: if_split split: if_split_asm)
  have "2 \<le> pos" using ch(2) parse_padding_pos [of data 2 "len - 1" 0 pos len' pad] by (auto split: if_splits)
  then show ?thesis using ch(3) parse_vbr_pos by (fastforce simp: parse_code3_frames_def min_header_def Let_def and_then_Inr split: if_splits)
qed

lemma plain_header_min:
  assumes "lens \<noteq> []"
  shows "int (length (plain_header toc lens)) \<le> min_header (int (length lens)) + int (length (concat (map encode_size (butlast lens))))"
    "\<forall>l\<in>set lens. l = lens ! 0 \<Longrightarrow> int (length (plain_header toc lens)) \<le> min_header (int (length lens))"
proof -
  have v: "\<not> vbr_of lens" if "\<forall>l\<in>set lens. l = lens ! 0" using that assms by (cases lens) (auto simp: list_ex_iff)
  have "\<exists>a. lens = [a]" if "length lens = 1" using that by (auto simp: length_Suc_conv)
  moreover have "\<exists>a b. lens = [a, b]" if "length lens = 2" using that by (auto simp: length_Suc_conv eval_nat_numeral)
  ultimately have s: "butlast lens = [lens ! 0]" if "length lens = 2" using that by fastforce
  have "length lens \<noteq> 0" using assms by simp
  then have n: "length lens = 1 \<or> length lens = 2 \<or> 2 < length lens" by linarith
  show "int (length (plain_header toc lens)) \<le> min_header (int (length lens)) + int (length (concat (map encode_size (butlast lens))))"
    using s n by (auto simp: plain_header_def min_header_def)
  show "int (length (plain_header toc lens)) \<le> min_header (int (length lens))" if "\<forall>l\<in>set lens. l = lens ! 0"
  proof (cases "length lens = 2")
    case True
    then have "lens ! 1 = lens ! 0" using that nth_mem [of 1 lens] by simp
    then show ?thesis using True by (simp add: plain_header_def min_header_def)
  next
    case False
    then show ?thesis using v [OF that] n by (auto simp: plain_header_def min_header_def)
  qed
qed

lemma const_nth: "\<forall>l\<in>set (replicate k x @ [x]). l = (replicate k x @ [x]) ! 0"
  by (cases k) auto

lemma plain_min:
  assumes d: "bytes data" and p: "opus_packet_parse_impl data (int (length data)) self_delimited False = Inr p"
  shows "int (length (plain_header toc (pk_size p))) + int (length (sd_bytes self_delimited (last (pk_size p)))) \<le> pk_payload_offset p"
    "int (length (plain_packet self_delimited toc (packet_frames data p))) \<le> pk_packet_offset p - pk_padding_len p"
proof -
  obtain ok: "packet_ok data self_delimited p"
    using p by (cases rule: parse_impl_cases [OF d, of self_delimited]) auto
  note F = parsed_frames [OF d ok]
  have l: "list_all frame_size_ok (pk_size p)" "pk_size p \<noteq> []" using ok by (auto simp: packet_ok_def)
  obtain toc' f where f: "parse_code data toc' (int (length data) - 1) self_delimited = Inr f" "parse_last_size data self_delimited f = Inr (pk_payload_offset p, pk_size p)"
    "pk_count p = fr_count f"
    using p by (auto simp: opus_packet_parse_impl_def and_then_Inr Let_def split: if_splits)
  note C = parse_code_pos [OF f(1)]
  have n: "int (length (pk_size p)) = fr_count f" using ok f(3) by (simp add: packet_ok_def)
  show h: "int (length (plain_header toc (pk_size p))) + int (length (sd_bytes self_delimited (last (pk_size p)))) \<le> pk_payload_offset p"
  proof (cases self_delimited)
    case True
    then obtain nb sz where s: "parse_size data (fr_pos f) (fr_len f) = Inr (nb, sz)" using f(2) by (auto simp: parse_last_size_def and_then_Inr)
    then have "0 \<le> sz" "pk_payload_offset p = fr_pos f + nb" "pk_size p = (if fr_cbr f then replicate (nat (fr_count f - 1)) sz @ [sz] else fr_sizes f @ [sz])"
      using f(2) True by (auto simp: parse_last_size_def Let_def split: if_splits)
    then show ?thesis using True C n parse_size_bytes [OF s] plain_header_min [OF l(2), of toc] const_nth [of "nat (fr_count f - 1)" sz]
      by (cases "fr_cbr f") (simp_all add: sd_bytes_def)
  next
    case False
    then have "pk_payload_offset p = fr_pos f" "pk_size p = fr_sizes f @ [i16 (fr_last_size f)]"
      using f(2) by (auto simp: parse_last_size_def split: if_splits)
    then show ?thesis using False C n plain_header_min [OF l(2), of toc] const_nth [of "nat (fr_count f - 1)" "i16 (fr_last_size f)"]
      by (cases "fr_cbr f") (simp_all add: sd_bytes_def)
  qed
  have "int (length (concat (packet_frames data p))) = sum_list (pk_size p)" using sum_lens [of "packet_frames data p"] F(1) by simp
  then show "int (length (plain_packet self_delimited toc (packet_frames data p))) \<le> pk_packet_offset p - pk_padding_len p"
    using h ok by (simp add: plain_packet_def F(1) packet_ok_def)
qed

lemma fresh_cat:
  assumes d: "bytes data" and p: "opus_packet_parse_impl data (int (length data)) self_delimited False = Inr p"
  defines "rp \<equiv> rp_add (rp_config fresh (pk_toc p)) data p"
  shows "opus_repacketizer_cat_impl fresh data (int (length data)) self_delimited = (None, rp)" "rp_ok rp"
    "rp_toc rp = pk_toc p" "rp_nb_frames rp = pk_count p" "rp_frames rp = packet_frames data p"
    "rp_paddings rp = packet_padding data p # replicate (nat (pk_count p - 1)) []" "0 < pk_count p" "rp_nb_frames rp = int (length (rp_frames rp))"
proof -
  note ok = parse_packet_ok [OF d p]
  have "pk_count p * opus_packet_get_samples_per_frame (pk_toc p) 48000 \<le> 5760" using ok(1) unfolding packet_ok_def by blast
  then have a: "rp_accepts fresh p" unfolding samples_48k_8k by (simp add: rp_accepts_def fresh_ok(2))
  show "opus_repacketizer_cat_impl fresh data (int (length data)) self_delimited = (None, rp)"
    using a p by (simp add: cat_impl_eq [OF fresh_ok(1) d] rp_def)
  show "rp_ok rp" unfolding rp_def by (rule rp_add_ok [OF fresh_ok(1) d ok(2,1) a])
  then show "rp_nb_frames rp = int (length (rp_frames rp))" by (simp add: rp_ok_def)
  show "0 < pk_count p" using ok(1) by (simp add: packet_ok_def)
  show "rp_toc rp = pk_toc p" "rp_nb_frames rp = pk_count p" "rp_frames rp = packet_frames data p"
    "rp_paddings rp = packet_padding data p # replicate (nat (pk_count p - 1)) []"
    by (simp_all add: rp_def rp_add_def rp_config_def opus_repacketizer_init_def stack_repacketizer_def)
qed

lemma discard_ok: "rp_ok rp \<Longrightarrow> rp_ok (discard_paddings rp)"
  by (auto simp: rp_ok_def discard_paddings_def)

lemma range_all: "n = int (length xs) \<Longrightarrow> range_of xs 0 n = xs"
  by (simp add: range_of_def)

lemma discard_out:
  assumes "rp_ok rp" "0 < rp_nb_frames rp" and P: "P = plain_packet self_delimited (rp_toc rp) (rp_frames rp)"
  shows "opus_repacketizer_out_range_impl (discard_paddings rp) 0 (rp_nb_frames rp) maxlen self_delimited False [] =
    (if int (length P) \<le> maxlen then Inr (int (length P), P) else Inl OPUS_BUFFER_TOO_SMALL)"
    "(\<not> self_delimited \<longrightarrow> tail = []) \<Longrightarrow> repacked self_delimited (rp_toc rp) (rp_frames rp) [] tail (int (length P)) False (int (length P)) P"
proof -
  have n: "rp_nb_frames rp = int (length (rp_frames rp))" "0 < rp_nb_frames (discard_paddings rp)" "rp_nb_frames rp \<le> rp_nb_frames (discard_paddings rp)"
    using assms by (auto simp: rp_ok_def discard_paddings_def)
  have pds: "\<forall>pd\<in>set (range_of (rp_paddings (discard_paddings rp)) 0 (rp_nb_frames rp)). pd = []"
    by (auto simp: range_of_def discard_paddings_def dest!: in_set_takeD)
  have r: "rp_toc (discard_paddings rp) = rp_toc rp" "range_of (rp_frames (discard_paddings rp)) 0 (rp_nb_frames rp) = rp_frames rp"
    using range_all [OF n(1)] by (simp_all add: discard_paddings_def)
  note D = discard_ok [OF assms(1)]
  show "opus_repacketizer_out_range_impl (discard_paddings rp) 0 (rp_nb_frames rp) maxlen self_delimited False [] =
    (if int (length P) \<le> maxlen then Inr (int (length P), P) else Inl OPUS_BUFFER_TOO_SMALL)"
    using out_range_plain [OF D _ assms(2) n(3) pds refl, of maxlen self_delimited] r P by simp
  show "repacked self_delimited (rp_toc rp) (rp_frames rp) [] tail (int (length P)) False (int (length P)) P" if "\<not> self_delimited \<longrightarrow> tail = []"
    using plain_repacked [OF D _ assms(2) n(3) pds that refl] r P by simp
qed

lemma unpad_eq:
  assumes d: "bytes data" and p: "opus_packet_parse_impl data (int (length data)) False False = Inr p"
  defines "P \<equiv> plain_packet False (pk_toc p) (packet_frames data p)"
  shows "opus_packet_unpad data (int (length data)) = Inr (int (length P), P)" "int (length P) \<le> int (length data) - pk_padding_len p"
    "repacked False (pk_toc p) (packet_frames data p) [] [] (int (length P)) False (int (length P)) P"
proof -
  note c = fresh_cat [OF d p]
  note ok = parse_packet_ok [OF d p]
  have "pk_packet_offset p = int (length data)" using ok(1) by (simp add: packet_ok_def)
  then show le: "int (length P) \<le> int (length data) - pk_padding_len p" using plain_min(2) [OF d p, of "pk_toc p"] by (simp add: P_def)
  then have "int (length P) \<le> int (length data)" using ok(1) by (simp add: packet_ok_def)
  moreover have "\<not> int (length data) < 1" using ok(2) by (simp add: not_less Suc_le_eq)
  ultimately show "opus_packet_unpad data (int (length data)) = Inr (int (length P), P)"
    using discard_out(1) [OF c(2), of P False "int (length data)"] c(1,3-7)
    by (simp add: opus_packet_unpad_def opus_repacketizer_cat_def P_def)
  show "repacked False (pk_toc p) (packet_frames data p) [] [] (int (length P)) False (int (length P)) P"
    using discard_out(2) [OF c(2) _ refl, of False "[]"] c(3-5,7) by (simp add: P_def)
qed

lemma plain_toc: "a AND 252 = b AND 252 \<Longrightarrow> plain_packet self_delimited a fr = plain_packet self_delimited b fr"
  by (simp add: plain_packet_def plain_header_def)

section \<open>Streams\<close>

text \<open>A self-delimited packet is parsed in the same way without the bytes that follow it.\<close>

lemma read_byte_take: "i < int m \<Longrightarrow> read_byte (take m data) i = read_byte data i"
  by (auto simp: read_byte_def)

lemma parse_size_take:
  assumes "parse_size data pos len = Inr (nb, sz)" "0 \<le> sz" "pos + nb \<le> int m" "nb \<le> len'"
  shows "parse_size (take m data) pos len' = Inr (nb, sz)"
proof -
  have l: "\<not> len < 1" using assms(1,2) by (auto simp: parse_size_def)
  then obtain b where b: "read_byte data pos = Inr b" using assms(1) by (auto simp: parse_size_def and_then_Inr)
  have nb: "nb = (if b < 252 then 1 else 2)" using assms(1,2) l b by (auto simp: parse_size_def and_then_Inr split: if_splits)
  then have r: "read_byte (take m data) pos = Inr b" using assms(3) b by (subst read_byte_take) (auto split: if_splits)
  show ?thesis
  proof (cases "b < 252")
    case True
    then show ?thesis using assms l b r nb by (simp add: parse_size_def)
  next
    case False
    then have "read_byte (take m data) (pos + 1) = read_byte data (pos + 1)" using nb assms(3) by (intro read_byte_take) simp
    then show ?thesis using False assms l b r nb by (simp add: parse_size_def and_then_Inr split: if_splits)
  qed
qed

lemma parse_padding_take:
  assumes "parse_padding data pos len pad = Inr (pos', len', pad')" "0 \<le> pad" "pos + len + pad = int (length data)" "pos' + pad' \<le> int m" "m \<le> length data" "0 \<le> pos"
  shows "parse_padding (take m data) pos (len - int (length data - m)) pad = Inr (pos', len' - int (length data - m), pad') \<and> pos' + len' + pad' = int (length data) \<and> 0 \<le> pad'"
  using assms
proof (induction data pos len pad rule: parse_padding.induct)
  case (1 data pos len pad)
  have "\<not> len \<le> 0" using "1.prems"(1) by (subst (asm) parse_padding.simps) auto
  then obtain p where p: "read_byte data pos = Inr p" using "1.prems"(1) by (subst (asm) parse_padding.simps) (auto simp: and_then_Inr)
  define tmp where "tmp = (if p = 255 then 254 else p)"
  have t: "0 \<le> tmp" using read_byte_is_byte [OF p] by (auto simp: tmp_def is_byte_def)
  note E = parse_padding.simps [of data pos len pad, unfolded p and_then.simps Let_def, folded tmp_def]
  have k: "pos < pos'" using parse_padding_pos "1.prems"(1) by blast
  show ?case
  proof (cases "p = 255")
    case True
    then have n: "parse_padding data (pos + 1) (len - 1 - tmp) (pad + tmp) = Inr (pos', len', pad')" using "1.prems"(1) E \<open>\<not> len \<le> 0\<close> by simp
    have IH: "parse_padding (take m data) (pos + 1) (len - 1 - tmp - int (length data - m)) (pad + tmp) = Inr (pos', len' - int (length data - m), pad')
        \<and> pos' + len' + pad' = int (length data) \<and> 0 \<le> pad'"
      using "1.IH" [OF \<open>\<not> len \<le> 0\<close> p tmp_def True] n "1.prems" t by simp
    have g: "pad + tmp \<le> pad'" using parse_padding_pos [OF n] by simp
    have "read_byte (take m data) pos = Inr p" using p k "1.prems"(4) IH by (subst read_byte_take) auto
    moreover have "\<not> len - int (length data - m) \<le> 0" using "1.prems" k g t IH by (simp add: of_nat_diff)
    ultimately show ?thesis using IH True by (subst parse_padding.simps) (simp add: tmp_def algebra_simps)
  next
    case False
    then have n: "pos' = pos + 1" "len' = len - 1 - tmp" "pad' = pad + tmp" using "1.prems"(1) E \<open>\<not> len \<le> 0\<close> by simp_all
    have "read_byte (take m data) pos = Inr p" using p n t "1.prems" by (subst read_byte_take) auto
    moreover have "\<not> len - int (length data - m) \<le> 0" using "1.prems" n t by (simp add: of_nat_diff)
    ultimately show ?thesis using False n t "1.prems" by (subst parse_padding.simps) (simp add: tmp_def algebra_simps)
  qed
qed

lemma parse_vbr_take:
  assumes "parse_vbr_sizes data n pos len ls = Inr (pos', len', ls', szs)" "pos' + sum_list szs \<le> pos + len - D" "pos + len - D \<le> int m"
  shows "parse_vbr_sizes (take m data) n pos (len - D) (ls - D) = Inr (pos', len' - D, ls' - D, szs) \<and> pos \<le> pos' \<and> list_all (\<lambda>s. 0 \<le> s) szs \<and> pos' + len' = pos + len
    \<and> ls' = ls - (len - len') - sum_list szs"
  using assms
proof (induction n arbitrary: pos len ls pos' len' ls' szs)
  case (Suc n)
  obtain nb sz where s: "parse_size data pos len = Inr (nb, sz)" using Suc.prems by (auto simp: and_then_Inr)
  then have z: "0 \<le> sz" using Suc.prems by (auto simp: Let_def split: if_splits)
  note nb = parse_size_bytes [OF s z]
  obtain szs' where v: "parse_vbr_sizes data n (pos + nb) (len - nb) (ls - (nb + sz)) = Inr (pos', len', ls', szs')" "szs = sz # szs'"
    using Suc.prems s by (auto simp: Let_def and_then_Inr split: if_splits)
  have IH: "parse_vbr_sizes (take m data) n (pos + nb) (len - nb - D) (ls - (nb + sz) - D) = Inr (pos', len' - D, ls' - D, szs') \<and> pos + nb \<le> pos' \<and> list_all (\<lambda>s. 0 \<le> s) szs'
      \<and> pos' + len' = pos + nb + (len - nb) \<and> ls' = ls - (nb + sz) - (len - nb - len') - sum_list szs'"
    using Suc.prems v z by (intro Suc.IH) auto
  have "0 \<le> sum_list szs'" using IH by (intro sum_list_nonneg) (auto simp: list_all_iff)
  then have a: "pos + nb + sz \<le> pos + len - D" using IH Suc.prems(2) v(2) by simp
  have "parse_size (take m data) pos (len - D) = Inr (nb, sz)" using a z Suc.prems(3) by (intro parse_size_take [OF s]) auto
  then show ?case using IH v(2) z a nb by (simp add: algebra_simps)
qed simp

definition cut_framing :: "int \<Rightarrow> framing \<Rightarrow> framing" where
  "cut_framing D f = f\<lparr>fr_len := fr_len f - D, fr_last_size := fr_last_size f - D\<rparr>"

lemma code3_frames_take:
  assumes c: "parse_code3_frames data True cbr cnt len0 (pos, len, pad) = Inr f" and m: "fr_pos f + sum_list (fr_sizes f) + fr_pad f \<le> int m"
    and D: "pos + len + pad = int (length data)" "D = int (length data) - int m" "0 \<le> pad"
  shows "parse_code3_frames (take m data) True cbr cnt (len0 - D) (pos, len - D, pad) = Inr (cut_framing D f) \<and> fr_pad f = pad \<and> pos \<le> fr_pos f \<and> 0 \<le> sum_list (fr_sizes f)"
proof (cases cbr)
  case True
  then show ?thesis using c m D by (auto simp: parse_code3_frames_def cut_framing_def split: if_splits)
next
  case False
  then obtain pos' len' ls' szs where v: "parse_vbr_sizes data (nat (cnt - 1)) pos len len = Inr (pos', len', ls', szs)" "\<not> ls' < 0" "\<not> len < 0"
      "f = \<lparr>fr_count = cnt, fr_cbr = cbr, fr_pos = pos', fr_len = len', fr_last_size = ls', fr_sizes = szs, fr_pad = pad\<rparr>"
    using c by (auto simp: parse_code3_frames_def and_then_Inr split: if_splits)
  have "pos' + sum_list szs \<le> pos + len - D" "pos + len - D \<le> int m" using m v(4) D by simp_all
  note T = parse_vbr_take [OF v(1) this]
  have n: "0 \<le> sum_list szs" using T by (intro sum_list_nonneg) (auto simp: list_all_iff)
  have "\<not> ls' - D < 0" "\<not> len - D < 0" using T n m v(4) D by auto
  then show ?thesis using T n False v(4) by (simp add: parse_code3_frames_def cut_framing_def)
qed

lemma parse_code3_take:
  assumes f: "parse_code3 data fs (int (length data) - 1) True = Inr f" and m: "m \<le> length data" "fr_pos f + sum_list (fr_sizes f) + fr_pad f \<le> int m"
    and d: "bytes data"
  shows "parse_code3 (take m data) fs (int m - 1) True = Inr (cut_framing (int (length data) - int m) f)"
proof -
  define D where "D = int (length data) - int m"
  have D': "D = int (length data - m)" using m(1) by (simp add: D_def of_nat_diff)
  obtain ch where ch: "read_byte data 1 = Inr ch" "\<not> (ch AND 63 \<le> 0 \<or> fs * (ch AND 63) > 5760)" "\<not> int (length data) - 1 < 1"
    using f by (auto simp: parse_code3_def Let_def and_then_Inr split: if_splits)
  define P where "P = (\<lambda>dt l. if ch AND 64 \<noteq> 0 then parse_padding dt 2 (l - 1) 0 else Inr (2, l - 1, 0))"
  have e: "parse_code3 dt fs l True = and_then (P dt l) (parse_code3_frames dt True (ch AND 128 = 0) (ch AND 63) l)"
    if "read_byte dt 1 = Inr ch" "\<not> l < 1" for dt l
    using that ch(2) unfolding parse_code3_def P_def by (simp only: and_then.simps Let_def if_False)
  obtain pos len' pad where pd: "P data (int (length data) - 1) = Inr (pos, len', pad)"
      and fr: "parse_code3_frames data True (ch AND 128 = 0) (ch AND 63) (int (length data) - 1) (pos, len', pad) = Inr f"
    using f unfolding e [OF ch(1,3)] by (cases "P data (int (length data) - 1)") auto
  have "checks (parse_padding data 2 (int (length data) - 1 - 1) 0) (\<lambda>(pos, len, pad). 0 \<le> pos \<and> 0 \<le> pad \<and> pos + len + pad = int (length data))"
    using d by (intro checks_padding) auto
  then have pp: "pos + len' + pad = int (length data)" "0 \<le> pad" using pd by (auto simp: P_def split: if_splits)
  note F = code3_frames_take [OF fr m(2) pp(1) D_def pp(2)]
  have p2: "2 \<le> pos" using pd parse_padding_pos [of data 2 "int (length data) - 2" 0 pos len' pad] by (auto simp: P_def split: if_splits)
  have le: "pos + pad \<le> int m" using F m(2) by simp
  have "P (take m data) (int m - 1) = Inr (pos, len' - D, pad)"
  proof (cases "ch AND 64 \<noteq> 0")
    case True
    then have "parse_padding data 2 (int (length data) - 2) 0 = Inr (pos, len', pad)" using pd by (simp add: P_def)
    from parse_padding_take [OF this _ _ le m(1)] show ?thesis using True m(1) by (simp add: P_def D_def of_nat_diff)
  next
    case False
    then show ?thesis using pd by (auto simp: P_def D_def)
  qed
  moreover have "read_byte (take m data) 1 = Inr ch" using ch(1) le p2 pp(2) by (subst read_byte_take) auto
  ultimately show ?thesis using F le p2 pp(2) e [of "take m data" "int m - 1"] by (simp add: D_def)
qed

lemma parse_code_take:
  assumes f: "parse_code data toc (int (length data) - 1) True = Inr f" and m: "m \<le> length data" "fr_pos f + sum_list (fr_sizes f) + fr_pad f \<le> int m"
    and d: "bytes data"
  shows "parse_code (take m data) toc (int m - 1) True = Inr (cut_framing (int (length data) - int m) f)"
proof -
  consider (0) "toc AND 3 = 0" | (1) "toc AND 3 = 1" | (2) "toc AND 3 = 2" | (3) "toc AND 3 \<noteq> 0" "toc AND 3 \<noteq> 1" "toc AND 3 \<noteq> 2" by blast
  then show ?thesis
  proof cases
    case 2
    then obtain nb sz where s: "parse_size data 1 (int (length data) - 1) = Inr (nb, sz)" "0 \<le> sz"
        "f = \<lparr>fr_count = 2, fr_cbr = False, fr_pos = 1 + nb, fr_len = int (length data) - 1 - nb, fr_last_size = int (length data) - 1 - nb - sz, fr_sizes = [sz], fr_pad = 0\<rparr>"
      using f by (auto simp: parse_code_def and_then_Inr Let_def split: if_splits)
    have "parse_size (take m data) 1 (int m - 1) = Inr (nb, sz)" using s m by (intro parse_size_take [OF s(1)]) auto
    then show ?thesis using 2 s m by (simp add: parse_code_def cut_framing_def Let_def)
  next
    case 3
    then show ?thesis using f parse_code3_take [OF _ m d, of "opus_packet_get_samples_per_frame toc 48000"] by (simp add: parse_code_def)
  qed (use f in \<open>auto simp: parse_code_def cut_framing_def\<close>)
qed

lemma last_size_take:
  assumes f: "parse_last_size data True f = Inr (pos, sizes)" and K: "framing_ok data fs True f" and m: "int m = fr_pad f + (pos + sum_list sizes)"
  shows "parse_last_size (take m data) True (cut_framing (int (length data) - int m) f) = Inr (pos, sizes)"
    "\<not> fr_cbr f \<Longrightarrow> sum_list (fr_sizes f) \<le> sum_list sizes" "0 \<le> sum_list sizes" "fr_pos f \<le> pos"
proof -
  define D where "D = int (length data) - int m"
  obtain nb sz where s: "parse_size data (fr_pos f) (fr_len f) = Inr (nb, sz)" using f by (auto simp: parse_last_size_def and_then_Inr)
  then have z: "0 \<le> sz" "pos = fr_pos f + nb" "sizes = (if fr_cbr f then replicate (nat (fr_count f - 1)) sz @ [sz] else fr_sizes f @ [sz])"
    using f by (auto simp: parse_last_size_def Let_def split: if_splits)
  note nb = parse_size_bytes [OF s z(1)]
  have k: "1 \<le> fr_count f" "fr_pos f + fr_len f + fr_pad f = int (length data)" "\<not> fr_cbr f \<longrightarrow> 0 \<le> sum_list (fr_sizes f)" "0 \<le> fr_pad f"
    "\<not> fr_cbr f \<longrightarrow> sum_list (fr_sizes f) + fr_last_size f = fr_len f"
    using K sum_sizes_frames [of "fr_sizes f"] by (auto simp: framing_ok_def)
  have S: "sum_list sizes = (if fr_cbr f then sz * fr_count f else sum_list (fr_sizes f) + sz)"
    using z(3) k(1) by (simp add: sum_list_replicate algebra_simps)
  have "1 * sz \<le> fr_count f * sz" using k(1) z(1) by (intro mult_right_mono) auto
  then have g: "sz \<le> sum_list sizes" using S k(3) by (auto simp: mult.commute)
  show "\<not> fr_cbr f \<Longrightarrow> sum_list (fr_sizes f) \<le> sum_list sizes" "0 \<le> sum_list sizes" "fr_pos f \<le> pos" using S g z nb by auto
  have L: "fr_len f - D - nb = sum_list sizes" using k(2) m z(2) by (simp add: D_def)
  have "parse_size (take m data) (fr_pos f) (fr_len f - D) = Inr (nb, sz)"
    using L g z k(4) m by (intro parse_size_take [OF s z(1)]) auto
  then show "parse_last_size (take m data) True (cut_framing (int (length data) - int m) f) = Inr (pos, sizes)"
    using L S z g k(5) by (cases "fr_cbr f") (auto simp: parse_last_size_def cut_framing_def Let_def mult.commute simp flip: D_def)
qed

lemma parse_take:
  assumes d: "bytes data" and p: "opus_packet_parse_impl data (int (length data)) True False = Inr p" and m: "int m = pk_packet_offset p"
  shows "opus_packet_parse_impl (take m data) (int (length (take m data))) True False = Inr p"
proof -
  note ok = parse_packet_ok [OF d p]
  have ml: "m \<le> length data" using ok(1) m by (simp add: packet_ok_def)
  have toc: "read_byte data 0 = Inr (data ! 0)" "is_byte (data ! 0)" using d ok(2) by (simp_all add: read_byte_first bytes_nth)
  obtain f where f: "parse_code data (data ! 0) (int (length data) - 1) True = Inr f" "parse_last_size data True f = Inr (pk_payload_offset p, pk_size p)"
      and pf: "p = \<lparr>pk_toc = data ! 0, pk_count = fr_count f, pk_frames = frame_offsets (pk_payload_offset p) (pk_size p), pk_size = pk_size p,
        pk_payload_offset = pk_payload_offset p, pk_padding = pk_payload_offset p + sum_list (pk_size p), pk_padding_len = fr_pad f,
        pk_packet_offset = fr_pad f + (pk_payload_offset p + sum_list (pk_size p))\<rparr>"
    using p ok(2) toc(1) by (auto simp: opus_packet_parse_impl_def and_then_Inr Let_def)
  have K: "framing_ok data (opus_packet_get_samples_per_frame (data ! 0) 48000) True f"
    using checks_code [OF d _ _ toc(2), of "int (length data) - 1" True] f(1) ok(2) by (auto simp: Suc_le_eq)
  have M: "int m = fr_pad f + (pk_payload_offset p + sum_list (pk_size p))" using m pf by (metis packet_info.select_convs(8))
  note L = last_size_take [OF f(2) K M]
  have "fr_sizes f = []" if "fr_cbr f" using f(1) that by (auto simp: parse_code_def parse_code3_def parse_code3_frames_def and_then_Inr Let_def split: if_splits)
  then have "fr_pos f + sum_list (fr_sizes f) + fr_pad f \<le> int m" using L(2-4) M by (cases "fr_cbr f") auto
  note C = parse_code_take [OF f(1) ml this d]
  have "0 < m"
  proof (rule ccontr)
    assume "\<not> 0 < m"
    then have "pk_payload_offset p = 0" using M L(3) K ok(1) by (simp add: framing_ok_def packet_ok_def)
    then show False using parse_code_pos [OF f(1)] L(4) by (auto simp: min_header_def split: if_splits)
  qed
  then have "read_byte (take m data) 0 = Inr (data ! 0)" using toc(1) by (subst read_byte_take) auto
  moreover have len: "int (length (take m data)) = int m" using ml by simp
  ultimately show ?thesis unfolding opus_packet_parse_impl_def len using C L(1) \<open>0 < m\<close> pf
    by (simp add: cut_framing_def Let_def)
qed

text \<open>The configuration and the frames of each of \<open>n\<close> streams, all but the last self-delimited.\<close>

fun stream_frames :: "nat \<Rightarrow> int list \<Rightarrow> opus_error + (int \<times> int list list) list" where
  "stream_frames 0 data = Inr []"
| "stream_frames (Suc n) data =
    and_then (opus_packet_parse_impl data (int (length data)) (n \<noteq> 0) False) (\<lambda>p.
    and_then (stream_frames n (drop (nat (pk_packet_offset p)) data)) (\<lambda>ss.
      Inr ((pk_toc p AND 252, packet_frames data p) # ss)))"

lemma packet_frames_take:
  assumes p: "packet_ok data self_delimited p" and m: "int m = pk_packet_offset p"
  shows "packet_frames (take m data) p = packet_frames data p"
proof -
  have s: "list_all frame_size_ok (pk_size p)" and l: "length (pk_frames p) = length (pk_size p)" using p by (auto simp: packet_ok_def)
  have "take (nat (pk_size p ! i)) (drop (nat (pk_frames p ! i)) (take m data)) = take (nat (pk_size p ! i)) (drop (nat (pk_frames p ! i)) data)"
    if i: "i < length (pk_size p)" for i
  proof -
    have "pk_frames p ! i = pk_payload_offset p + sum_list (take i (pk_size p))" using p i by (simp add: packet_ok_def frame_offsets_nth)
    then have "0 \<le> pk_frames p ! i" "pk_frames p ! i + pk_size p ! i \<le> int m"
      using sum_list_take_le [OF s i] p m by (auto simp: packet_ok_def)
    then have "nat (pk_size p ! i) \<le> m - nat (pk_frames p ! i)" by linarith
    then show ?thesis by (simp add: drop_take min_absorb1)
  qed
  then show ?thesis unfolding packet_frames_def using l by (intro map_cong refl) (auto simp: in_set_conv_nth)
qed

lemma parse_prefix:
  assumes d: "bytes data" and p: "opus_packet_parse_impl data (int (length data)) self_delimited False = Inr p" and m: "int m = pk_packet_offset p"
  shows "opus_packet_parse_impl (take m data) (int (length (take m data))) self_delimited False = Inr p" "packet_frames (take m data) p = packet_frames data p"
proof -
  note ok = parse_packet_ok [OF d p]
  show "packet_frames (take m data) p = packet_frames data p" by (rule packet_frames_take [OF ok(1) m])
  have "take m data = data" if "\<not> self_delimited" using ok(1) m that by (simp add: packet_ok_def)
  then show "opus_packet_parse_impl (take m data) (int (length (take m data))) self_delimited False = Inr p"
    using p parse_take [OF d _ m] by (cases self_delimited) auto
qed

lemma unpad_streams_ok:
  assumes "bytes data"
  shows "case stream_frames n data of Inl e \<Rightarrow> unpad_streams n data dst = Inl OPUS_INVALID_PACKET
    | Inr ss \<Rightarrow> \<exists>out. unpad_streams n data dst = Inr (dst @ out) \<and> bytes out \<and> length out \<le> length data \<and> stream_frames n out = Inr ss"
  using assms
proof (induction n arbitrary: data dst)
  case (Suc n)
  show ?case
  proof (cases rule: parse_impl_cases [OF Suc.prems, of "n \<noteq> 0", case_names invalid parsed])
    case invalid
    then show ?thesis by (simp add: Let_def)
  next
    case (parsed p)
    define m where "m = nat (pk_packet_offset p)"
    have m: "int m = pk_packet_offset p" "m \<le> length data" "0 \<le> pk_padding_len p" using parsed(2) sum_sizes_frames [of "pk_size p"] by (auto simp: m_def packet_ok_def)
    note q = parse_prefix [OF Suc.prems parsed(1) m(1)]
    have t: "bytes (take m data)" "bytes (drop m data)" using Suc.prems by (auto simp: bytes_def list_all_iff dest: in_set_takeD in_set_dropD)
    note c = fresh_cat [OF t(1) q(1)]
    define P where "P = plain_packet (n \<noteq> 0) (pk_toc p) (packet_frames data p)"
    have P: "int (length P) \<le> int m" using plain_min(2) [OF Suc.prems parsed(1), of "pk_toc p"] m by (simp add: P_def)
    define rp where "rp = rp_add (rp_config fresh (pk_toc p)) (take m data) p"
    have rp: "rp_toc rp = pk_toc p" "rp_frames rp = packet_frames data p" "0 < rp_nb_frames rp" "rp_ok rp" using c q(2) by (simp_all add: rp_def)
    have o: "opus_repacketizer_out_range_impl (discard_paddings rp) 0 (rp_nb_frames rp) (int (length data)) (n \<noteq> 0) False [] = Inr (int (length P), P)"
      using discard_out(1) [OF rp(4,3), of P "n \<noteq> 0" "int (length data)"] rp P m(2) by (simp add: P_def)
    have cat: "opus_repacketizer_cat_impl fresh (take m data) (pk_packet_offset p) (n \<noteq> 0) = (None, rp)" using c(1) m by (simp add: rp_def min_absorb2)
    have u: "unpad_streams (Suc n) data dst = unpad_streams n (drop m data) (dst @ P)"
      using parsed(1,3) cat o by (simp add: Let_def flip: m_def)
    show ?thesis
    proof (cases "stream_frames n (drop m data)")
      case (Inl e)
      then show ?thesis using Suc.IH [OF t(2), of "dst @ P"] parsed(1) u by (simp flip: m_def del: unpad_streams.simps)
    next
      case (Inr ss)
      then obtain out where out: "unpad_streams n (drop m data) (dst @ P) = Inr (dst @ P @ out)" "bytes out" "length out \<le> length (drop m data)" "stream_frames n out = Inr ss"
        using Suc.IH [OF t(2), of "dst @ P"] by auto
      have tail: "\<not> (n \<noteq> 0) \<longrightarrow> out = []" using out(1) by auto
      have R: "repacked (n \<noteq> 0) (pk_toc p) (packet_frames data p) [] out (int (length P)) False (int (length P)) P"
        using discard_out(2) [OF rp(4,3) _ tail, of P] rp by (simp add: P_def)
      obtain p' where p': "opus_packet_parse_impl (P @ out) (int (length (P @ out))) (n \<noteq> 0) False = Inr p'" "packet_frames (P @ out) p' = packet_frames data p"
        "pk_packet_offset p' = int (length P)" "pk_toc p' AND 252 = pk_toc p AND 252" using repacked_parse [OF R] by metis
      have "bytes P" using R by (simp add: repacked_def)
      then show ?thesis using Inr parsed(1) p' out u P m by (auto simp del: unpad_streams.simps simp flip: m_def)
    qed
  qed
qed simp

section \<open>In-place copying\<close>

lemma sizes_Cons: "list_all frame_size_ok (sz # szs) \<Longrightarrow> 0 \<le> sz \<and> list_all frame_size_ok szs \<and> 0 \<le> sum_list szs"
  using sum_sizes_frames [of szs] by (cases "list_all frame_size_ok szs") (auto simp: frame_size_ok_def [of sz])

lemma move_frames_ok:
  assumes "list_all frame_size_ok szs" "int pos \<le> off" "off + sum_list szs \<le> int (length bs)"
  shows "\<exists>rest. move_frames bs pos (zip (frame_offsets off szs) szs) = take pos bs @ take (nat (sum_list szs)) (drop (nat off) bs) @ rest"
  using assms
proof (induction szs arbitrary: bs pos off)
  case Nil
  then show ?case by (auto intro: exI [of _ "drop pos bs"])
next
  case (Cons sz szs)
  define n where "n = nat sz"
  define seg where "seg = take n (drop (nat off) bs)"
  have sz: "sz = int n" "list_all frame_size_ok szs" "0 \<le> sum_list szs" using sizes_Cons [OF Cons.prems(1)] by (simp_all add: n_def)
  have l: "length seg = n" "nat off + n \<le> length bs" "pos \<le> nat off" using Cons.prems sz by (auto simp: seg_def)
  define bs' where "bs' = blit bs pos seg"
  have lb: "length bs' = length bs" using l by (simp add: bs'_def)
  have t: "take (pos + n) bs' = take pos bs @ seg" using l by (simp add: bs'_def blit_def)
  have d: "drop (nat (off + sz)) bs' = drop (nat (off + sz)) bs"
    using l sz(1) Cons.prems(2) by (simp add: bs'_def blit_def nat_add_distrib)
  have s: "nat (sum_list (sz # szs)) = n + nat (sum_list szs)" "nat (off + sz) = nat off + n" using sz Cons.prems(2) by (simp_all add: nat_add_distrib)
  obtain rest where "move_frames bs' (pos + n) (zip (frame_offsets (off + sz) szs) szs) = take (pos + n) bs' @ take (nat (sum_list szs)) (drop (nat (off + sz)) bs') @ rest"
    using Cons.IH [of "pos + n" "off + sz" bs'] Cons.prems sz lb by auto
  moreover have "take (n + nat (sum_list szs)) (drop (nat off) bs) = seg @ take (nat (sum_list szs)) (drop (nat off + n) bs)"
    by (simp add: seg_def take_add add.commute)
  ultimately show ?case using d unfolding t s by (simp flip: n_def seg_def bs'_def)
qed

lemma concat_frames:
  assumes "list_all frame_size_ok szs" "0 \<le> off" "off + sum_list szs \<le> int (length data)"
  shows "concat (map (\<lambda>(off, sz). take (nat sz) (drop (nat off) data)) (zip (frame_offsets off szs) szs)) = take (nat (sum_list szs)) (drop (nat off) data)"
  using assms
proof (induction szs arbitrary: off)
  case (Cons sz szs)
  have sz: "0 \<le> sz" "list_all frame_size_ok szs" "0 \<le> sum_list szs" using sizes_Cons [OF Cons.prems(1)] by simp_all
  then have "take (nat (sz + sum_list szs)) (drop (nat off) data) = take (nat sz) (drop (nat off) data) @ take (nat (sum_list szs)) (drop (nat (off + sz)) data)"
    using Cons.prems by (simp add: nat_add_distrib take_add add.commute)
  then show ?case using Cons.IH [of "off + sz"] Cons.prems sz by simp
qed simp

section \<open>Results\<close>

text \<open>
  C16. \<open>opus_packet_unpad\<close> succeeds on every packet that parses, and its assertion holds: the result
  is not empty and at most as long as the packet without its padding.  It parses to the same frames
  and configuration, without padding, and unpadding it again changes nothing.  Packets that do not
  parse are rejected with \<open>OPUS_INVALID_PACKET\<close>.
\<close>

theorem packet_unpad_total:
  assumes "bytes data" "data \<noteq> []"
  shows "case opus_packet_parse_impl data (int (length data)) False False of
      Inl e \<Rightarrow> opus_packet_unpad data (int (length data)) = Inl OPUS_INVALID_PACKET
    | Inr p \<Rightarrow> \<exists>ret out q. opus_packet_unpad data (int (length data)) = Inr (ret, out)
        \<and> 0 < ret \<and> ret = int (length out) \<and> ret \<le> int (length data) - pk_padding_len p
        \<and> opus_packet_parse_impl out ret False False = Inr q \<and> packet_frames out q = packet_frames data p
        \<and> pk_toc q AND 252 = pk_toc p AND 252 \<and> packet_padding out q = [] \<and> opus_packet_unpad out ret = Inr (ret, out)"
proof (cases rule: parse_impl_cases [OF assms(1), of False, case_names invalid parsed])
  case invalid
  have "\<not> int (length data) < 1" using assms(2) by (simp add: not_less Suc_le_eq)
  then show ?thesis using invalid
    by (simp add: opus_packet_unpad_def opus_repacketizer_cat_def cat_impl_eq [OF fresh_ok(1) assms(1)])
next
  case (parsed p)
  define P where "P = plain_packet False (pk_toc p) (packet_frames data p)"
  note u = unpad_eq [OF assms(1) parsed(1), folded P_def]
  have P: "bytes P" "0 < int (length P)" using u(3) by (auto simp: repacked_def)
  obtain q where q: "opus_packet_parse_impl P (int (length P)) False False = Inr q" "packet_frames P q = packet_frames data p"
    "pk_toc q AND 252 = pk_toc p AND 252" "packet_padding P q = []"
    using repacked_parse [OF u(3)] by (metis append_Nil2)
  have "opus_packet_unpad P (int (length P)) = Inr (int (length P), P)"
    using unpad_eq(1) [OF P(1) q(1)] plain_toc [OF q(3)] q(2) by (simp add: P_def)
  then show ?thesis using parsed(1) u P q by auto
qed

theorem packet_unpad_total_witness:
  "\<exists>ret out. opus_packet_unpad [131, 66, 3, 7, 7, 9, 9, 0, 0, 0] 10 = Inr (ret, out) \<and> 0 < ret \<and> ret \<le> 7"
proof -
  have b: "bytes [131, 66, 3, 7, 7, 9, 9, 0, 0, 0]" by code_simp
  have p: "opus_packet_parse_impl [131, 66, 3, 7, 7, 9, 9, 0, 0, 0] 10 False False
      = Inr \<lparr>pk_toc = 131, pk_count = 2, pk_frames = [3, 5], pk_size = [2, 2], pk_payload_offset = 3, pk_padding = 7, pk_padding_len = 3, pk_packet_offset = 10\<rparr>"
    by code_simp
  show ?thesis using packet_unpad_total [OF b] by (simp add: p) auto
qed

text \<open>
  C20. Unpadding works in place: writing the new header over the packet and then moving the frames one
  after the other inside the same buffer, each read only when its turn comes, leaves the same bytes
  as building the packet from copies of the frames.  The new header is never longer than the old one,
  so no frame is overwritten before it is moved.
\<close>

theorem packet_unpad_in_place:
  assumes "bytes data" "opus_packet_parse_impl data (int (length data)) False False = Inr p"
  shows "\<exists>ret hdr. opus_packet_unpad data (int (length data)) = Inr (ret, hdr @ concat (packet_frames data p))
    \<and> int (length hdr) \<le> pk_payload_offset p
    \<and> take (nat ret) (move_frames (blit data 0 hdr) (length hdr) (zip (pk_frames p) (pk_size p))) = hdr @ concat (packet_frames data p)"
proof -
  note ok = parse_packet_ok(1) [OF assms]
  have o: "pk_frames p = frame_offsets (pk_payload_offset p) (pk_size p)" "0 \<le> pk_payload_offset p" "list_all frame_size_ok (pk_size p)"
    "pk_payload_offset p + sum_list (pk_size p) \<le> int (length data)" using ok by (auto simp: packet_ok_def)
  define hdr where "hdr = plain_header (pk_toc p) (pk_size p)"
  have u: "opus_packet_unpad data (int (length data)) = Inr (int (length (hdr @ concat (packet_frames data p))), hdr @ concat (packet_frames data p))"
    using unpad_eq(1) [OF assms] parsed_frames(1) [OF assms(1) ok] by (simp add: plain_packet_def sd_bytes_def hdr_def)
  have h: "int (length hdr) \<le> pk_payload_offset p" using plain_min(1) [OF assms, of "pk_toc p"] by (simp add: sd_bytes_def hdr_def)
  have c: "concat (packet_frames data p) = take (nat (sum_list (pk_size p))) (drop (nat (pk_payload_offset p)) data)"
    using concat_frames [OF o(3,2,4)] by (simp add: packet_frames_def o(1))
  have b: "length (blit data 0 hdr) = length data" "take (length hdr) (blit data 0 hdr) = hdr"
    "drop (nat (pk_payload_offset p)) (blit data 0 hdr) = drop (nat (pk_payload_offset p)) data"
    using h o sum_sizes_frames [OF o(3)] by (auto simp: blit_def)
  obtain rest where "move_frames (blit data 0 hdr) (length hdr) (zip (pk_frames p) (pk_size p)) = hdr @ concat (packet_frames data p) @ rest"
    using move_frames_ok [OF o(3) h, of "blit data 0 hdr"] o(4) unfolding b c o(1) by auto
  then show ?thesis using u h by (intro exI [of _ hdr] exI [of _ "int (length (hdr @ concat (packet_frames data p)))"]) simp
qed

theorem packet_unpad_in_place_witness:
  "\<exists>ret out. opus_packet_unpad [131, 66, 3, 7, 7, 9, 9, 0, 0, 0] 10 = Inr (ret, out @ [7, 7, 9, 9]) \<and> int (length out) \<le> 3"
proof -
  let ?d = "[131, 66, 3, 7, 7, 9, 9, 0, 0, 0] :: int list"
  let ?p = "\<lparr>pk_toc = 131, pk_count = 2, pk_frames = [3, 5], pk_size = [2, 2], pk_payload_offset = 3, pk_padding = 7, pk_padding_len = 3, pk_packet_offset = 10\<rparr>"
  have b: "bytes ?d" by code_simp
  have p: "opus_packet_parse_impl ?d (int (length ?d)) False False = Inr ?p" by code_simp
  have c: "concat (packet_frames ?d ?p) = [7, 7, 9, 9]" by code_simp
  show ?thesis using packet_unpad_in_place [OF b p] unfolding c by auto
qed

text \<open>
  C17. A packet padded by \<open>opus_packet_pad\<close> has exactly the requested length and still parses to the
  same frames and configuration, and removing the padding gives the same packet as removing it from
  the original.
\<close>

theorem packet_pad_sound:
  assumes "bytes data" "int (length data) < new_len" "opus_packet_pad data (int (length data)) new_len = Inr out"
  shows "\<exists>p q. int (length out) = new_len \<and> bytes out
    \<and> opus_packet_parse_impl data (int (length data)) False False = Inr p \<and> opus_packet_parse_impl out new_len False False = Inr q
    \<and> packet_frames out q = packet_frames data p \<and> pk_toc q AND 252 = pk_toc p AND 252
    \<and> opus_packet_unpad out new_len = opus_packet_unpad data (int (length data))"
proof (cases rule: parse_impl_cases [OF assms(1), of False, case_names invalid parsed])
  case invalid
  then have "opus_packet_pad_impl data (int (length data)) new_len True [] = Inl (if int (length data) < 1 then OPUS_BAD_ARG else OPUS_INVALID_PACKET)"
    using assms(2) by (simp add: opus_packet_pad_impl_def opus_repacketizer_cat_def cat_impl_eq [OF fresh_ok(1) assms(1)])
  then show ?thesis using assms(3) by (simp add: opus_packet_pad_def)
next
  case (parsed p)
  note c = fresh_cat [OF assms(1) parsed(1)]
  define rp where "rp = rp_add (rp_config fresh (pk_toc p)) data p"
  have n: "\<not> int (length data) < 1" using parsed(3) by (simp add: not_less Suc_le_eq)
  obtain sz where o: "opus_repacketizer_out_range_impl rp 0 (rp_nb_frames rp) new_len False True [] = Inr (sz, out)"
    using assms(2,3) n c(1) by (auto simp: opus_packet_pad_def opus_packet_pad_impl_def opus_repacketizer_cat_def and_then_Inr simp flip: rp_def)
  have fr: "range_of (rp_frames rp) 0 (rp_nb_frames rp) = packet_frames data p" using range_all [OF c(8)] c(5) by (simp add: rp_def)
  obtain all_ext where r: "repacked False (pk_toc p) (packet_frames data p) all_ext [] new_len True sz out"
    using out_range_ok(4) [OF c(2) [folded rp_def] _ _ o, of "[]"] c(3) fr by (auto simp: rp_def)
  have l: "int (length out) = new_len" "bytes out" using r by (auto simp: repacked_def)
  obtain q where q: "opus_packet_parse_impl out (int (length out)) False False = Inr q" "packet_frames out q = packet_frames data p" "pk_toc q AND 252 = pk_toc p AND 252"
    using repacked_parse [OF r] by (metis append_Nil2)
  have "opus_packet_unpad out (int (length out)) = opus_packet_unpad data (int (length data))"
    using unpad_eq(1) [OF l(2) q(1)] unpad_eq(1) [OF assms(1) parsed(1)] plain_toc [OF q(3)] q(2) by simp
  then show ?thesis using l q parsed(1) by auto
qed

theorem packet_pad_sound_witness:
  "opus_packet_unpad [131, 65, 3, 7, 0, 0, 0] 7 = opus_packet_unpad [128, 7] 2"
proof -
  have "bytes [128, 7]" "opus_packet_pad [128, 7] 2 7 = Inr [131, 65, 3, 7, 0, 0, 0]" by code_simp+
  then show ?thesis using packet_pad_sound [of "[128, 7]" 7 "[131, 65, 3, 7, 0, 0, 0]"] by auto
qed

text \<open>
  C22. Removing the padding of a multistream packet: if the \<open>nb_streams\<close> streams parse one after the
  other, all but the last self-delimited, the result is not longer than the packet and holds the same
  streams with the same configurations and frames; otherwise the packet is rejected.
\<close>

theorem multistream_unpad_sound:
  assumes "bytes data" "data \<noteq> []"
  shows "case stream_frames nb_streams data of Inl e \<Rightarrow> opus_multistream_packet_unpad data nb_streams = Inl OPUS_INVALID_PACKET
    | Inr ss \<Rightarrow> \<exists>out. opus_multistream_packet_unpad data nb_streams = Inr out \<and> bytes out \<and> length out \<le> length data
        \<and> stream_frames nb_streams out = Inr ss"
proof -
  have "\<not> int (length data) < 1" using assms(2) by (simp add: not_less Suc_le_eq)
  then show ?thesis using unpad_streams_ok [OF assms(1), of nb_streams "[]"]
    by (simp add: opus_multistream_packet_unpad_def split: sum.splits)
qed

theorem multistream_unpad_sound_witness:
  "\<exists>out. opus_multistream_packet_unpad [131, 65, 1, 1, 7, 0, 128, 9] 2 = Inr out \<and> stream_frames 2 out = Inr [(128, [[7]]), (128, [[9]])]"
proof -
  have "bytes [131, 65, 1, 1, 7, 0, 128, 9]" by code_simp
  moreover have "stream_frames 2 [131, 65, 1, 1, 7, 0, 128, 9] = Inr [(128, [[7]]), (128, [[9]])]" by code_simp
  ultimately show ?thesis using multistream_unpad_sound [of "[131, 65, 1, 1, 7, 0, 128, 9]" 2] by auto
qed

text \<open>
  C33. The documented output sizes that guarantee success, for frames without padding and extensions:
  1276 bytes for a single frame and 1277 bytes per frame for several.
\<close>

theorem repacketizer_out_guarantee:
  assumes "rp_ok rp" "0 \<le> bgn" "bgn < fin" "fin \<le> rp_nb_frames rp" "\<forall>pd\<in>set (range_of (rp_paddings rp) bgn fin). pd = []"
    and "(if fin - bgn = 1 then 1276 else 1277 * (fin - bgn)) \<le> maxlen"
  shows "\<exists>sz out. opus_repacketizer_out_range rp bgn fin maxlen = Inr (sz, out)"
proof -
  note R = range_of_props [OF assms(1-4)]
  have "list_all frame_size_ok (lens_of (range_of (rp_frames rp) bgn fin))" using R(3) by (simp add: list_all_iff)
  note S = plain_size(1) [OF R(2) this, of "rp_toc rp"]
  have "length (range_of (rp_frames rp) bgn fin) = 1 \<longleftrightarrow> fin - bgn = 1" using R(1) by linarith
  then have "int (length (plain_packet False (rp_toc rp) (range_of (rp_frames rp) bgn fin))) \<le> maxlen" using S R(1) assms(6) by (auto split: if_splits)
  then show ?thesis unfolding opus_repacketizer_out_range_def out_range_plain [OF assms(1-5) refl] by simp
qed

theorem repacketizer_out_guarantee_witness:
  "\<exists>sz out. opus_repacketizer_out_range \<lparr>rp_toc = 128, rp_nb_frames = 3, rp_frames = [[7], [8, 9], [6]], rp_framesize = 20, rp_paddings = [[], [], []]\<rparr> 0 2 2554 = Inr (sz, out)"
proof -
  let ?rp = "\<lparr>rp_toc = 128, rp_nb_frames = 3, rp_frames = [[7], [8, 9], [6]], rp_framesize = 20, rp_paddings = [[], [], []]\<rparr>"
  have "rp_ok ?rp" by (simp add: rp_ok_def frame_size_ok_def is_byte_def opus_packet_get_samples_per_frame_def)
  then show ?thesis using repacketizer_out_guarantee [of ?rp 0 2 2554] by (simp add: range_of_def eval_nat_numeral)
qed

lemma cat_packs:
  assumes rp: "rp_ok rp" and d: "bytes data" "packs False data [] toc fr []" "n = int (length data)"
    and a: "rp_nb_frames rp = 0 \<or> rp_toc rp = toc" "(int (length fr) + rp_nb_frames rp) * opus_packet_get_samples_per_frame toc 8000 \<le> 960"
  shows "\<exists>rp'. opus_repacketizer_cat rp data n = (None, rp') \<and> rp_ok rp' \<and> rp_frames rp' = rp_frames rp @ fr \<and> rp_toc rp' = toc \<and>
    rp_nb_frames rp' = rp_nb_frames rp + int (length fr) \<and> ((\<forall>pd\<in>set (rp_paddings rp). pd = []) \<longrightarrow> (\<forall>pd\<in>set (rp_paddings rp'). pd = []))"
proof -
  obtain p where p: "opus_packet_parse_impl data (int (length data)) False False = Inr p" "packet_frames data p = fr" "packet_padding data p = []"
    "pk_toc p = toc" "pk_count p = int (length fr)" using d(2) unfolding packs_def by auto
  have acc: "rp_accepts rp p" using a p by (auto simp: rp_accepts_def)
  note ok = parse_packet_ok [OF d(1) p(1)]
  have "opus_repacketizer_cat rp data n = (None, rp_add (rp_config rp toc) data p)"
    using acc p d(3) by (simp add: opus_repacketizer_cat_def cat_impl_eq [OF rp d(1)])
  moreover have "rp_toc (rp_config rp toc) = toc" using a(1) by (auto simp: rp_config_def)
  ultimately show ?thesis using rp_add_ok [OF rp d(1) ok(2,1) acc] p by (auto simp: rp_add_def rp_config_def)
qed

text \<open>
  C38. The second size given in the documentation, one byte per frame plus the size of all packets
  submitted, is not always sufficient: two packets of three frames each, with constant frame sizes of
  252 and 253 bytes, are accepted, but the six frames together need two bytes more.
\<close>

theorem documented_size_too_small:
  "\<exists>rp1 rp2. opus_repacketizer_cat (opus_repacketizer_init stack_repacketizer) ([131, 3] @ replicate 756 0) 758 = (None, rp1)
    \<and> opus_repacketizer_cat rp1 ([131, 3] @ replicate 759 0) 761 = (None, rp2) \<and> opus_repacketizer_get_nb_frames rp2 = 6
    \<and> opus_repacketizer_out rp2 (6 + 758 + 761) = Inl OPUS_BUFFER_TOO_SMALL"
proof -
  let ?fr = "\<lambda>n. [replicate n (0::int), replicate n 0, replicate n 0]" and ?d = "\<lambda>n. [131, 3] @ replicate (n + (n + n)) (0::int)"
  have pk: "packs False (?d n) [] 131 (?fr n) []" if "n \<le> 1275" for n
  proof -
    have "packs False (131 # 3 # [] @ [] @ sd_bytes False (last (lens_of (?fr n))) @ concat (?fr n) @ []) [] 131 (?fr n) []"
      by (rule packs_code3 [where vbr = False and padded = False and k = 0 and r = 0])
        (use that in \<open>simp_all add: is_byte_def frame_size_ok_def opus_packet_get_samples_per_frame_def shift_arith\<close>)
    then show ?thesis by (simp add: sd_bytes_def replicate_add)
  qed
  have b: "bytes (?d n)" for n by (simp add: bytes_def list_all_iff is_byte_def)
  have s: "opus_packet_get_samples_per_frame 131 8000 = 20" by (simp add: opus_packet_get_samples_per_frame_def)
  obtain rp1 where 1: "opus_repacketizer_cat fresh (?d 252) 758 = (None, rp1)" "rp_ok rp1" "rp_frames rp1 = ?fr 252" "rp_toc rp1 = 131"
      "rp_nb_frames rp1 = 3" "\<forall>pd\<in>set (rp_paddings rp1). pd = []"
    using cat_packs [OF fresh_ok(1) b pk, of 252 758] s by (auto simp: opus_repacketizer_init_def stack_repacketizer_def)
  obtain rp2 where 2: "opus_repacketizer_cat rp1 (?d 253) 761 = (None, rp2)" "rp_ok rp2" "rp_frames rp2 = ?fr 252 @ ?fr 253" "rp_toc rp2 = 131"
      "rp_nb_frames rp2 = 6" "\<forall>pd\<in>set (rp_paddings rp2). pd = []"
    using cat_packs [OF 1(2) b pk, of 253 761] 1 s by auto
  have "int (length (plain_packet False 131 (?fr 252 @ ?fr 253))) = 1527"
    by (simp add: plain_packet_def plain_header_def encode_size_def sd_bytes_def)
  moreover have "range_of (rp_frames rp2) 0 6 = ?fr 252 @ ?fr 253" using 2(3) by (simp add: range_of_def)
  moreover have "\<forall>pd\<in>set (range_of (rp_paddings rp2) 0 6). pd = []" using 2(6) by (auto simp: range_of_def dest!: in_set_takeD)
  ultimately have "opus_repacketizer_out rp2 (6 + 758 + 761) = Inl OPUS_BUFFER_TOO_SMALL"
    using out_range_plain [OF 2(2) _ _ _ _ refl, of 0 6 1525 False] 2(4,5) by (simp add: opus_repacketizer_out_def)
  then show ?thesis using 1(1) 2(1,5) by (auto simp: opus_repacketizer_get_nb_frames_def)
qed

text \<open>
  C39. \<open>opus_packet_pad\<close> reports \<open>OPUS_INTERNAL_ERROR\<close>, an error its documentation does not list, for
  every packet that parses but whose padding is not a sequence of extensions, whatever the new length
  as long as it exceeds the old one.
\<close>

theorem packet_pad_internal_error:
  assumes "bytes data" "opus_packet_parse_impl data (int (length data)) False False = Inr p" "int (length data) < new_len"
    and "\<forall>n. fst (opus_packet_extensions_parse (packet_padding data p) (int (length (packet_padding data p))) n) \<noteq> None"
  shows "opus_packet_pad data (int (length data)) new_len = Inl OPUS_INTERNAL_ERROR"
proof -
  note c = fresh_cat [OF assms(1,2)]
  define rp where "rp = rp_add (rp_config fresh (pk_toc p)) data p"
  have n: "\<not> int (length data) < 1" using parse_packet_ok(2) [OF assms(1,2)] by (simp add: not_less Suc_le_eq)
  have "range_of (rp_paddings rp) 0 (rp_nb_frames rp) = packet_padding data p # replicate (nat (pk_count p - 1)) []"
    unfolding rp_def c(4,6) using c(7) by (intro range_all) simp
  moreover have "collect_extensions cap 0 (packet_padding data p # pds) [] = Inl OPUS_INTERNAL_ERROR" for cap pds
  proof -
    obtain e xs where "opus_packet_extensions_parse (packet_padding data p) (int (length (packet_padding data p))) (nat cap) = (Some e, xs)"
      using assms(4) by (metis not_None_eq prod.collapse)
    then show ?thesis by simp
  qed
  ultimately have "opus_repacketizer_out_range_impl rp 0 (rp_nb_frames rp) new_len False True [] = Inl OPUS_INTERNAL_ERROR"
    using c(4,7) by (simp add: opus_repacketizer_out_range_impl_def Let_def rp_def range_of_def)
  then show ?thesis using assms(3) n c(1) by (simp add: opus_packet_pad_def opus_packet_pad_impl_def opus_repacketizer_cat_def flip: rp_def)
qed

theorem packet_pad_internal_error_witness: "opus_packet_pad [3, 65, 1, 67] 4 5 = Inl OPUS_INTERNAL_ERROR"
proof -
  let ?p = "\<lparr>pk_toc = 3, pk_count = 1, pk_frames = [3], pk_size = [0], pk_payload_offset = 3, pk_padding = 3, pk_padding_len = 1, pk_packet_offset = 4\<rparr>"
  have b: "bytes [3, 65, 1, 67]" by code_simp
  have p: "opus_packet_parse_impl [3, 65, 1, 67] (int (length [3, 65, 1, 67 :: int])) False False = Inr ?p" by code_simp
  have d: "packet_padding [3, 65, 1, 67] ?p = [67]" by code_simp
  have "read_byte [67] 0 = Inr 67" "ext_next_frame [67] 0 1 0 67 = Inr 0" "skip_extension [67] 0 1 = Inr (- 1, 0, 1)" by code_simp+
  then have "opus_packet_extensions_parse [67] 1 n = (Some OPUS_INVALID_PACKET, [])" for n
    by (simp add: opus_packet_extensions_parse_def extensions_parse_loop.simps)
  then show ?thesis using packet_pad_internal_error [OF b p, of 5] d by simp
qed

end
