(* ===== verification/Spec2Isabelle.thy ===== *)
theory Spec2Isabelle
  imports Pulse_Coding Quant_Bands Silk_Stereo Silk_Parameters Opus_Padding
begin

text \<open>
  A verification of the bit streams of the Opus codec that Kizunalink carries in
  \<open>src/kizunalink/native/opus\<close>.  File names below are relative to that directory.

  \<^bold>\<open>The program.\<close>  A packet (\<open>src/opus.c\<close>) has a byte that says which mode and frame size it uses,
  the sizes of its frames, the frames, and padding that may hold extensions (\<open>src/extensions.c\<close>).
  Packets are merged, split, padded and unpadded without decoding them (\<open>src/repacketizer.c\<close>).  A
  frame is one range-coded stream (\<open>celt/entenc.c\<close>, \<open>celt/entdec.c\<close>): symbols from the front of the
  buffer, raw bits from its end.  CELT writes into it the energies of bands (\<open>celt/quant_bands.c\<close>,
  with the Laplace coder of \<open>celt/laplace.c\<close>) and the shapes of bands as pulse vectors
  (\<open>celt/cwrs.c\<close>).  SILK writes the indices of a frame (\<open>silk/encode_indices.c\<close>), its excitation
  pulses (\<open>silk/encode_pulses.c\<close>) and stereo predictors (\<open>silk/stereo_encode_pred.c\<close>); its decoder
  turns the indices into gains, line spectral frequencies and pitch lags
  (\<open>silk/decode_parameters.c\<close>).

  \<^bold>\<open>How the code is modelled.\<close>  A C integer is an \<^typ>\<open>int\<close>, and a cast or an assignment that can
  change the value is one of \<open>u8\<close>, \<open>u16\<close>, \<open>u32\<close>, \<open>i8\<close>, \<open>i16\<close>, \<open>i32\<close> (theory \<open>Opus_Prelude\<close>, which also
  has the lemmas on bits, bytes and lists that all components share).  A structure is a record
  with the field names of the source, an array is a list, and a pointer to a structure that is
  changed is an argument and a result.  Error codes are values of \<open>opus_error\<close> in a sum type,
  and reading outside a packet is an error value of its own, so that theorems can exclude it.
  Functions keep their C names; a part of a long function that has a name of its own is
  listed with its lines in the manifest.  Loops are structural recursions, folds over the
  indices, or functions with a termination proof by what the loop consumes: the range, the bits of
  the window, the bytes of padding and extensions that are left.  Two loops count rounds because the source
  bounds them: ten escapes per shell block and twenty rounds of the stabiliser.  The one loop that
  the source does not bound, the escape of \<open>ec_laplace_decode_p0\<close>, is a partial function, and its
  round trip shows that it returns.

  \<^bold>\<open>Entropy coder.\<close>  \<open>Entcode\<close>, \<open>Entenc\<close> and \<open>Entdec\<close> translate every routine.  \<open>Range_Encoder\<close> gives
  the number that the encoder state stands for, carries included, and \<open>Range_Coder\<close> the
  invariant that couples a decoder to the encoder.  \<open>Symbol_Code\<close> has the locale \<open>symbol_code\<close>, the
  contract of a coding scheme built on the range coder (encoding keeps the encoder sound and a
  coupled decoder reads the symbol and stays coupled); the primitive symbols interpret it there,
  the pulse vectors in \<open>Cwrs\<close> and both Laplace coders in \<open>Laplace\<close>.  \<open>Range_Decoder\<close> shows the round
  trip of whole streams and that decoding arbitrary bytes is safe.  \<open>Ec_Sync\<close> is for
  procedures that ask the coder how many bits are left, and \<open>Ec_Fields\<close> for the formats of SILK:
  \<open>transmits\<close> of \<open>Range_Coder\<close> composes round trips, \<open>yields\<close> composes what a decoder gets from arbitrary bytes.

  \<^bold>\<open>CELT.\<close>  \<open>Pvq\<close> is the combinatorics of pulse vectors, \<open>Cwrs\<close> the coder with the table of the
  source, \<open>Pulse_Coding\<close> the variant for small memory, its equivalence, and the round trip
  in a stream for all dimensions that the table covers.  \<open>Laplace\<close> and \<open>Quant_Bands\<close> model the
  energies: coarse quantisation in one pass, fine quantisation and its use of left-over bits, in
  the fixed-point build, with the theorem that encoder and decoder hold the same energies unless the
  first band meets exactly one remaining bit, and what happens there.

  \<^bold>\<open>SILK.\<close>  \<open>Silk_Tables\<close> has the tables, constants and fixed-point macros.  \<open>Silk_Pulses\<close> is the
  excitation, \<open>Silk_Indices\<close> the side information together with the decoder's reset and its
  change of sampling rate, \<open>Silk_Stereo\<close> the stereo predictors, \<open>Silk_Gains\<close> the gains, \<open>Silk_Sort\<close>
  and \<open>Silk_NLSF\<close> the line spectral frequencies.  \<open>Silk_Frame\<close> composes side information and
  excitation to the frames of a packet, which are coded conditionally on each other.
  \<open>Silk_Parameters\<close> composes reading a frame with the reconstruction of its parameters.  The
  lemmas show for each part that the decoder recovers what was sent, and for arbitrary bytes
  that every decoded index lies within the table it selects from, that the places which are then
  read in the codebooks of envelope, lags and predictor taps lie inside them, and that the invariant
  \<open>decoder_ok\<close>, later \<open>params_ok\<close>, holds again after the frame.

  \<^bold>\<open>Packets.\<close>  \<open>Opus_Packet\<close> is the parser, with the functions that inspect a packet;
  \<open>Opus_Extensions\<close> counts, parses and generates extensions; \<open>Opus_Repacketizer\<close> collects frames and
  writes them again; \<open>Opus_Padding\<close> pads and unpads packets and multistream packets, also in
  place for a single packet (a multistream packet is unpadded to a separate output).  Sizes are
  unbounded, which differs from the source only near \<open>2\<close> to the power of \<open>31\<close>.  The lemmas show that no byte outside a packet is read, that what is written parses
  back to the same frames and extensions, which inputs are rejected, and how much space suffices.

  \<^bold>\<open>Assumptions of the theorems.\<close>  A round trip assumes that the buffer was large enough (the
  encoder ends without error) and that fewer than \<open>2\<close> to the power of \<open>31\<close> bits were written, as the
  counters of the source do.  Stream lengths are below \<open>2\<close> to the power of \<open>32\<close>.  The theorems on SILK
  frames assume a channel that was set up for 8, 12 or 16 kHz and 10 or 20 ms, which is
  proved of the setup code, and the round trip of frames is about the first channel of a packet.

  \<^bold>\<open>Not modelled.\<close>  The services in Rust and the vendored encryption library are input and
  output on runtimes and cryptography that are not in the repository.  The signal processing in C
  (transforms, filters, linear prediction, noise shaping, pitch search, voice activity, loss
  concealment, resampling, neural networks) is mostly floating point and has no stated contract
  beyond audio quality; its SIMD variants go with it.  Therefore the encoder and decoder front
  ends, the bit allocation and band loops of CELT, the two-pass choice of the coarse energy,
  the choice of SILK's indices and the redundancy data of SILK packets are left out: the
  theorems hold for all indices, pulses and energies that they may choose.  Of
  \<open>silk_decode_parameters\<close> the conversion of line spectral frequencies to filter coefficients is left
  out, of \<open>silk_decoder_set_fs\<close> and \<open>silk_reset_decoder\<close> the states of resampler, comfort noise and loss
  concealment.
\<close>

end
